(* ===== verification/Ngx_Prelude.thy ===== *)
theory Ngx_Prelude
  imports Main "HOL-Library.Word" "HOL-Library.Monad_Syntax" "HOL-Library.Multiset"
begin

text \<open>
  The prelude of the nginx development: the names of the C types the models use, the ASCII
  codes the sources compare with, reads from memory, the scanning loop the incremental
  parsers share with its contract, and the lemmas on bytes, words and lists that the
  component theories rely on.

  The platform is LP64 Linux: \<open>u_char\<close> has 8 bits, \<open>ngx_int_t\<close>, \<open>ngx_uint_t\<close>, \<open>size_t\<close>,
  \<open>off_t\<close> and \<open>time_t\<close> have 64, signed arithmetic is two's complement and wraps.
\<close>

unbundle bit_operations_syntax

section \<open>Types\<close>

type_synonym u_char = "8 word"
type_synonym uint32_t = "32 word"
type_synonym ngx_uint_t = "64 word"
type_synonym ngx_int_t = "64 word"
type_synonym bytes = "u_char list"

text \<open>
  Return codes of \<open>src/src/core/ngx_core.h\<close> as \<open>ngx_int_t\<close>. A signed comparison
  \<open>value < 0\<close> of the source is written \<open>value <s 0\<close>.
\<close>

abbreviation NGX_ERROR :: ngx_int_t where "NGX_ERROR \<equiv> - 1"

section \<open>Characters\<close>

text \<open>The bytes of a C string literal, without the terminating zero.\<close>

abbreviation str :: "string \<Rightarrow> bytes" where
  "str s \<equiv> map of_char s"

abbreviation (input) LF :: u_char where "LF \<equiv> 10"
abbreviation (input) CR :: u_char where "CR \<equiv> 13"
abbreviation (input) c_tab :: u_char where "c_tab \<equiv> 9"
abbreviation (input) c_space :: u_char where "c_space \<equiv> 32"
abbreviation (input) c_quot :: u_char where "c_quot \<equiv> 34"
abbreviation (input) c_hash :: u_char where "c_hash \<equiv> 35"
abbreviation (input) c_percent :: u_char where "c_percent \<equiv> 37"
abbreviation (input) c_amp :: u_char where "c_amp \<equiv> 38"
abbreviation (input) c_lpar :: u_char where "c_lpar \<equiv> 40"
abbreviation (input) c_star :: u_char where "c_star \<equiv> 42"
abbreviation (input) c_plus :: u_char where "c_plus \<equiv> 43"
abbreviation (input) c_comma :: u_char where "c_comma \<equiv> 44"
abbreviation (input) c_minus :: u_char where "c_minus \<equiv> 45"
abbreviation (input) c_dot :: u_char where "c_dot \<equiv> 46"
abbreviation (input) c_slash :: u_char where "c_slash \<equiv> 47"
abbreviation (input) c_0 :: u_char where "c_0 \<equiv> 48"
abbreviation (input) c_1 :: u_char where "c_1 \<equiv> 49"
abbreviation (input) c_9 :: u_char where "c_9 \<equiv> 57"
abbreviation (input) c_colon :: u_char where "c_colon \<equiv> 58"
abbreviation (input) c_semi :: u_char where "c_semi \<equiv> 59"
abbreviation (input) c_lt :: u_char where "c_lt \<equiv> 60"
abbreviation (input) c_eq :: u_char where "c_eq \<equiv> 61"
abbreviation (input) c_gt :: u_char where "c_gt \<equiv> 62"
abbreviation (input) c_quest :: u_char where "c_quest \<equiv> 63"
abbreviation (input) c_A :: u_char where "c_A \<equiv> 65"
abbreviation (input) c_F :: u_char where "c_F \<equiv> 70"
abbreviation (input) c_H :: u_char where "c_H \<equiv> 72"
abbreviation (input) c_P :: u_char where "c_P \<equiv> 80"
abbreviation (input) c_T :: u_char where "c_T \<equiv> 84"
abbreviation (input) c_Z :: u_char where "c_Z \<equiv> 90"
abbreviation (input) c_lbracket :: u_char where "c_lbracket \<equiv> 91"
abbreviation (input) c_bslash :: u_char where "c_bslash \<equiv> 92"
abbreviation (input) c_rbracket :: u_char where "c_rbracket \<equiv> 93"
abbreviation (input) c_underscore :: u_char where "c_underscore \<equiv> 95"
abbreviation (input) c_a :: u_char where "c_a \<equiv> 97"
abbreviation (input) c_f :: u_char where "c_f \<equiv> 102"
abbreviation (input) c_z :: u_char where "c_z \<equiv> 122"
abbreviation (input) c_lbrace :: u_char where "c_lbrace \<equiv> 123"
abbreviation (input) c_rbrace :: u_char where "c_rbrace \<equiv> 125"

section \<open>Memory reads\<close>

text \<open>
  An object in memory is the list of its bytes. A read past its end is undefined behaviour
  in C and \<open>None\<close> here, so that a theorem that a function returns \<open>Some\<close> says that every
  read stays inside the object.
\<close>

definition rd :: "bytes \<Rightarrow> nat \<Rightarrow> u_char option" where
  "rd m i = (if i < length m then Some (m ! i) else None)"

lemma rd_Some [simp]: "i < length m \<Longrightarrow> rd m i = Some (m ! i)"
  by (simp add: rd_def)

lemma rd_None [simp]: "length m \<le> i \<Longrightarrow> rd m i = None"
  by (simp add: rd_def)

lemma rd_Nil [simp]: "rd [] i = None"
  by (simp add: rd_def)

lemma rd_append_Cons [simp]: "rd (xs @ y # ys) (length xs) = Some y"
  by (simp add: rd_def)

lemma rd_eq_Some_iff: "rd m i = Some c \<longleftrightarrow> i < length m \<and> m ! i = c"
  by (auto simp: rd_def)

section \<open>Bytes and words\<close>

lemma unat_u_char_less: "unat (c :: u_char) < 256"
  by (rule order_less_le_trans [OF unsigned_less]) simp

lemma all_less_8:
  "(\<forall>n < 8. P n) \<longleftrightarrow> P 0 \<and> P 1 \<and> P 2 \<and> P 3 \<and> P 4 \<and> P 5 \<and> P 6 \<and> P (7 :: nat)"
  by (simp add: eval_nat_numeral All_less_Suc conj_ac)

text \<open>Two bytes with the same eight bits are equal; used with \<open>bit_simps\<close>.\<close>

lemma byte_eqI:
  fixes a b :: u_char
  assumes "bit a 0 = bit b 0" "bit a 1 = bit b 1" "bit a 2 = bit b 2" "bit a 3 = bit b 3"
    and "bit a 4 = bit b 4" "bit a 5 = bit b 5" "bit a 6 = bit b 6" "bit a 7 = bit b 7"
  shows "a = b"
  by (rule bit_word_eqI) (use assms all_less_8 [of "\<lambda>n. bit a n = bit b n"] in simp)

lemma byte_add_or:
  fixes a b :: u_char
  assumes "\<not> (bit a 0 \<and> bit b 0)" "\<not> (bit a 1 \<and> bit b 1)" "\<not> (bit a 2 \<and> bit b 2)"
    and "\<not> (bit a 3 \<and> bit b 3)" "\<not> (bit a 4 \<and> bit b 4)" "\<not> (bit a 5 \<and> bit b 5)"
    and "\<not> (bit a 6 \<and> bit b 6)" "\<not> (bit a 7 \<and> bit b 7)"
  shows "a + b = a OR b"
proof (rule disjunctive_add)
  fix n
  have "\<forall>n < 8. \<not> bit a n \<or> \<not> bit b n"
    using assms by (simp add: all_less_8)
  then show "\<not> bit a n \<or> \<not> bit b n"
    using bit_imp_le_length [of a n] by auto
qed

text \<open>Comparisons of words become comparisons of naturals, which arithmetic decides.\<close>

lemmas word_nat_simps = word_le_nat_alt word_less_nat_alt

lemma unat_minus_le: "b \<le> a \<Longrightarrow> unat (a - b :: 'a::len word) = unat a - unat b"
  by (simp add: unat_sub)

lemma word_of_nat_inj_less:
  "m < 2 ^ LENGTH('a) \<Longrightarrow> n < 2 ^ LENGTH('a) \<Longrightarrow>
   (word_of_nat m :: 'a::len word) = word_of_nat n \<longleftrightarrow> m = n"
  by (simp add: word_of_nat_eq_iff take_bit_nat_eq_self)

lemma sint_small:
  fixes a :: "'a::len word"
  assumes "unat a < 2 ^ (LENGTH('a) - 1)"
  shows "sint a = int (unat a)"
proof -
  have "int (unat a) < int (2 ^ (LENGTH('a) - 1))" using assms by (simp only: of_nat_less_iff)
  moreover have "int (2 ^ (LENGTH('a) - 1)) = 2 ^ (LENGTH('a) - 1)" by simp
  moreover have "- (2 ^ (LENGTH('a) - 1)) \<le> int (unat a)"
    by (rule order_trans [OF _ of_nat_0_le_iff]) simp
  ultimately have "signed_take_bit (LENGTH('a) - 1) (int (unat a)) = int (unat a)"
    by (intro signed_take_bit_int_eq_self) (simp_all only:)
  then show ?thesis by (simp add: sint_uint)
qed

lemma ucast_u_char_64 [simp]: "unat (ucast (c :: u_char) :: 64 word) = unat c"
  by (simp add: unsigned_ucast_eq take_bit_nat_eq_self_iff
      order_less_trans [OF unat_u_char_less])

text \<open>Rules that push \<open>word_of_nat\<close> inwards; deleted where a word stays a residue.\<close>

lemmas word_of_nat_push = of_nat_add of_nat_mult of_nat_power

text \<open>The sign test of a 64-bit integer.\<close>

lemma unat_64_less: "unat (w :: 64 word) < 2 ^ 64"
  by (rule order_less_le_trans [OF unsigned_less]) simp

lemma sless_0_iff: "(w :: 64 word) <s 0 \<longleftrightarrow> 2 ^ 63 \<le> unat w"
proof -
  have "w <s 0 \<longleftrightarrow> bit w 63"
    using bit_last_iff [of w] by (simp add: word_sless_alt)
  also have "\<dots> \<longleftrightarrow> bit (unat w) 63" by (simp add: bit_unsigned_iff)
  also have "\<dots> \<longleftrightarrow> odd (unat w div 2 ^ 63)" by (rule bit_iff_odd)
  also have "\<dots> \<longleftrightarrow> 2 ^ 63 \<le> unat w"
  proof -
    have "unat w div 2 ^ 63 < 2" using unat_64_less [of w] by simp
    then have "odd (unat w div 2 ^ 63) \<longleftrightarrow> unat w div 2 ^ 63 \<noteq> 0"
      by (auto simp: less_2_cases_iff)
    then show ?thesis by (simp add: div_eq_0_iff not_less)
  qed
  finally show ?thesis .
qed

lemma sless_0_of_nat:
  "(word_of_nat v :: 64 word) <s 0 \<longleftrightarrow> 2 ^ 63 \<le> v mod 2 ^ 64"
  by (simp add: sless_0_iff unsigned_of_nat take_bit_eq_mod)

text \<open>The idiom \<open>ch | 0x20\<close>, which folds the case of an ASCII letter.\<close>

lemma bit_5_u_char: "bit (c :: u_char) 5 \<longleftrightarrow> odd (unat c div 32)"
proof -
  have "bit c 5 \<longleftrightarrow> bit (unat c) 5" by (simp add: bit_unsigned_iff)
  also have "\<dots> \<longleftrightarrow> odd (unat c div 2 ^ 5)" by (rule bit_iff_odd)
  finally show ?thesis by simp
qed

lemma unat_or_20:
  "unat (c OR 0x20 :: u_char) = (if odd (unat c div 32) then unat c else unat c + 32)"
proof (cases "bit c 5")
  case True
  then have "c OR 0x20 = c"
    by (intro byte_eqI) (simp_all add: bit_simps)
  with True show ?thesis by (simp add: bit_5_u_char)
next
  case False
  then have e: "even (unat c div 32)" by (simp add: bit_5_u_char)
  have "c + 0x20 = c OR 0x20"
    by (rule byte_add_or) (use False in \<open>simp_all add: bit_simps\<close>)
  then have "unat (c OR 0x20) = unat (c + 0x20)" by simp
  also have "\<dots> = unat c + 32"
  proof -
    have "unat c div 32 \<noteq> 7" using e by (metis odd_numeral)
    then have "unat c + 32 < 256" using unat_u_char_less [of c] by linarith
    then show ?thesis by (simp add: unat_word_ariths)
  qed
  finally show ?thesis using e by simp
qed

section \<open>Bitmaps over the characters\<close>

text \<open>
  \<open>table[ch >> 5] & (1 << (ch & 0x1f))\<close>, the test of a character in a bitmap of eight
  32-bit words.
\<close>

definition bitmap_test :: "uint32_t list \<Rightarrow> u_char \<Rightarrow> bool" where
  "bitmap_test table ch \<longleftrightarrow>
     table ! unat (drop_bit 5 ch) AND push_bit (unat (ch AND 0x1f)) 1 \<noteq> 0"

lemma unat_and_1f: "unat (ch AND 0x1f :: u_char) = unat ch mod 32"
proof -
  have "ch AND 0x1f = take_bit 5 ch" by (simp add: take_bit_eq_mask mask_numeral)
  then show ?thesis by (simp add: take_bit_eq_mod unat_mod)
qed

lemma bitmap_test_bit: "bitmap_test table ch \<longleftrightarrow> bit (table ! (unat ch div 32)) (unat ch mod 32)"
  by (simp add: bitmap_test_def unat_and_1f drop_bit_eq_div unat_div and_exp_eq_0_iff_not_bit)

text \<open>The word with the given bits set.\<close>

definition bits_word :: "nat list \<Rightarrow> uint32_t" where
  "bits_word ks = foldr (\<lambda>k w. 2 ^ k OR w) ks 0"

lemma bit_bits_word: "n < 32 \<Longrightarrow> bit (bits_word ks) n \<longleftrightarrow> n \<in> set ks"
  by (induction ks) (auto simp: bits_word_def bit_or_iff bit_exp_iff)

lemma bit_not_bits_word: "n < 32 \<Longrightarrow> bit (NOT (bits_word ks)) n \<longleftrightarrow> n \<notin> set ks"
  by (simp add: bit_not_iff bit_bits_word)

text \<open>The characters whose bits are listed, word by word from word \<open>q\<close>.\<close>

fun bitmap_chars :: "nat \<Rightarrow> nat list list \<Rightarrow> nat list" where
  "bitmap_chars q [] = []"
| "bitmap_chars q (ks # kss) = map (\<lambda>k. 32 * q + k) ks @ bitmap_chars (Suc q) kss"

lemma in_bitmap_chars:
  "\<forall>ks \<in> set kss. \<forall>k \<in> set ks. k < 32 \<Longrightarrow>
   n \<in> set (bitmap_chars q kss) \<longleftrightarrow>
     q \<le> n div 32 \<and> n div 32 < q + length kss \<and> n mod 32 \<in> set (kss ! (n div 32 - q))"
proof (induction q kss rule: bitmap_chars.induct)
  case (2 q ks kss)
  have "n \<in> (\<lambda>k. 32 * q + k) ` set ks \<longleftrightarrow> n div 32 = q \<and> n mod 32 \<in> set ks"
  proof
    assume "n div 32 = q \<and> n mod 32 \<in> set ks"
    then show "n \<in> (\<lambda>k. 32 * q + k) ` set ks"
      by (metis image_eqI mult_div_mod_eq)
  qed (use 2 in auto)
  then show ?case
    using 2 by (cases "n div 32 = q") (auto simp: nth_Cons')
qed simp

lemma bitmap_test_clear:
  assumes "table = map (\<lambda>ks. NOT (bits_word ks)) kss" and "length kss = 8"
    and "\<forall>ks \<in> set kss. \<forall>k \<in> set ks. k < 32"
  shows "bitmap_test table ch \<longleftrightarrow> unat ch \<notin> set (bitmap_chars 0 kss)"
proof -
  have "unat ch div 32 < 8" using unat_u_char_less [of ch] by linarith
  then show ?thesis using assms by (simp add: bitmap_test_bit bit_not_bits_word in_bitmap_chars)
qed

lemma bitmap_test_set:
  assumes "table = map bits_word kss" and "length kss = 8"
    and "\<forall>ks \<in> set kss. \<forall>k \<in> set ks. k < 32"
  shows "bitmap_test table ch \<longleftrightarrow> unat ch \<in> set (bitmap_chars 0 kss)"
proof -
  have "unat ch div 32 < 8" using unat_u_char_less [of ch] by linarith
  then show ?thesis using assms by (simp add: bitmap_test_bit bit_bits_word in_bitmap_chars)
qed

section \<open>Character classes\<close>

definition is_digit :: "u_char \<Rightarrow> bool" where
  "is_digit c \<longleftrightarrow> c_0 \<le> c \<and> c \<le> c_9"

definition is_upper :: "u_char \<Rightarrow> bool" where
  "is_upper c \<longleftrightarrow> c_A \<le> c \<and> c \<le> c_Z"

definition is_lower :: "u_char \<Rightarrow> bool" where
  "is_lower c \<longleftrightarrow> c_a \<le> c \<and> c \<le> c_z"

text \<open>The macros \<open>ngx_tolower\<close> and \<open>ngx_toupper\<close> of \<open>ngx_string.h\<close>.\<close>

definition ngx_tolower :: "u_char \<Rightarrow> u_char" where
  "ngx_tolower c = (if c_A \<le> c \<and> c \<le> c_Z then c OR 0x20 else c)"

definition ngx_toupper :: "u_char \<Rightarrow> u_char" where
  "ngx_toupper c = (if c_a \<le> c \<and> c \<le> c_z then c AND NOT 0x20 else c)"

lemma unat_ngx_tolower:
  "unat (ngx_tolower c) = (if 65 \<le> unat c \<and> unat c \<le> 90 then unat c + 32 else unat c)"
proof (cases "65 \<le> unat c \<and> unat c \<le> 90")
  case True
  then have "unat c div 32 = 2" by linarith
  with True show ?thesis by (simp add: ngx_tolower_def word_nat_simps unat_or_20)
next
  case False
  then show ?thesis by (auto simp: ngx_tolower_def word_nat_simps)
qed

lemma ngx_tolower_idem [simp]: "ngx_tolower (ngx_tolower c) = ngx_tolower c"
  by (simp add: word_unat_eq_iff unat_ngx_tolower)

lemma ngx_tolower_eq_0_iff [simp]: "ngx_tolower c = 0 \<longleftrightarrow> c = 0"
  by (simp add: unat_ngx_tolower flip: unat_eq_0)

section \<open>Codecs\<close>

text \<open>The contract of an encoder and its decoder: decoding gives back what was encoded.\<close>

locale codec =
  fixes enc :: "'a \<Rightarrow> 'b" and dec :: "'b \<Rightarrow> 'a option"
  assumes dec_enc: "dec (enc x) = Some x"
begin

lemma enc_eq_iff: "enc x = enc y \<longleftrightarrow> x = y"
  by (metis dec_enc option.inject)

end

lemma ucast_64_eq [simp]:
  fixes a b :: u_char
  shows "(ucast a :: 64 word) = ucast b \<longleftrightarrow> a = b"
  by (metis ucast_u_char_64 word_unat_eq_iff)

lemma ucast_64_eq_0 [simp]:
  fixes a :: u_char
  shows "(ucast a :: 64 word) = 0 \<longleftrightarrow> a = 0"
  using ucast_64_eq [of a 0] by simp

section \<open>Outcomes\<close>

text \<open>A function ends with a value, with \<open>NGX_ERROR\<close>, or with undefined behaviour.\<close>

datatype 'a outcome = Done 'a | Failed | Undefined

fun and_then :: "'a outcome \<Rightarrow> ('a \<Rightarrow> 'b outcome) \<Rightarrow> 'b outcome" where
  "and_then (Done x) f = f x"
| "and_then Failed f = Failed"
| "and_then Undefined f = Undefined"

lemma and_then_cong [fundef_cong]:
  "m = m' \<Longrightarrow> (\<And>x. m' = Done x \<Longrightarrow> f x = f' x) \<Longrightarrow> and_then m f = and_then m' f'"
  by (cases m') simp_all

lemma and_then_eq_Done [simp]: "and_then m f = Done y \<longleftrightarrow> (\<exists>x. m = Done x \<and> f x = Done y)"
  by (cases m) simp_all

lemma if_outcome_eq_Done [simp]:
  "(if b then Failed else m) = Done y \<longleftrightarrow> \<not> b \<and> m = Done y"
  "(if b then Undefined else m) = Done y \<longleftrightarrow> \<not> b \<and> m = Done y"
  by simp_all

end
