(* ===== verification/Ngx_String_Num.thy ===== *)
theory Ngx_String_Num
  imports Ngx_Prelude
begin

text \<open>
  Numbers in text: \<open>ngx_atoi\<close> and its siblings, \<open>ngx_atofp\<close>, \<open>ngx_hextoi\<close>,
  \<open>ngx_hex_dump\<close> and \<open>ngx_sprintf_num\<close> of \<open>src/src/core/ngx_string.c\<close>. The parsers
  read \<open>n\<close> bytes at \<open>line\<close>; \<open>None\<close> is a read past the end of the object.
\<close>

section \<open>Model\<close>

subsection \<open>Decimal numbers\<close>

fun atoi_loop :: "bytes \<Rightarrow> nat \<Rightarrow> ngx_int_t \<Rightarrow> ngx_int_t option" where
  "atoi_loop line 0 value = Some (if value <s 0 then NGX_ERROR else value)"
| "atoi_loop [] (Suc n) value = None"
| "atoi_loop (c # line) (Suc n) value =
     (if c < c_0 \<or> c_9 < c then Some NGX_ERROR
      else atoi_loop line n (value * 10 + (ucast c - 48)))"

definition ngx_atoi :: "bytes \<Rightarrow> nat \<Rightarrow> ngx_int_t option" where
  "ngx_atoi line n = (if n = 0 then Some NGX_ERROR else atoi_loop line n 0)"

text \<open>\<open>ssize_t\<close>, \<open>off_t\<close> and \<open>time_t\<close> have the width of \<open>ngx_int_t\<close>.\<close>

definition ngx_atosz :: "bytes \<Rightarrow> nat \<Rightarrow> ngx_int_t option" where
  "ngx_atosz line n = (if n = 0 then Some NGX_ERROR else atoi_loop line n 0)"

definition ngx_atoof :: "bytes \<Rightarrow> nat \<Rightarrow> ngx_int_t option" where
  "ngx_atoof line n = (if n = 0 then Some NGX_ERROR else atoi_loop line n 0)"

definition ngx_atotm :: "bytes \<Rightarrow> nat \<Rightarrow> ngx_int_t option" where
  "ngx_atotm line n = (if n = 0 then Some NGX_ERROR else atoi_loop line n 0)"

fun atofp_scale :: "nat \<Rightarrow> ngx_int_t \<Rightarrow> ngx_int_t" where
  "atofp_scale 0 value = value"
| "atofp_scale (Suc point) value = atofp_scale point (value * 10)"

fun atofp_loop :: "bytes \<Rightarrow> nat \<Rightarrow> nat \<Rightarrow> nat \<Rightarrow> ngx_int_t \<Rightarrow> ngx_int_t option" where
  "atofp_loop line 0 point dot value =
     (let value = atofp_scale point value in Some (if value <s 0 then NGX_ERROR else value))"
| "atofp_loop [] (Suc n) point dot value = (if point = 0 then Some NGX_ERROR else None)"
| "atofp_loop (c # line) (Suc n) point dot value =
     (if point = 0 then Some NGX_ERROR
      else if c = c_dot then
        (if dot \<noteq> 0 then Some NGX_ERROR else atofp_loop line n point 1 value)
      else if c < c_0 \<or> c_9 < c then Some NGX_ERROR
      else atofp_loop line n (point - dot) dot (value * 10 + (ucast c - 48)))"

definition ngx_atofp :: "bytes \<Rightarrow> nat \<Rightarrow> nat \<Rightarrow> ngx_int_t option" where
  "ngx_atofp line n point = (if n = 0 then Some NGX_ERROR else atofp_loop line n point 0 0)"

subsection \<open>Hexadecimal numbers\<close>

definition hex_lower :: bytes where
  "hex_lower = str ''0123456789abcdef''"

definition hex_upper :: bytes where
  "hex_upper = str ''0123456789ABCDEF''"

fun hextoi_loop :: "bytes \<Rightarrow> nat \<Rightarrow> ngx_int_t \<Rightarrow> ngx_int_t option" where
  "hextoi_loop line 0 value = Some (if value <s 0 then NGX_ERROR else value)"
| "hextoi_loop [] (Suc n) value = None"
| "hextoi_loop (ch # line) (Suc n) value =
     (if c_0 \<le> ch \<and> ch \<le> c_9 then hextoi_loop line n (value * 16 + (ucast ch - 48))
      else let c = ch OR 0x20 in
        if c_a \<le> c \<and> c \<le> c_f then hextoi_loop line n (value * 16 + (ucast c - 97 + 10))
        else Some NGX_ERROR)"

definition ngx_hextoi :: "bytes \<Rightarrow> nat \<Rightarrow> ngx_int_t option" where
  "ngx_hextoi line n = (if n = 0 then Some NGX_ERROR else hextoi_loop line n 0)"

text \<open>The bytes \<open>ngx_hex_dump\<close> writes at \<open>dst\<close> for \<open>len\<close> bytes at \<open>src\<close>.\<close>

fun ngx_hex_dump :: "bytes \<Rightarrow> nat \<Rightarrow> bytes option" where
  "ngx_hex_dump src 0 = Some []"
| "ngx_hex_dump [] (Suc len) = None"
| "ngx_hex_dump (c # src) (Suc len) =
     map_option (\<lambda>d. hex_lower ! unat (drop_bit 4 c) # hex_lower ! unat (c AND 0xf) # d)
       (ngx_hex_dump src len)"

subsection \<open>Printing\<close>

text \<open>
  The \<open>do ... while\<close> loops of \<open>ngx_sprintf_num\<close>, which fill \<open>temp\<close> from its end: the
  argument \<open>acc\<close> holds the bytes from \<open>p\<close> to the end of \<open>temp\<close>.
\<close>

function sprintf_dec32 :: "uint32_t \<Rightarrow> bytes \<Rightarrow> bytes" where
  "sprintf_dec32 ui32 acc =
     (let acc = ucast (ui32 mod 10 + 48) # acc; ui32 = ui32 div 10
      in if ui32 = 0 then acc else sprintf_dec32 ui32 acc)"
  by pat_completeness auto
termination
proof (relation "measure (\<lambda>(u, _). unat u)", goal_cases)
  case (2 u acc x y)
  then have "unat u div 10 \<noteq> 0" by (simp add: unat_div flip: unat_eq_0)
  then show ?case using 2 by (simp add: unat_div)
qed simp

function sprintf_dec64 :: "64 word \<Rightarrow> bytes \<Rightarrow> bytes" where
  "sprintf_dec64 ui64 acc =
     (let acc = ucast (ui64 mod 10 + 48) # acc; ui64 = ui64 div 10
      in if ui64 = 0 then acc else sprintf_dec64 ui64 acc)"
  by pat_completeness auto
termination
proof (relation "measure (\<lambda>(u, _). unat u)", goal_cases)
  case (2 u acc x y)
  then have "unat u div 10 \<noteq> 0" by (simp add: unat_div flip: unat_eq_0)
  then show ?case using 2 by (simp add: unat_div)
qed simp

function sprintf_hex :: "bytes \<Rightarrow> 64 word \<Rightarrow> bytes \<Rightarrow> bytes" where
  "sprintf_hex hex ui64 acc =
     (let acc = hex ! unat (ui64 AND 0xf) # acc; ui64 = drop_bit 4 ui64
      in if ui64 = 0 then acc else sprintf_hex hex ui64 acc)"
  by pat_completeness auto
termination
proof (relation "measure (\<lambda>(h, u, _). unat u)", goal_cases)
  case (2 h u acc x y)
  then have "unat u div 16 \<noteq> 0"
    by (simp add: drop_bit_eq_div unat_div flip: unat_eq_0)
  then show ?case using 2 by (simp add: drop_bit_eq_div unat_div)
qed simp

declare sprintf_dec32.simps [simp del] sprintf_dec64.simps [simp del]
  sprintf_hex.simps [simp del]

definition sprintf_digits :: "64 word \<Rightarrow> nat \<Rightarrow> bytes" where
  "sprintf_digits ui64 hexadecimal =
     (if hexadecimal = 0 then
        (if ui64 \<le> 0xffffffff then sprintf_dec32 (ucast ui64) [] else sprintf_dec64 ui64 [])
      else if hexadecimal = 1 then sprintf_hex hex_lower ui64 []
      else sprintf_hex hex_upper ui64 [])"

text \<open>\<open>while (len++ < width && buf < last) *buf++ = zero;\<close> with \<open>room = last - buf\<close>.\<close>

fun sprintf_pad :: "u_char \<Rightarrow> nat \<Rightarrow> nat \<Rightarrow> nat \<Rightarrow> bytes" where
  "sprintf_pad zero len width 0 = []"
| "sprintf_pad zero len width (Suc room) =
     (if len < width then zero # sprintf_pad zero (Suc len) width room else [])"

text \<open>The bytes \<open>ngx_sprintf_num\<close> writes at \<open>buf\<close>, with \<open>room\<close> bytes up to \<open>last\<close>.\<close>

definition ngx_sprintf_num :: "nat \<Rightarrow> 64 word \<Rightarrow> u_char \<Rightarrow> nat \<Rightarrow> nat \<Rightarrow> bytes" where
  "ngx_sprintf_num room ui64 zero hexadecimal width =
     (let temp = sprintf_digits ui64 hexadecimal;
          pad = sprintf_pad zero (length temp) width room;
          room = room - length pad;
          len = (if length temp > room then room else length temp)
      in pad @ take len temp)"

section \<open>Specification\<close>

text \<open>The number a string of decimal digits denotes, continued from \<open>v\<close>.\<close>

definition dec_from :: "nat \<Rightarrow> bytes \<Rightarrow> nat" where
  "dec_from v cs = foldl (\<lambda>v c. v * 10 + (unat c - 48)) v cs"

abbreviation dec_value :: "bytes \<Rightarrow> nat" where
  "dec_value \<equiv> dec_from 0"

text \<open>What the code makes of a number that was computed modulo \<open>2 ^ 64\<close>.\<close>

definition signed_result :: "nat \<Rightarrow> ngx_int_t" where
  "signed_result v = (if 2 ^ 63 \<le> v mod 2 ^ 64 then NGX_ERROR else word_of_nat v)"

lemma signed_result_small: "v < 2 ^ 63 \<Longrightarrow> signed_result v = word_of_nat v"
  by (simp add: signed_result_def)

lemma dec_from_Nil [simp]: "dec_from v [] = v"
  by (simp add: dec_from_def)

lemma dec_from_Cons [simp]: "dec_from v (c # cs) = dec_from (v * 10 + (unat c - 48)) cs"
  by (simp add: dec_from_def)

lemma dec_from_append [simp]: "dec_from v (xs @ ys) = dec_from (dec_from v xs) ys"
  by (simp add: dec_from_def)

lemma dec_from_eq: "dec_from v cs = v * 10 ^ length cs + dec_value cs"
proof (induction cs rule: rev_induct)
  case Nil
  then show ?case by simp
next
  case (snoc c cs)
  then show ?case by (simp add: algebra_simps)
qed

section \<open>Reading decimal numbers\<close>

lemma digit_step:
  "is_digit c \<Longrightarrow>
   (word_of_nat v :: 64 word) * 10 + (ucast c - 48) = word_of_nat (v * 10 + (unat c - 48))"
  by (simp add: is_digit_def word_nat_simps)

lemma not_digit_iff: "(c < c_0 \<or> c_9 < c) \<longleftrightarrow> \<not> is_digit c"
  by (auto simp: is_digit_def not_le)

declare atoi_loop.simps(3) [simp del]

lemma atoi_loop_Cons [simp]:
  "atoi_loop (c # line) (Suc n) value =
     (if is_digit c then atoi_loop line n (value * 10 + (ucast c - 48)) else Some NGX_ERROR)"
  by (simp add: atoi_loop.simps(3) not_digit_iff)

lemma atoi_loop_digits:
  "n \<le> length line \<Longrightarrow> list_all is_digit (take n line) \<Longrightarrow>
   atoi_loop line n (word_of_nat v) = Some (signed_result (dec_from v (take n line)))"
proof (induction line arbitrary: n v)
  case (Cons c line)
  show ?case
  proof (cases n)
    case (Suc m)
    with Cons show ?thesis by (simp add: digit_step del: word_of_nat_push)
  qed (simp add: signed_result_def sless_0_of_nat)
qed (simp add: signed_result_def sless_0_of_nat)

lemma atoi_loop_bad:
  "n \<le> length line \<Longrightarrow> \<not> list_all is_digit (take n line) \<Longrightarrow>
   atoi_loop line n v = Some NGX_ERROR"
proof (induction line arbitrary: n v)
  case (Cons c line)
  then show ?case by (cases n) auto
qed simp

text \<open>The complete behaviour of the loop on an object that holds the \<open>n\<close> bytes.\<close>

lemma atoi_loop_eq:
  assumes "n \<le> length line"
  shows "atoi_loop line n 0 =
     Some (if list_all is_digit (take n line) then signed_result (dec_value (take n line))
           else NGX_ERROR)"
  using assms atoi_loop_digits [of n line 0] atoi_loop_bad [of n line] by simp

text \<open>
  C13. \<open>ngx_atoi\<close> on \<open>n > 0\<close> readable bytes never reads past them; if one of the bytes is
  not a digit it returns \<open>NGX_ERROR\<close>, otherwise it returns the decimal value modulo
  \<open>2 ^ 64\<close>, or \<open>NGX_ERROR\<close> when that residue has the sign bit set. Below \<open>2 ^ 63\<close> the
  residue is the value itself.
\<close>

theorem ngx_atoi_spec:
  assumes "0 < n" and "n \<le> length line"
  shows "ngx_atoi line n =
     Some (if list_all is_digit (take n line) then signed_result (dec_value (take n line))
           else NGX_ERROR)"
  using assms by (simp add: ngx_atoi_def atoi_loop_eq)

theorem ngx_atoi_spec_witness:
  "ngx_atoi (str ''405 rest'') 3 = Some 405"
  using ngx_atoi_spec [of 3 "str ''405 rest''"]
  by (simp add: is_digit_def signed_result_def)

text \<open>
  The overflow test of \<open>ngx_atoi\<close> is not complete: a decimal number that exceeds the
  range of \<open>ngx_int_t\<close> is accepted with its residue whenever that residue is below
  \<open>2 ^ 63\<close>; so \<open>2 ^ 64 + k\<close> is read as \<open>k\<close>.
\<close>

theorem ngx_atoi_overflow_accepted:
  "ngx_atoi (str ''18446744073709551616'') 20 = Some 0 \<and>
   ngx_atoi (str ''18446744073709551696'') 20 = Some 80 \<and>
   ngx_atoi (str ''9223372036854775808'') 19 = Some NGX_ERROR"
  by (simp add: ngx_atoi_def atoi_loop_eq is_digit_def signed_result_def)

lemma atosz_atoof_atotm_eq_atoi:
  "ngx_atosz = ngx_atoi" "ngx_atoof = ngx_atoi" "ngx_atotm = ngx_atoi"
  by (simp_all add: fun_eq_iff ngx_atosz_def ngx_atoof_def ngx_atotm_def ngx_atoi_def)

subsection \<open>Fixed point numbers\<close>

lemma atofp_scale_eq: "atofp_scale point (word_of_nat v) = word_of_nat (v * 10 ^ point)"
proof (induction point arbitrary: v)
  case (Suc point)
  have "atofp_scale (Suc point) (word_of_nat v) = atofp_scale point (word_of_nat (v * 10))"
    by simp
  then show ?case by (simp only: Suc.IH) (simp add: algebra_simps)
qed simp

lemma digit_not_dot: "is_digit c \<Longrightarrow> c \<noteq> c_dot"
  by (auto simp: is_digit_def)

lemma atofp_loop_digit:
  "is_digit c \<Longrightarrow> 0 < point \<Longrightarrow>
   atofp_loop (c # line) (Suc n) point dot (word_of_nat v) =
   atofp_loop line n (point - dot) dot (word_of_nat (v * 10 + (unat c - 48)))"
  by (simp add: not_digit_iff digit_not_dot digit_step del: word_of_nat_push)

lemma atofp_loop_int_part:
  "list_all is_digit a \<Longrightarrow> 0 < point \<Longrightarrow>
   atofp_loop (a @ r) (length a + m) point 0 (word_of_nat v) =
   atofp_loop r m point 0 (word_of_nat (dec_from v a))"
  by (induction a arbitrary: v) (simp_all add: atofp_loop_digit del: atofp_loop.simps word_of_nat_push)

lemma atofp_loop_frac_part:
  "list_all is_digit b \<Longrightarrow> length b \<le> point \<Longrightarrow>
   atofp_loop (b @ r) (length b) point (Suc 0) (word_of_nat v) =
   Some (signed_result (dec_from v b * 10 ^ (point - length b)))"
proof (induction b arbitrary: v point)
  case Nil
  then show ?case
    by (simp add: atofp_scale_eq signed_result_def sless_0_of_nat
        del: word_of_nat_push)
next
  case (Cons c b)
  then show ?case by (simp add: atofp_loop_digit del: atofp_loop.simps word_of_nat_push)
qed

text \<open>
  \<open>ngx_atofp\<close> reads a number \<open>a.b\<close> with at most \<open>point\<close> digits after the dot as the
  integer \<open>a.b * 10 ^ point\<close> (up to the wrap-around of the 64-bit accumulator).
\<close>

theorem ngx_atofp_fixed_point:
  assumes "list_all is_digit a" and "list_all is_digit b"
    and "0 < point" and "length b \<le> point"
  shows "ngx_atofp (a @ c_dot # b @ rest) (Suc (length a + length b)) point =
     Some (signed_result (dec_value (a @ b) * 10 ^ (point - length b)))"
proof -
  have "atofp_loop (a @ c_dot # b @ rest) (length a + Suc (length b)) point 0 (word_of_nat 0) =
      atofp_loop (c_dot # b @ rest) (Suc (length b)) point 0 (word_of_nat (dec_value a))"
    using assms by (intro atofp_loop_int_part) auto
  also have "\<dots> = atofp_loop (b @ rest) (length b) point (Suc 0) (word_of_nat (dec_value a))"
    using assms by simp
  finally show ?thesis
    using assms by (simp add: ngx_atofp_def atofp_loop_frac_part)
qed

theorem ngx_atofp_fixed_point_witness:
  "ngx_atofp (str ''10.5'') 4 2 = Some 1050"
proof -
  have n: "Suc (length (str ''10'') + length (str ''5'')) = 4" by simp
  show ?thesis
    using ngx_atofp_fixed_point [of "str ''10''" "str ''5''" 2 "[]"] unfolding n
    by (simp add: is_digit_def signed_result_def)
qed

section \<open>Hexadecimal numbers\<close>

text \<open>The value of a hexadecimal digit, the way the code tests it.\<close>

definition hex_digit :: "u_char \<Rightarrow> nat option" where
  "hex_digit ch =
     (if 48 \<le> unat ch \<and> unat ch \<le> 57 then Some (unat ch - 48)
      else if 65 \<le> unat ch \<and> unat ch \<le> 70 then Some (unat ch - 55)
      else if 97 \<le> unat ch \<and> unat ch \<le> 102 then Some (unat ch - 87)
      else None)"

definition is_xdigit :: "u_char \<Rightarrow> bool" where
  "is_xdigit ch \<longleftrightarrow> hex_digit ch \<noteq> None"

definition hex_from :: "nat \<Rightarrow> bytes \<Rightarrow> nat" where
  "hex_from v cs = foldl (\<lambda>v c. v * 16 + the (hex_digit c)) v cs"

lemma hex_from_Nil [simp]: "hex_from v [] = v"
  by (simp add: hex_from_def)

lemma hex_from_Cons [simp]: "hex_from v (c # cs) = hex_from (v * 16 + the (hex_digit c)) cs"
  by (simp add: hex_from_def)

text \<open>The range test on \<open>ch | 0x20\<close> accepts exactly the letters of either case.\<close>

lemma or_20_range:
  "c_a \<le> (ch OR 0x20 :: u_char) \<and> ch OR 0x20 \<le> c_f \<longleftrightarrow>
   (65 \<le> unat ch \<and> unat ch \<le> 70) \<or> (97 \<le> unat ch \<and> unat ch \<le> 102)"
proof -
  have "\<forall>q < 8. odd q \<longleftrightarrow> q \<in> {1, 3, 5, 7 :: nat}" by (simp add: all_less_8)
  moreover have "unat ch div 32 < 8" using unat_u_char_less [of ch] by linarith
  ultimately have "odd (unat ch div 32) \<longleftrightarrow> unat ch div 32 \<in> {1, 3, 5, 7}" by blast
  then show ?thesis
    by (simp add: word_nat_simps unat_or_20) linarith
qed

lemma unat_or_20_letter:
  "(65 \<le> unat ch \<and> unat ch \<le> 70) \<or> (97 \<le> unat ch \<and> unat ch \<le> 102) \<Longrightarrow>
   unat (ch OR 0x20 :: u_char) = (if unat ch \<le> 70 then unat ch + 32 else unat ch)"
proof -
  assume l: "(65 \<le> unat ch \<and> unat ch \<le> 70) \<or> (97 \<le> unat ch \<and> unat ch \<le> 102)"
  then have "unat ch div 32 = (if unat ch \<le> 70 then 2 else 3)" by (auto simp: div_nat_eqI)
  with l show ?thesis by (auto simp: unat_or_20)
qed

lemma hextoi_loop_Cons:
  "hextoi_loop (ch # line) (Suc n) (word_of_nat v) =
     (case hex_digit ch of None \<Rightarrow> Some NGX_ERROR
      | Some d \<Rightarrow> hextoi_loop line n (word_of_nat (v * 16 + d)))"
proof -
  have dig: "c_0 \<le> ch \<and> ch \<le> c_9 \<longleftrightarrow> 48 \<le> unat ch \<and> unat ch \<le> 57"
    by (simp add: word_nat_simps)
  have sub: "ucast c - word_of_nat k = (word_of_nat (unat c - k) :: 64 word)"
    if "k \<le> unat c" for c :: u_char and k
    using that by (simp add: of_nat_diff)
  have letter: "ucast (ch OR 0x20) - 97 + 10 = (word_of_nat (the (hex_digit ch)) :: 64 word)"
    if l: "(65 \<le> unat ch \<and> unat ch \<le> 70) \<or> (97 \<le> unat ch \<and> unat ch \<le> 102)"
  proof -
    have "97 \<le> unat (ch OR 0x20)" and
      h: "the (hex_digit ch) = unat (ch OR 0x20) - 97 + 10"
      using l unat_or_20_letter [OF l] by (auto simp: hex_digit_def)
    then have "ucast (ch OR 0x20) - 97 = (word_of_nat (unat (ch OR 0x20) - 97) :: 64 word)"
      using sub [of 97 "ch OR 0x20"] by simp
    then show ?thesis by (simp add: h)
  qed
  consider "48 \<le> unat ch \<and> unat ch \<le> 57"
    | "(65 \<le> unat ch \<and> unat ch \<le> 70) \<or> (97 \<le> unat ch \<and> unat ch \<le> 102)"
    | "hex_digit ch = None"
    unfolding hex_digit_def by metis
  then show ?thesis
  proof cases
    case 1
    then show ?thesis using sub [of 48 ch] by (simp add: dig hex_digit_def algebra_simps)
  next
    case 2
    then have "\<not> (48 \<le> unat ch \<and> unat ch \<le> 57)" and "hex_digit ch \<noteq> None"
      by (auto simp: hex_digit_def)
    then show ?thesis
      using 2 letter [OF 2] or_20_range [of ch] by (auto simp: Let_def dig)
  next
    case 3
    then show ?thesis
      using or_20_range [of ch] by (auto simp: Let_def dig hex_digit_def split: if_splits)
  qed
qed

declare hextoi_loop.simps(3) [simp del]

lemma hextoi_loop_eq:
  "n \<le> length line \<Longrightarrow>
   hextoi_loop line n (word_of_nat v) =
     Some (if list_all is_xdigit (take n line) then signed_result (hex_from v (take n line))
           else NGX_ERROR)"
proof (induction line arbitrary: n v)
  case (Cons c line)
  show ?case
  proof (cases n)
    case (Suc m)
    with Cons show ?thesis
      by (auto simp: hextoi_loop_Cons is_xdigit_def simp del: word_of_nat_push split: option.splits)
  qed (simp add: signed_result_def sless_0_of_nat)
qed (simp add: signed_result_def sless_0_of_nat)

text \<open>
  \<open>ngx_hextoi\<close> on \<open>n > 0\<close> readable bytes: the hexadecimal value (either case of the
  letters) modulo \<open>2 ^ 64\<close> with the sign test of \<open>ngx_atoi\<close>, \<open>NGX_ERROR\<close> if a byte is not a
  hexadecimal digit.
\<close>

theorem ngx_hextoi_spec:
  assumes "0 < n" and "n \<le> length line"
  shows "ngx_hextoi line n =
     Some (if list_all is_xdigit (take n line) then signed_result (hex_from 0 (take n line))
           else NGX_ERROR)"
  using assms hextoi_loop_eq [of n line 0] by (simp add: ngx_hextoi_def)

theorem ngx_hextoi_spec_witness:
  "ngx_hextoi (str ''1fA0;'') 4 = Some 0x1fa0 \<and> ngx_hextoi (str ''1g'') 2 = Some NGX_ERROR"
  using ngx_hextoi_spec [of 4 "str ''1fA0;''"] ngx_hextoi_spec [of 2 "str ''1g''"]
  by (simp add: is_xdigit_def hex_digit_def signed_result_def)

subsection \<open>Dumping bytes in hexadecimal\<close>

lemma hex_lower_table: "list_all (\<lambda>i. hex_digit (hex_lower ! i) = Some i) [0..<16]"
  by code_simp

lemma hex_digit_hex_lower: "i < 16 \<Longrightarrow> hex_digit (hex_lower ! i) = Some i"
  using hex_lower_table by (simp add: list_all_iff)

lemma unat_high_nibble: "unat (drop_bit 4 (c :: u_char)) = unat c div 16"
  by (simp add: drop_bit_eq_div unat_div)

lemma unat_low_nibble: "unat (c AND 0xf :: u_char) = unat c mod 16"
proof -
  have "c AND 0xf = take_bit 4 c" by (simp add: take_bit_eq_mask mask_numeral)
  then show ?thesis by (simp add: take_bit_eq_mod unat_mod)
qed

lemma high_nibble_less: "unat (c :: u_char) div 16 < 16"
  using unat_u_char_less [of c] by linarith

lemma hex_digit_high:
  "hex_digit (hex_lower ! unat (drop_bit 4 (c :: u_char))) = Some (unat c div 16)"
  by (simp only: unat_high_nibble hex_digit_hex_lower high_nibble_less)

lemma hex_digit_low:
  "hex_digit (hex_lower ! unat (c AND 0xf :: u_char)) = Some (unat c mod 16)"
  by (simp add: unat_low_nibble hex_digit_hex_lower)

lemma is_xdigit_nibbles:
  "is_xdigit (hex_lower ! unat (drop_bit 4 (c :: u_char)))"
  "is_xdigit (hex_lower ! unat (c AND 0xf :: u_char))"
  by (simp_all only: is_xdigit_def hex_digit_high hex_digit_low) simp_all

text \<open>The big-endian value of a byte string.\<close>

definition be_from :: "nat \<Rightarrow> bytes \<Rightarrow> nat" where
  "be_from v cs = foldl (\<lambda>v c. v * 256 + unat c) v cs"

lemma be_from_Cons [simp]: "be_from v (c # cs) = be_from (v * 256 + unat c) cs"
  by (simp add: be_from_def)

lemma be_from_Nil [simp]: "be_from v [] = v"
  by (simp add: be_from_def)

lemma hex_from_nibbles:
  "hex_from v (hex_lower ! unat (drop_bit 4 c) # hex_lower ! unat (c AND 0xf) # d) =
   hex_from (v * 256 + unat (c :: u_char)) d"
proof -
  have "(v * 16 + unat c div 16) * 16 + unat c mod 16 = v * 256 + unat c" by simp
  then show ?thesis by (simp only: hex_from_Cons hex_digit_high hex_digit_low option.sel)
qed

lemma hex_dump_facts:
  "n \<le> length src \<Longrightarrow> \<exists>d. ngx_hex_dump src n = Some d \<and> length d = 2 * n \<and>
     list_all is_xdigit d \<and> hex_from v d = be_from v (take n src)"
proof (induction src n arbitrary: v rule: ngx_hex_dump.induct)
  case (3 c src len)
  then obtain d where "ngx_hex_dump src len = Some d" "length d = 2 * len" "list_all is_xdigit d"
    "hex_from (v * 256 + unat c) d = be_from (v * 256 + unat c) (take len src)"
    by (metis Suc_le_mono length_Cons)
  then show ?case
    by (simp add: is_xdigit_nibbles hex_from_nibbles del: hex_from_Cons)
qed simp_all

lemma be_from_less: "be_from 0 cs < 256 ^ length cs"
proof (induction cs rule: rev_induct)
  case (snoc c cs)
  have "be_from 0 (cs @ [c]) = be_from 0 cs * 256 + unat c" by (simp add: be_from_def)
  also have "\<dots> < be_from 0 cs * 256 + 256" by (simp add: unat_u_char_less)
  also have "\<dots> \<le> 256 ^ length (cs @ [c])" using snoc by simp
  finally show ?case .
qed simp

text \<open>
  Dumping up to seven bytes in hexadecimal and reading the text back gives their
  big-endian value.
\<close>

theorem ngx_hex_dump_hextoi:
  assumes "0 < n" and "n \<le> length src" and "n < 8"
  shows "\<exists>d. ngx_hex_dump src n = Some d \<and> length d = 2 * n \<and>
     ngx_hextoi d (2 * n) = Some (word_of_nat (be_from 0 (take n src)))"
proof -
  from hex_dump_facts [OF assms(2), of 0] obtain d where
    d: "ngx_hex_dump src n = Some d" "length d = 2 * n" "list_all is_xdigit d"
      "hex_from 0 d = be_from 0 (take n src)" by blast
  have "be_from 0 (take n src) < 256 ^ length (take n src)" by (rule be_from_less)
  also have "\<dots> \<le> (256 :: nat) ^ 7" using assms by (intro power_increasing) auto
  also have "\<dots> < 2 ^ 63" by simp
  finally have "signed_result (be_from 0 (take n src)) = word_of_nat (be_from 0 (take n src))"
    by (rule signed_result_small)
  with d assms show ?thesis by (simp add: ngx_hextoi_def hextoi_loop_eq [of _ _ 0, simplified])
qed

theorem ngx_hex_dump_hextoi_witness:
  "\<exists>d. ngx_hex_dump [0xde, 0xad] 2 = Some d \<and> length d = 2 * 2 \<and>
     ngx_hextoi d (2 * 2) = Some 0xdead"
  using ngx_hex_dump_hextoi [of 2 "[0xde, 0xad]"] by (simp add: be_from_def)

section \<open>Printing numbers\<close>

text \<open>The decimal notation of a number, most significant digit first.\<close>

fun decimal :: "nat \<Rightarrow> bytes" where
  "decimal n = (if n < 10 then [word_of_nat (n + 48)]
                else decimal (n div 10) @ [word_of_nat (n mod 10 + 48)])"

declare decimal.simps [simp del]

lemma unat_digit_char: "d < 10 \<Longrightarrow> unat (word_of_nat (d + 48) :: u_char) = d + 48"
  by (simp add: unsigned_of_nat take_bit_nat_eq_self del: word_of_nat_push)

lemma is_digit_char: "d < 10 \<Longrightarrow> is_digit (word_of_nat (d + 48))"
  by (simp only: is_digit_def word_nat_simps unat_digit_char) simp

lemma decimal_digits: "list_all is_digit (decimal n)"
proof (induction n rule: decimal.induct)
  case (1 n)
  then show ?case
    by (subst decimal.simps) (simp add: is_digit_char del: word_of_nat_push)
qed

lemma dec_value_decimal: "dec_value (decimal n) = n"
proof (induction n rule: decimal.induct)
  case (1 n)
  then show ?case
    by (subst decimal.simps) (simp add: unat_digit_char del: word_of_nat_push)
qed

lemma length_decimal: "n < 10 ^ Suc k \<Longrightarrow> length (decimal n) \<le> Suc k"
proof (induction k arbitrary: n)
  case 0
  then show ?case by (subst decimal.simps) simp
next
  case (Suc k)
  then have "n div 10 < 10 ^ Suc k" by simp
  then show ?case using Suc.IH [of "n div 10"] by (subst decimal.simps) simp
qed

lemma sprintf_dec64_eq: "sprintf_dec64 u acc = decimal (unat u) @ acc"
proof (induction u acc rule: sprintf_dec64.induct)
  case (1 u acc)
  have c: "ucast (u mod 10 + 48) = (word_of_nat (unat u mod 10 + 48) :: u_char)"
    by (simp add: word_unat_eq_iff unat_word_ariths unat_mod unsigned_of_nat
        unsigned_ucast_eq take_bit_eq_mod)
  have z: "u div 10 = 0 \<longleftrightarrow> unat u < 10"
    by (simp add: unat_div div_eq_0_iff flip: unat_eq_0)
  show ?case
    using 1 by (subst sprintf_dec64.simps, subst decimal.simps)
      (simp add: Let_def c z unat_div del: word_of_nat_push)
qed

lemma sprintf_dec32_eq: "sprintf_dec32 u acc = decimal (unat u) @ acc"
proof (induction u acc rule: sprintf_dec32.induct)
  case (1 u acc)
  have c: "ucast (u mod 10 + 48) = (word_of_nat (unat u mod 10 + 48) :: u_char)"
    by (simp add: word_unat_eq_iff unat_word_ariths unat_mod unsigned_of_nat
        unsigned_ucast_eq take_bit_eq_mod)
  have z: "u div 10 = 0 \<longleftrightarrow> unat u < 10"
    by (simp add: unat_div div_eq_0_iff flip: unat_eq_0)
  show ?case
    using 1 by (subst sprintf_dec32.simps, subst decimal.simps)
      (simp add: Let_def c z unat_div del: word_of_nat_push)
qed

lemma sprintf_digits_decimal: "sprintf_digits u 0 = decimal (unat u)"
proof (cases "u \<le> 0xffffffff")
  case True
  then have "unat (ucast u :: uint32_t) = unat u"
    by (simp add: unsigned_ucast_eq take_bit_nat_eq_self_iff word_nat_simps)
  with True show ?thesis by (simp add: sprintf_digits_def sprintf_dec32_eq)
qed (simp add: sprintf_digits_def sprintf_dec64_eq)

lemma length_sprintf_hex:
  "unat u < 16 ^ Suc k \<Longrightarrow> length (sprintf_hex hex u acc) \<le> Suc k + length acc"
proof (induction k arbitrary: u acc)
  case 0
  then have "drop_bit 4 u = 0"
    by (simp add: drop_bit_eq_div unat_div div_eq_0_iff flip: unat_eq_0)
  then show ?case by (subst sprintf_hex.simps) simp
next
  case (Suc k)
  then have "unat (drop_bit 4 u) < 16 ^ Suc k" by (simp add: drop_bit_eq_div unat_div)
  from Suc.IH [OF this, of "hex ! unat (u AND 0xf) # acc"] show ?case
    by (subst sprintf_hex.simps) (simp add: Let_def)
qed

lemma sprintf_pad_eq: "sprintf_pad zero len width room = replicate (min (width - len) room) zero"
  by (induction zero len width room rule: sprintf_pad.induct)
    (auto simp: Suc_diff_Suc min_def not_less simp flip: replicate_Suc)

lemma length_sprintf_digits: "length (sprintf_digits u hexadecimal) \<le> 20"
proof -
  have "(16 :: nat) ^ Suc 15 = 2 ^ 64" by simp
  then have "unat u < 16 ^ Suc 15" using unat_64_less [of u] by metis
  then have h: "length (sprintf_hex hex u []) \<le> 20" for hex
    using length_sprintf_hex [of u 15 hex "[]"] by simp
  have "(2 :: nat) ^ 64 < 10 ^ Suc 19" by simp
  then have "unat u < 10 ^ Suc 19" using unat_64_less [of u] by (rule less_trans [rotated])
  then have d: "length (decimal (unat u)) \<le> 20" using length_decimal [of "unat u" 19] by simp
  show ?thesis
    using h d sprintf_digits_decimal [of u]
    by (cases "hexadecimal = 0") (simp_all add: sprintf_digits_def)
qed

text \<open>
  \<open>ngx_sprintf_num\<close> stays inside both of its buffers: it produces at most
  \<open>NGX_INT64_LEN = 20\<close> characters in \<open>temp\<close>, and it writes at most \<open>room = last - buf\<close>
  bytes at \<open>buf\<close>, for every value, base and width.
\<close>

theorem ngx_sprintf_num_bounds:
  "length (sprintf_digits u hexadecimal) \<le> 20 \<and>
   length (ngx_sprintf_num room u zero hexadecimal width) \<le> room"
  by (auto simp: length_sprintf_digits ngx_sprintf_num_def Let_def sprintf_pad_eq)

lemma ngx_sprintf_num_fits:
  assumes "max width (length (sprintf_digits u h)) \<le> room"
  shows "ngx_sprintf_num room u zero h width =
     replicate (width - length (sprintf_digits u h)) zero @ sprintf_digits u h"
  using assms by (auto simp: ngx_sprintf_num_def Let_def sprintf_pad_eq min_def)

lemma dec_value_zeros: "dec_value (replicate k c_0 @ cs) = dec_value cs"
  by (induction k) simp_all

text \<open>
  C14. A number below \<open>2 ^ 63\<close> printed by \<open>ngx_sprintf_num\<close> in decimal, zero padded to any
  width that fits the buffer, is read back by \<open>ngx_atoi\<close>.
\<close>

theorem ngx_sprintf_num_atoi:
  assumes "unat u < 2 ^ 63" and "20 \<le> room" and "width \<le> room"
  shows "ngx_atoi (ngx_sprintf_num room u c_0 0 width @ rest)
           (length (ngx_sprintf_num room u c_0 0 width)) = Some u"
proof -
  let ?t = "ngx_sprintf_num room u c_0 0 width"
  have "length (sprintf_digits u 0) \<le> 20" by (rule length_sprintf_digits)
  then have t: "?t = replicate (width - length (decimal (unat u))) c_0 @ decimal (unat u)"
    using assms ngx_sprintf_num_fits [of width u 0 room] by (simp add: sprintf_digits_decimal)
  have "?t \<noteq> []" unfolding t by (subst (2) decimal.simps) simp
  moreover have "list_all is_digit ?t"
    unfolding t using decimal_digits [of "unat u"] is_digit_char [of 0]
    by (auto simp: list_all_iff)
  moreover have "dec_value ?t = unat u"
    unfolding t by (simp only: dec_value_zeros dec_value_decimal)
  ultimately show ?thesis
    using assms by (simp add: ngx_atoi_def atoi_loop_eq signed_result_small)
qed

theorem ngx_sprintf_num_atoi_witness:
  "ngx_atoi (ngx_sprintf_num 24 8080 c_0 0 6 @ [c_space])
     (length (ngx_sprintf_num 24 8080 c_0 0 6)) = Some 8080"
  using ngx_sprintf_num_atoi [of 8080 24 6 "[c_space]"] by simp

end
