(* ===== verification/Ngx_String_Search.thy ===== *)
theory Ngx_String_Search
  imports Ngx_Prelude
begin

text \<open>
  Copying, comparing and searching in \<open>src/src/core/ngx_string.c\<close>. A pointer is a memory and an
  index into it; a read past the end of the memory makes the result \<open>None\<close>. Pointers that a
  function returns are indices, with \<open>NULL\<close> as the inner \<open>None\<close>.
\<close>

section \<open>Model\<close>

subsection \<open>Copying\<close>

fun ngx_strlow :: "bytes \<Rightarrow> nat \<Rightarrow> nat \<Rightarrow> bytes option" where
  "ngx_strlow m src 0 = Some []"
| "ngx_strlow m src (Suc n) = do {
     c \<leftarrow> rd m src;
     dst \<leftarrow> ngx_strlow m (src + 1) n;
     Some (ngx_tolower c # dst) }"

text \<open>The bytes written behind \<open>dst\<close>, the terminating zero included.\<close>

fun cpystrn_loop :: "bytes \<Rightarrow> nat \<Rightarrow> nat \<Rightarrow> bytes option" where
  "cpystrn_loop m src 0 = Some [0]"
| "cpystrn_loop m src (Suc n) = do {
     c \<leftarrow> rd m src;
     if c = 0 then Some [0]
     else do { dst \<leftarrow> cpystrn_loop m (src + 1) n; Some (c # dst) } }"

definition ngx_cpystrn :: "bytes \<Rightarrow> nat \<Rightarrow> nat \<Rightarrow> bytes option" where
  "ngx_cpystrn m src n = (if n = 0 then Some [] else cpystrn_loop m src (n - 1))"

subsection \<open>Comparing\<close>

text \<open>\<open>c = (c >= 'A' && c <= 'Z') ? (c | 0x20) : c\<close>, with the character in an \<open>ngx_uint_t\<close>\<close>

definition lower64 :: "u_char \<Rightarrow> ngx_uint_t" where
  "lower64 c =
     (let c = (ucast c :: ngx_uint_t) in if 65 \<le> c \<and> c \<le> 90 then c OR 0x20 else c)"

function ngx_strcasecmp :: "bytes \<Rightarrow> nat \<Rightarrow> bytes \<Rightarrow> nat \<Rightarrow> ngx_int_t option" where
  "ngx_strcasecmp m1 s1 m2 s2 =
     (case (rd m1 s1, rd m2 s2) of
        (Some a, Some b) \<Rightarrow>
          (let c1 = lower64 a; c2 = lower64 b in
           if c1 = c2 then (if c1 \<noteq> 0 then ngx_strcasecmp m1 (s1 + 1) m2 (s2 + 1) else Some 0)
           else Some (c1 - c2))
      | _ \<Rightarrow> None)"
  by pat_completeness auto

termination
  by (relation "measure (\<lambda>(m1, s1, m2, s2). length m1 - s1)")
    (auto simp: rd_eq_Some_iff eq_commute [of "Some _" "rd _ _"])

declare ngx_strcasecmp.simps [simp del]

fun ngx_strncasecmp :: "bytes \<Rightarrow> nat \<Rightarrow> bytes \<Rightarrow> nat \<Rightarrow> nat \<Rightarrow> ngx_int_t option" where
  "ngx_strncasecmp m1 s1 m2 s2 0 = Some 0"
| "ngx_strncasecmp m1 s1 m2 s2 (Suc n) =
     (case (rd m1 s1, rd m2 s2) of
        (Some a, Some b) \<Rightarrow>
          (let c1 = lower64 a; c2 = lower64 b in
           if c1 = c2 then (if c1 \<noteq> 0 then ngx_strncasecmp m1 (s1 + 1) m2 (s2 + 1) n else Some 0)
           else Some (c1 - c2))
      | _ \<Rightarrow> None)"

text \<open>The loop of \<open>ngx_rstrncmp\<close> from index \<open>n\<close> down to zero.\<close>

fun rstrncmp_loop :: "bytes \<Rightarrow> nat \<Rightarrow> bytes \<Rightarrow> nat \<Rightarrow> nat \<Rightarrow> ngx_int_t option" where
  "rstrncmp_loop m1 s1 m2 s2 n = do {
     a \<leftarrow> rd m1 (s1 + n);
     b \<leftarrow> rd m2 (s2 + n);
     if a \<noteq> b then Some (ucast a - ucast b)
     else (case n of 0 \<Rightarrow> Some 0 | Suc k \<Rightarrow> rstrncmp_loop m1 s1 m2 s2 k) }"

declare rstrncmp_loop.simps [simp del]

definition ngx_rstrncmp :: "bytes \<Rightarrow> nat \<Rightarrow> bytes \<Rightarrow> nat \<Rightarrow> nat \<Rightarrow> ngx_int_t option" where
  "ngx_rstrncmp m1 s1 m2 s2 n = (if n = 0 then Some 0 else rstrncmp_loop m1 s1 m2 s2 (n - 1))"

definition upper8 :: "u_char \<Rightarrow> u_char" where
  "upper8 c = (if c_a \<le> c \<and> c \<le> c_z then c - (c_a - c_A) else c)"

fun rstrncasecmp_loop :: "bytes \<Rightarrow> nat \<Rightarrow> bytes \<Rightarrow> nat \<Rightarrow> nat \<Rightarrow> ngx_int_t option" where
  "rstrncasecmp_loop m1 s1 m2 s2 n = do {
     a \<leftarrow> rd m1 (s1 + n);
     b \<leftarrow> rd m2 (s2 + n);
     if upper8 a \<noteq> upper8 b then Some (ucast (upper8 a) - ucast (upper8 b))
     else (case n of 0 \<Rightarrow> Some 0 | Suc k \<Rightarrow> rstrncasecmp_loop m1 s1 m2 s2 k) }"

declare rstrncasecmp_loop.simps [simp del]

definition ngx_rstrncasecmp :: "bytes \<Rightarrow> nat \<Rightarrow> bytes \<Rightarrow> nat \<Rightarrow> nat \<Rightarrow> ngx_int_t option" where
  "ngx_rstrncasecmp m1 s1 m2 s2 n =
     (if n = 0 then Some 0 else rstrncasecmp_loop m1 s1 m2 s2 (n - 1))"

text \<open>\<open>ngx_memcmp\<close>: the difference of the first bytes that differ.\<close>

fun ngx_memcmp :: "bytes \<Rightarrow> nat \<Rightarrow> bytes \<Rightarrow> nat \<Rightarrow> nat \<Rightarrow> ngx_int_t option" where
  "ngx_memcmp m1 s1 m2 s2 0 = Some 0"
| "ngx_memcmp m1 s1 m2 s2 (Suc n) = do {
     a \<leftarrow> rd m1 s1;
     b \<leftarrow> rd m2 s2;
     if a = b then ngx_memcmp m1 (s1 + 1) m2 (s2 + 1) n else Some (ucast a - ucast b) }"

definition ngx_memn2cmp :: "bytes \<Rightarrow> nat \<Rightarrow> bytes \<Rightarrow> nat \<Rightarrow> nat \<Rightarrow> nat \<Rightarrow> ngx_int_t option" where
  "ngx_memn2cmp m1 s1 m2 s2 n1 n2 =
     (let (n, z) = (if n1 \<le> n2 then (n1, - 1) else (n2, 1)) in do {
        m \<leftarrow> ngx_memcmp m1 s1 m2 s2 n;
        if m \<noteq> 0 \<or> n1 = n2 then Some m else Some z })"

text \<open>In \<open>ngx_dns_strcmp\<close> the dot is the lowest character.\<close>

definition dns_rank :: "ngx_uint_t \<Rightarrow> ngx_uint_t" where
  "dns_rank c = (if c = 46 then 32 else c)"

function ngx_dns_strcmp :: "bytes \<Rightarrow> nat \<Rightarrow> bytes \<Rightarrow> nat \<Rightarrow> ngx_int_t option" where
  "ngx_dns_strcmp m1 s1 m2 s2 =
     (case (rd m1 s1, rd m2 s2) of
        (Some a, Some b) \<Rightarrow>
          (let c1 = lower64 a; c2 = lower64 b in
           if c1 = c2 then (if c1 \<noteq> 0 then ngx_dns_strcmp m1 (s1 + 1) m2 (s2 + 1) else Some 0)
           else Some (dns_rank c1 - dns_rank c2))
      | _ \<Rightarrow> None)"
  by pat_completeness auto

termination
  by (relation "measure (\<lambda>(m1, s1, m2, s2). length m1 - s1)")
    (auto simp: rd_eq_Some_iff eq_commute [of "Some _" "rd _ _"])

declare ngx_dns_strcmp.simps [simp del]

subsection \<open>Searching\<close>

text \<open>\<open>ngx_strlchr\<close> of \<open>ngx_string.h\<close>\<close>

function ngx_strlchr :: "bytes \<Rightarrow> nat \<Rightarrow> nat \<Rightarrow> u_char \<Rightarrow> nat option option" where
  "ngx_strlchr m p p_last c =
     (if p < p_last then do {
        x \<leftarrow> rd m p;
        if x = c then Some (Some p) else ngx_strlchr m (p + 1) p_last c }
      else Some None)"
  by pat_completeness auto

termination
  by (relation "measure (\<lambda>(m, p, p_last, c). p_last - p)") auto

declare ngx_strlchr.simps [simp del]

text \<open>
  \<open>ngx_strlcasestrn\<close> looks for the \<open>n + 1\<close> bytes at \<open>s2\<close> between \<open>s1\<close> and \<open>last\<close>. The loops are one
  recursion: \<open>stop\<close> is \<open>last - n\<close>, and the recursion goes on with the next \<open>s1\<close> when the first
  character or the rest does not match.
\<close>

function strlcasestrn_loop :: "bytes \<Rightarrow> nat \<Rightarrow> int \<Rightarrow> ngx_uint_t \<Rightarrow> bytes \<Rightarrow> nat \<Rightarrow> nat \<Rightarrow> nat option option" where
  "strlcasestrn_loop m s1 stop c2 m2 s2 n =
     (if stop \<le> int s1 then Some None
      else do {
        a \<leftarrow> rd m s1;
        if lower64 a \<noteq> c2 then strlcasestrn_loop m (s1 + 1) stop c2 m2 s2 n
        else do {
          r \<leftarrow> ngx_strncasecmp m (s1 + 1) m2 s2 n;
          if r \<noteq> 0 then strlcasestrn_loop m (s1 + 1) stop c2 m2 s2 n else Some (Some s1) } })"
  by pat_completeness auto

termination
  by (relation "measure (\<lambda>(m, s1, stop, c2, m2, s2, n). nat (stop - int s1))") auto

declare strlcasestrn_loop.simps [simp del]

definition ngx_strlcasestrn :: "bytes \<Rightarrow> nat \<Rightarrow> nat \<Rightarrow> bytes \<Rightarrow> nat \<Rightarrow> nat \<Rightarrow> nat option option" where
  "ngx_strlcasestrn m s1 p_last m2 s2 n = do {
     b \<leftarrow> rd m2 s2;
     strlcasestrn_loop m s1 (int p_last - int n) (lower64 b) m2 (s2 + 1) n }"

text \<open>
  \<open>ngx_strstrn\<close> and \<open>ngx_strcasestrn\<close>: the same search up to a terminating zero; \<open>ngx_strncmp\<close>
  compares up to a zero as well.
\<close>

fun ngx_strncmp :: "bytes \<Rightarrow> nat \<Rightarrow> bytes \<Rightarrow> nat \<Rightarrow> nat \<Rightarrow> ngx_int_t option" where
  "ngx_strncmp m1 s1 m2 s2 0 = Some 0"
| "ngx_strncmp m1 s1 m2 s2 (Suc n) = do {
     a \<leftarrow> rd m1 s1;
     b \<leftarrow> rd m2 s2;
     if a \<noteq> b then Some (ucast a - ucast b)
     else if a = 0 then Some 0
     else ngx_strncmp m1 (s1 + 1) m2 (s2 + 1) n }"

function strstrn_loop :: "bytes \<Rightarrow> nat \<Rightarrow> u_char \<Rightarrow> bytes \<Rightarrow> nat \<Rightarrow> nat \<Rightarrow> nat option option" where
  "strstrn_loop m s1 c2 m2 s2 n =
     (case rd m s1 of
        None \<Rightarrow> None
      | Some c1 \<Rightarrow>
          if c1 = 0 then Some None
          else if c1 \<noteq> c2 then strstrn_loop m (s1 + 1) c2 m2 s2 n
          else do {
            r \<leftarrow> ngx_strncmp m (s1 + 1) m2 s2 n;
            if r \<noteq> 0 then strstrn_loop m (s1 + 1) c2 m2 s2 n else Some (Some s1) })"
  by pat_completeness auto

termination
  by (relation "measure (\<lambda>(m, s1, c2, m2, s2, n). length m - s1)") (auto simp: rd_eq_Some_iff)

declare strstrn_loop.simps [simp del]

definition ngx_strstrn :: "bytes \<Rightarrow> nat \<Rightarrow> bytes \<Rightarrow> nat \<Rightarrow> nat \<Rightarrow> nat option option" where
  "ngx_strstrn m s1 m2 s2 n = do { c2 \<leftarrow> rd m2 s2; strstrn_loop m s1 c2 m2 (s2 + 1) n }"

function strcasestrn_loop :: "bytes \<Rightarrow> nat \<Rightarrow> ngx_uint_t \<Rightarrow> bytes \<Rightarrow> nat \<Rightarrow> nat \<Rightarrow> nat option option" where
  "strcasestrn_loop m s1 c2 m2 s2 n =
     (case rd m s1 of
        None \<Rightarrow> None
      | Some a \<Rightarrow>
          if a = 0 then Some None
          else if lower64 a \<noteq> c2 then strcasestrn_loop m (s1 + 1) c2 m2 s2 n
          else do {
            r \<leftarrow> ngx_strncasecmp m (s1 + 1) m2 s2 n;
            if r \<noteq> 0 then strcasestrn_loop m (s1 + 1) c2 m2 s2 n else Some (Some s1) })"
  by pat_completeness auto

termination
  by (relation "measure (\<lambda>(m, s1, c2, m2, s2, n). length m - s1)") (auto simp: rd_eq_Some_iff)

declare strcasestrn_loop.simps [simp del]

text \<open>Here \<open>s2\<close> is a \<open>char *\<close>, so its first byte is sign-extended to \<open>ngx_uint_t\<close>.\<close>

definition ngx_strcasestrn :: "bytes \<Rightarrow> nat \<Rightarrow> bytes \<Rightarrow> nat \<Rightarrow> nat \<Rightarrow> nat option option" where
  "ngx_strcasestrn m s1 m2 s2 n = do {
     b \<leftarrow> rd m2 s2;
     let c2 = (scast b :: ngx_uint_t);
     let c2 = (if 65 \<le> c2 \<and> c2 \<le> 90 then c2 OR 32 else c2);
     strcasestrn_loop m s1 c2 m2 (s2 + 1) n }"

text \<open>\<open>ngx_strnstr\<close>: \<open>s2\<close> is a C string, \<open>n\<close> the length of its rest.\<close>

function strnstr_loop :: "bytes \<Rightarrow> nat \<Rightarrow> nat \<Rightarrow> u_char \<Rightarrow> bytes \<Rightarrow> nat \<Rightarrow> nat \<Rightarrow> nat option option" where
  "strnstr_loop m s1 len c2 m2 s2 n =
     (if len = 0 then Some None
      else do {
        c1 \<leftarrow> rd m s1;
        if c1 = 0 then Some None
        else if c1 \<noteq> c2 then strnstr_loop m (s1 + 1) (len - 1) c2 m2 s2 n
        else if n > len - 1 then Some None
        else do {
          r \<leftarrow> ngx_strncmp m (s1 + 1) m2 s2 n;
          if r \<noteq> 0 then strnstr_loop m (s1 + 1) (len - 1) c2 m2 s2 n else Some (Some s1) } })"
  by pat_completeness auto

termination
  by (relation "measure (\<lambda>(m, s1, len, c2, m2, s2, n). len)") auto

declare strnstr_loop.simps [simp del]

text \<open>\<open>ngx_strlen\<close>: the index of the first zero.\<close>

function ngx_strlen :: "bytes \<Rightarrow> nat \<Rightarrow> nat option" where
  "ngx_strlen m s =
     (case rd m s of
        None \<Rightarrow> None
      | Some c \<Rightarrow> if c = 0 then Some 0 else map_option Suc (ngx_strlen m (s + 1)))"
  by pat_completeness auto

termination
  by (relation "measure (\<lambda>(m, s). length m - s)") (auto simp: rd_eq_Some_iff)

declare ngx_strlen.simps [simp del]

definition ngx_strnstr :: "bytes \<Rightarrow> nat \<Rightarrow> bytes \<Rightarrow> nat \<Rightarrow> nat \<Rightarrow> nat option option" where
  "ngx_strnstr m s1 m2 s2 len = do {
     c2 \<leftarrow> rd m2 s2;
     n \<leftarrow> ngx_strlen m2 (s2 + 1);
     strnstr_loop m s1 len c2 m2 (s2 + 1) n }"

section \<open>Case-insensitive comparison\<close>

lemma lower64_tolower: "lower64 c = ucast (ngx_tolower c)"
proof -
  have "(65 \<le> (ucast c :: ngx_uint_t) \<and> (ucast c :: ngx_uint_t) \<le> 90) \<longleftrightarrow> (c_A \<le> c \<and> c \<le> c_Z)"
    by (simp add: word_le_nat_alt)
  then show ?thesis by (simp add: lower64_def ngx_tolower_def Let_def unsigned_or_eq)
qed

lemma lower64_eq_iff [simp]: "lower64 a = lower64 b \<longleftrightarrow> ngx_tolower a = ngx_tolower b"
  by (metis lower64_tolower ucast_u_char_64 word_unat_eq_iff)

lemma lower64_eq_0_iff [simp]: "lower64 a = 0 \<longleftrightarrow> a = 0"
proof -
  have "lower64 a = 0 \<longleftrightarrow> unat (ngx_tolower a) = 0"
    using ucast_u_char_64 [of "ngx_tolower a"] unat_eq_0 [of "ucast (ngx_tolower a) :: ngx_uint_t"]
    by (simp add: lower64_tolower)
  then show ?thesis by (simp add: unat_eq_0)
qed

lemma lower64_diff [simp]: "lower64 a - lower64 b = 0 \<longleftrightarrow> ngx_tolower a = ngx_tolower b"
  by simp

text \<open>The \<open>n\<close> bytes at \<open>s1\<close> and \<open>s2\<close> are equal up to their case.\<close>

definition same_nocase :: "bytes \<Rightarrow> nat \<Rightarrow> bytes \<Rightarrow> nat \<Rightarrow> nat \<Rightarrow> bool" where
  "same_nocase m1 s1 m2 s2 n \<longleftrightarrow> (\<forall>i < n. ngx_tolower (m1 ! (s1 + i)) = ngx_tolower (m2 ! (s2 + i)))"

lemma same_nocase_Suc:
  "same_nocase m1 s1 m2 s2 (Suc n) \<longleftrightarrow>
     ngx_tolower (m1 ! s1) = ngx_tolower (m2 ! s2) \<and> same_nocase m1 (s1 + 1) m2 (s2 + 1) n"
  unfolding same_nocase_def by (auto simp: All_less_Suc2)

lemma strncasecmp_spec:
  "\<lbrakk>s1 + n \<le> length m1; s2 + n \<le> length m2; \<forall>i < n. m2 ! (s2 + i) \<noteq> 0\<rbrakk> \<Longrightarrow>
   \<exists>r. ngx_strncasecmp m1 s1 m2 s2 n = Some r \<and> (r = 0 \<longleftrightarrow> same_nocase m1 s1 m2 s2 n)"
proof (induction n arbitrary: s1 s2)
  case 0
  then show ?case by (simp add: same_nocase_def)
next
  case (Suc n)
  have nz: "m2 ! s2 \<noteq> 0" "\<forall>i < n. m2 ! (s2 + 1 + i) \<noteq> 0"
    using Suc.prems(3) by (auto simp: All_less_Suc2)
  show ?case
  proof (cases "ngx_tolower (m1 ! s1) = ngx_tolower (m2 ! s2)")
    case True
    then have "m1 ! s1 \<noteq> 0" using nz(1) by (metis ngx_tolower_eq_0_iff)
    then show ?thesis
      using True Suc.prems(1,2) Suc.IH [OF _ _ nz(2), of "s1 + 1"] by (simp add: same_nocase_Suc)
  next
    case False
    then show ?thesis using Suc.prems by (simp add: same_nocase_Suc)
  qed
qed

section \<open>Case-insensitive search\<close>

definition found_at :: "bytes \<Rightarrow> u_char \<Rightarrow> bytes \<Rightarrow> nat \<Rightarrow> nat \<Rightarrow> nat \<Rightarrow> bool" where
  "found_at m b m2 s2 n i \<longleftrightarrow> ngx_tolower (m ! i) = ngx_tolower b \<and> same_nocase m (i + 1) m2 s2 n"

text \<open>\<open>r\<close> is the first place from \<open>s1\<close> on, in front of \<open>stop\<close>, with the property \<open>P\<close>.\<close>

definition first_at :: "(nat \<Rightarrow> bool) \<Rightarrow> nat \<Rightarrow> int \<Rightarrow> nat option \<Rightarrow> bool" where
  "first_at P s1 stop r \<longleftrightarrow>
     (case r of
        None \<Rightarrow> (\<forall>i. s1 \<le> i \<and> int i < stop \<longrightarrow> \<not> P i)
      | Some i \<Rightarrow> s1 \<le> i \<and> int i < stop \<and> P i \<and> (\<forall>j. s1 \<le> j \<and> j < i \<longrightarrow> \<not> P j))"

lemma first_at_here: "int s1 < stop \<Longrightarrow> P s1 \<Longrightarrow> first_at P s1 stop (Some s1)"
  by (auto simp: first_at_def)

lemma first_at_next: "\<not> P s1 \<Longrightarrow> first_at P (s1 + 1) stop r \<Longrightarrow> first_at P s1 stop r"
  unfolding first_at_def
  by (auto split: option.splits simp: Suc_le_eq) (metis le_neq_implies_less)+

lemma strlcasestrn_loop_spec:
  assumes "stop \<le> int (length m) - int n" "s2 + n \<le> length m2" "\<forall>i < n. m2 ! (s2 + i) \<noteq> 0"
  shows "\<exists>r. strlcasestrn_loop m s1 stop (lower64 b) m2 s2 n = Some r \<and>
    first_at (found_at m b m2 s2 n) s1 stop r"
proof (induction "nat (stop - int s1)" arbitrary: s1)
  case 0
  then show ?case by (subst strlcasestrn_loop.simps) (auto simp: first_at_def)
next
  case (Suc k)
  then have stop: "\<not> stop \<le> int s1" and s1: "s1 < length m" "s1 + 1 + n \<le> length m"
    using assms(1) by auto
  obtain c where c: "ngx_strncasecmp m (s1 + 1) m2 s2 n = Some c"
    "c = 0 \<longleftrightarrow> same_nocase m (s1 + 1) m2 s2 n"
    using strncasecmp_spec [OF s1(2) assms(2,3)] by blast
  have "k = nat (stop - int (s1 + 1))" using Suc.hyps(2) by simp
  from Suc.hyps(1) [OF this] obtain r where
    r: "strlcasestrn_loop m (s1 + 1) stop (lower64 b) m2 s2 n = Some r"
      "first_at (found_at m b m2 s2 n) (s1 + 1) stop r" by blast
  show ?case
  proof (cases "found_at m b m2 s2 n s1")
    case True
    then have "strlcasestrn_loop m s1 stop (lower64 b) m2 s2 n = Some (Some s1)"
      using stop s1 c by (subst strlcasestrn_loop.simps) (simp add: found_at_def)
    with True stop show ?thesis by (simp add: first_at_here)
  next
    case False
    then have "strlcasestrn_loop m s1 stop (lower64 b) m2 s2 n = Some r"
      using stop s1 c r(1) by (subst strlcasestrn_loop.simps) (auto simp: found_at_def)
    with first_at_next [OF False r(2)] show ?thesis by blast
  qed
qed

lemma strlcasestrn_spec:
  assumes "p_last \<le> length m" "s2 + n < length m2" "\<forall>i \<le> n. m2 ! (s2 + i) \<noteq> 0"
  shows "\<exists>r. ngx_strlcasestrn m s1 p_last m2 s2 n = Some r \<and>
    (case r of
       None \<Rightarrow> (\<forall>i. s1 \<le> i \<and> i + n < p_last \<longrightarrow> \<not> same_nocase m i m2 s2 (Suc n))
     | Some i \<Rightarrow> s1 \<le> i \<and> i + n < p_last \<and> same_nocase m i m2 s2 (Suc n) \<and>
         (\<forall>j. s1 \<le> j \<and> j < i \<longrightarrow> \<not> same_nocase m j m2 s2 (Suc n)))"
proof -
  have "m2 ! (s2 + 1 + i) \<noteq> 0" if "i < n" for i using assms(3) [rule_format, of "Suc i"] that by simp
  then obtain r where r:
    "strlcasestrn_loop m s1 (int p_last - int n) (lower64 (m2 ! s2)) m2 (s2 + 1) n = Some r"
    "first_at (found_at m (m2 ! s2) m2 (s2 + 1) n) s1 (int p_last - int n) r"
    using strlcasestrn_loop_spec [of "int p_last - int n" m n "s2 + 1" m2 s1 "m2 ! s2"] assms(1,2)
    by auto
  have found: "found_at m (m2 ! s2) m2 (s2 + 1) n = (\<lambda>i. same_nocase m i m2 s2 (Suc n))"
    by (simp add: fun_eq_iff found_at_def same_nocase_Suc)
  have stop: "int i < int p_last - int n \<longleftrightarrow> i + n < p_last" for i by auto
  show ?thesis
    using r(1) assms(2) r(2) [unfolded found first_at_def stop]
    by (intro exI [of _ r]) (simp add: ngx_strlcasestrn_def)
qed

text \<open>
  \<open>ngx_strlcasestrn\<close> looks for a name without zero bytes: it reads only between \<open>s1\<close> and
  \<open>last\<close>, and its answer is the first place, up to case, where all \<open>n + 1\<close> bytes lie in front of
  \<open>last\<close>, or \<open>NULL\<close> when there is none.
\<close>

theorem ngx_strlcasestrn_first:
  assumes "p_last \<le> length m" "s2 + n < length m2" "\<forall>i \<le> n. m2 ! (s2 + i) \<noteq> 0"
  shows "\<exists>r. ngx_strlcasestrn m s1 p_last m2 s2 n = Some r \<and>
    (case r of
       None \<Rightarrow> (\<forall>i. s1 \<le> i \<and> i + n < p_last \<longrightarrow> \<not> same_nocase m i m2 s2 (Suc n))
     | Some i \<Rightarrow> s1 \<le> i \<and> i + n < p_last \<and> same_nocase m i m2 s2 (Suc n) \<and>
         (\<forall>j. s1 \<le> j \<and> j < i \<longrightarrow> \<not> same_nocase m j m2 s2 (Suc n)))"
  by (rule strlcasestrn_spec [OF assms])

theorem ngx_strlcasestrn_first_witness:
  "\<exists>r. ngx_strlcasestrn (str ''aXyxY'') 0 5 (str ''xy'') 0 1 = Some r \<and> r = Some 1"
proof -
  have "ngx_strlcasestrn (str ''aXyxY'') 0 5 (str ''xy'') 0 1 = Some (Some 1)" by code_simp
  then show ?thesis
    using ngx_strlcasestrn_first [of 5 "str ''aXyxY''" 0 1 "str ''xy''" 0]
    by (auto simp: le_Suc_eq)
qed

end
