(* ===== verification/Ngx_Scan.thy ===== *)
theory Ngx_Scan
  imports Ngx_Prelude
begin

text \<open>
  The loop the incremental parsers of nginx share,
  \<^verbatim>\<open>for (p = b->pos; p < b->last; p++) { ch = *p; switch (state) { ... } }\<close>,
  and its contract. A parser is a body that handles one character: it falls through to the
  next character (\<open>Cont\<close>), jumps to a label behind the loop (\<open>Goto\<close>, as in \<open>goto done\<close>) or
  returns at once (\<open>Return\<close>). The buffer holds the bytes from its start to \<open>b->last\<close> and
  pointers into it are indices.
\<close>

datatype ('s, 'l, 'rc) step = Cont 's | Goto 'l 's | Return 'rc 's

text \<open>How the loop ends: the data is exhausted, or it was left at an index.\<close>

datatype ('s, 'l, 'rc) scanned = Exhausted 's | Jumped 'l 's nat | Returned 'rc 's nat

type_synonym ('s, 'l, 'rc) scan_body = "bytes \<Rightarrow> nat \<Rightarrow> u_char \<Rightarrow> 's \<Rightarrow> ('s, 'l, 'rc) step"

fun scan :: "('s, 'l, 'rc) scan_body \<Rightarrow> bytes \<Rightarrow> nat \<Rightarrow> bytes \<Rightarrow> 's \<Rightarrow> ('s, 'l, 'rc) scanned"
where
  "scan body buf p [] s = Exhausted s"
| "scan body buf p (ch # rest) s =
     (case body buf p ch s of
        Cont s' \<Rightarrow> scan body buf (Suc p) rest s'
      | Goto l s' \<Rightarrow> Jumped l s' p
      | Return rc s' \<Rightarrow> Returned rc s' p)"

definition scan_buf :: "('s, 'l, 'rc) scan_body \<Rightarrow> bytes \<Rightarrow> nat \<Rightarrow> 's \<Rightarrow> ('s, 'l, 'rc) scanned"
where
  "scan_buf body buf pos s = scan body buf pos (drop pos buf) s"

lemma scan_append:
  "scan body buf p (xs @ ys) s =
     (case scan body buf p xs s of
        Exhausted s' \<Rightarrow> scan body buf (p + length xs) ys s' | r \<Rightarrow> r)"
  by (induction xs arbitrary: p s) (auto split: step.splits scanned.splits)

text \<open>The loop returns or jumps only because its body does.\<close>

lemma scan_Returned_body:
  "scan body buf p rest s = Returned rc s' q \<Longrightarrow> \<exists>t ch. body buf q ch t = Return rc s'"
  by (induction rest arbitrary: p s) (auto split: step.splits)

lemma scan_Jumped_body:
  "scan body buf p rest s = Jumped l s' q \<Longrightarrow> \<exists>t ch. body buf q ch t = Goto l s'"
  by (induction rest arbitrary: p s) (auto split: step.splits)

text \<open>A stretch of characters that each leave the state as it is.\<close>

lemma scan_stay:
  "(\<And>i ch. i < length xs \<Longrightarrow> ch = xs ! i \<Longrightarrow> body buf (p + i) ch s = Cont s) \<Longrightarrow>
   scan body buf p xs s = Exhausted s"
proof (induction xs arbitrary: p)
  case (Cons x xs)
  have "body buf p x s = Cont s" using Cons.prems [of 0] by simp
  moreover have "scan body buf (Suc p) xs s = Exhausted s"
    using Cons.prems [of "Suc i" for i] by (intro Cons.IH) auto
  ultimately show ?case by simp
qed simp

text \<open>
  An invariant that relates the index and the state and that every \<open>Cont\<close> keeps holds
  whenever the loop is left.
\<close>

lemma scan_invariant:
  assumes step: "\<And>p ch s s'. \<lbrakk>I p s; p < length buf; ch = buf ! p; body buf p ch s = Cont s'\<rbrakk>
      \<Longrightarrow> I (Suc p) s'"
    and "I p s" and "rest = drop p buf" and "p \<le> length buf"
  shows "case scan body buf p rest s of
      Exhausted s' \<Rightarrow> I (length buf) s'
    | Jumped l s' q \<Rightarrow> p \<le> q \<and> q < length buf \<and> (\<exists>t. I q t \<and> body buf q (buf ! q) t = Goto l s')
    | Returned rc s' q \<Rightarrow>
        p \<le> q \<and> q < length buf \<and> (\<exists>t. I q t \<and> body buf q (buf ! q) t = Return rc s')"
  using assms(2-)
proof (induction rest arbitrary: p s)
  case Nil
  then show ?case by simp
next
  case (Cons ch rest)
  then have p: "p < length buf" and ch: "ch = buf ! p" and rest: "rest = drop (Suc p) buf"
    by (metis drop_all leI list.distinct(1), metis list.sel(1) hd_drop_conv_nth drop_all leI
        list.distinct(1), metis list.sel(3) tl_drop drop_Suc)
  show ?case
  proof (cases "body buf p ch s")
    case (Cont s')
    with step Cons.prems(1) p ch have "I (Suc p) s'" by blast
    from Cons.IH [OF this rest] p Cont show ?thesis
      by (auto split: scanned.splits)
  qed (use Cons.prems(1) p ch in auto)
qed

text \<open>
  The contract of a scanner that can be fed in pieces: the body looks only at characters up
  to the current one, so what follows in the buffer does not matter.
\<close>

locale scanner =
  fixes body :: "('s, 'l, 'rc) scan_body"
  assumes body_local:
    "take (Suc p) buf = take (Suc p) buf' \<Longrightarrow> body buf p ch s = body buf' p ch s"
begin

lemma scan_more:
  "p + length rest \<le> length buf \<Longrightarrow> scan body (buf @ more) p rest s = scan body buf p rest s"
proof (induction rest arbitrary: p s)
  case (Cons ch rest)
  then have "body (buf @ more) p ch s = body buf p ch s"
    by (intro body_local) simp
  with Cons show ?case by (auto split: step.splits)
qed simp

text \<open>Scanning more data is scanning the old data and then resuming.\<close>

lemma scan_buf_resume:
  assumes "pos \<le> length buf"
  shows "scan_buf body (buf @ more) pos s =
     (case scan_buf body buf pos s of
        Exhausted s' \<Rightarrow> scan_buf body (buf @ more) (length buf) s' | r \<Rightarrow> r)"
  using assms by (auto simp: scan_buf_def scan_append scan_more split: scanned.splits)

end

text \<open>
  A scanner whose body only passes on a part of the state, such as the position the caller
  keeps: states that agree up to this part give results that agree up to it.
\<close>

locale scanner_upto = scanner body for body :: "('s, 'l, 'rc) scan_body" +
  fixes strip :: "'s \<Rightarrow> 's"
  assumes body_strip: "strip s = strip t \<Longrightarrow>
    map_step strip id id (body buf p ch s) = map_step strip id id (body buf p ch t)"
begin

lemma scan_strip:
  "strip s = strip t \<Longrightarrow>
   map_scanned strip id id (scan body buf p rest s) = map_scanned strip id id (scan body buf p rest t)"
proof (induction rest arbitrary: p s t)
  case (Cons ch rest)
  note eq = body_strip [OF Cons.prems, of buf p ch]
  show ?case
  proof (cases "body buf p ch s")
    case (Cont s')
    with eq obtain t' where "body buf p ch t = Cont t'" "strip s' = strip t'"
      by (cases "body buf p ch t") auto
    with Cont Cons.IH [of s' t' "Suc p"] show ?thesis by simp
  next
    case (Goto l s')
    with eq show ?thesis by (cases "body buf p ch t") auto
  next
    case (Return rc s')
    with eq show ?thesis by (cases "body buf p ch t") auto
  qed
qed simp

text \<open>Resuming from a state that differs in the passed on part only.\<close>

lemma scan_buf_resume_strip:
  assumes "pos \<le> length buf" and "scan_buf body buf pos s = Exhausted s'" and "strip t = strip s'"
  shows "map_scanned strip id id (scan_buf body (buf @ rest) pos s) =
    map_scanned strip id id (scan_buf body (buf @ rest) (length buf) t)"
  using scan_buf_resume [OF assms(1), of rest s] scan_strip [OF assms(3)] assms(2)
  by (simp add: scan_buf_def)

end

end
