(* ===== verification/Ngx_String_Escape.thy ===== *)
theory Ngx_String_Escape
  imports Ngx_Scan
begin

text \<open>
  The escaping functions of \<open>src/src/core/ngx_string.c\<close>: \<open>ngx_escape_uri\<close>, \<open>ngx_unescape_uri\<close>
  and \<open>ngx_escape_html\<close>. What is written behind \<open>dst\<close> is the list of the written bytes.
\<close>

section \<open>Model\<close>

subsection \<open>Escaping a URI\<close>

definition esc_hex :: bytes where
  "esc_hex = str ''0123456789abcdef''"

definition esc_uri :: "uint32_t list" where
  "esc_uri = [0xffffffff, 0x80000029, 0x00000000, 0x80000000,
     0xffffffff, 0xffffffff, 0xffffffff, 0xffffffff]"

definition esc_args :: "uint32_t list" where
  "esc_args = [0xffffffff, 0x88000869, 0x00000000, 0x80000000,
     0xffffffff, 0xffffffff, 0xffffffff, 0xffffffff]"

definition esc_uri_component :: "uint32_t list" where
  "esc_uri_component = [0xffffffff, 0xfc009fff, 0x78000001, 0xb8000001,
     0xffffffff, 0xffffffff, 0xffffffff, 0xffffffff]"

definition esc_html :: "uint32_t list" where
  "esc_html = [0xffffffff, 0x000000ad, 0x00000000, 0x80000000,
     0xffffffff, 0xffffffff, 0xffffffff, 0xffffffff]"

definition esc_refresh :: "uint32_t list" where
  "esc_refresh = [0xffffffff, 0x00000085, 0x00000000, 0x80000000,
     0xffffffff, 0xffffffff, 0xffffffff, 0xffffffff]"

definition esc_memcached :: "uint32_t list" where
  "esc_memcached = [0xffffffff, 0x00000021, 0x00000000, 0x00000000,
     0x00000000, 0x00000000, 0x00000000, 0x00000000]"

text \<open>The constants \<open>NGX_ESCAPE_URI\<close> to \<open>NGX_ESCAPE_MAIL_AUTH\<close> are the indices 0 to 6.\<close>

definition esc_map :: "uint32_t list list" where
  "esc_map = [esc_uri, esc_args, esc_uri_component, esc_html, esc_refresh, esc_memcached,
     esc_memcached]"

definition must_escape :: "nat \<Rightarrow> u_char \<Rightarrow> bool" where
  "must_escape type c \<longleftrightarrow> bitmap_test (esc_map ! type) c"

text \<open>With \<open>dst == NULL\<close>: the number of the characters to be escaped.\<close>

fun ngx_escape_uri_count :: "bytes \<Rightarrow> nat \<Rightarrow> ngx_uint_t" where
  "ngx_escape_uri_count [] type = 0"
| "ngx_escape_uri_count (c # src) type =
     (if must_escape type c then ngx_escape_uri_count src type + 1
      else ngx_escape_uri_count src type)"

fun ngx_escape_uri :: "bytes \<Rightarrow> nat \<Rightarrow> bytes" where
  "ngx_escape_uri [] type = []"
| "ngx_escape_uri (c # src) type =
     (if must_escape type c
      then [c_percent, esc_hex ! unat (drop_bit 4 c), esc_hex ! unat (c AND 0xf)]
        @ ngx_escape_uri src type
      else c # ngx_escape_uri src type)"

subsection \<open>Unescaping a URI\<close>

definition NGX_UNESCAPE_URI :: ngx_uint_t where "NGX_UNESCAPE_URI = 1"
definition NGX_UNESCAPE_REDIRECT :: ngx_uint_t where "NGX_UNESCAPE_REDIRECT = 2"

datatype ue_state = ue_sw_usual | ue_sw_quoted | ue_sw_quoted_second

record ue_local =
  ue_st :: ue_state
  ue_decoded :: u_char
  ue_d :: bytes

datatype ue_label = Ue_done

text \<open>\<open>*d++ = c\<close>\<close>

definition ue_put :: "bytes \<Rightarrow> ue_local \<Rightarrow> ue_local" where
  "ue_put cs l = l\<lparr>ue_d := ue_d l @ cs\<rparr>"

definition ue_usual :: "ngx_uint_t \<Rightarrow> u_char \<Rightarrow> ue_local \<Rightarrow> (ue_local, ue_label, unit) step" where
  "ue_usual type ch l =
     (if ch = c_quest \<and> type AND (NGX_UNESCAPE_URI OR NGX_UNESCAPE_REDIRECT) \<noteq> 0
      then Goto Ue_done (ue_put [ch] l)
      else if ch = c_percent then Cont (l\<lparr>ue_st := ue_sw_quoted\<rparr>)
      else Cont (ue_put [ch] l))"

definition ue_quoted :: "u_char \<Rightarrow> ue_local \<Rightarrow> (ue_local, ue_label, unit) step" where
  "ue_quoted ch l =
     (let c = ch OR 0x20 in
      if c_0 \<le> ch \<and> ch \<le> c_9 then
        Cont (l\<lparr>ue_decoded := ch - c_0, ue_st := ue_sw_quoted_second\<rparr>)
      else if c_a \<le> c \<and> c \<le> c_f then
        Cont (l\<lparr>ue_decoded := c - c_a + 10, ue_st := ue_sw_quoted_second\<rparr>)
      else Cont (ue_put [ch] (l\<lparr>ue_st := ue_sw_usual\<rparr>)))"

text \<open>In this state \<open>s - 2\<close> and \<open>s - 1\<close> are the two digits of the escape.\<close>

definition ue_quoted_second ::
  "bytes \<Rightarrow> ngx_uint_t \<Rightarrow> nat \<Rightarrow> u_char \<Rightarrow> ue_local \<Rightarrow> (ue_local, ue_label, unit) step" where
  "ue_quoted_second src type p ch l =
     (let l = l\<lparr>ue_st := ue_sw_usual\<rparr>;
          c = ch OR 0x20;
          keep = Cont (ue_put [c_percent, src ! (p - 1), src ! p] l)
      in
      if c_0 \<le> ch \<and> ch \<le> c_9 then
        (let ch = push_bit 4 (ue_decoded l) + ch - c_0 in
         if type AND NGX_UNESCAPE_REDIRECT \<noteq> 0 then
           (if ch > c_percent \<and> ch < 0x7f then Cont (ue_put [ch] l) else keep)
         else Cont (ue_put [ch] l))
      else if c_a \<le> c \<and> c \<le> c_f then
        (let ch = push_bit 4 (ue_decoded l) + c - c_a + 10 in
         if type AND NGX_UNESCAPE_URI \<noteq> 0 then
           (if ch = c_quest then Goto Ue_done (ue_put [ch] l) else Cont (ue_put [ch] l))
         else if type AND NGX_UNESCAPE_REDIRECT \<noteq> 0 then
           (if ch = c_quest then Goto Ue_done (ue_put [ch] l)
            else if ch > c_percent \<and> ch < 0x7f then Cont (ue_put [ch] l)
            else keep)
         else Cont (ue_put [ch] l))
      else Cont l)"

definition ue_step ::
  "ngx_uint_t \<Rightarrow> bytes \<Rightarrow> nat \<Rightarrow> u_char \<Rightarrow> ue_local \<Rightarrow> (ue_local, ue_label, unit) step" where
  "ue_step type src p ch l =
     (case ue_st l of
        ue_sw_usual \<Rightarrow> ue_usual type ch l
      | ue_sw_quoted \<Rightarrow> ue_quoted ch l
      | ue_sw_quoted_second \<Rightarrow> ue_quoted_second src type p ch l)"

text \<open>The bytes written to \<open>*dst\<close> and the number of bytes \<open>*src\<close> is moved.\<close>

definition ngx_unescape_uri :: "bytes \<Rightarrow> ngx_uint_t \<Rightarrow> bytes \<times> nat" where
  "ngx_unescape_uri src type =
     (case scan_buf (ue_step type) src 0 \<lparr>ue_st = ue_sw_usual, ue_decoded = 0, ue_d = []\<rparr> of
        Exhausted l \<Rightarrow> (ue_d l, length src)
      | Jumped _ l p \<Rightarrow> (ue_d l, p + 1)
      | Returned _ l p \<Rightarrow> (ue_d l, p + 1))"

subsection \<open>Escaping HTML\<close>

text \<open>With \<open>dst == NULL\<close>: the number of the characters to add.\<close>

fun ngx_escape_html_count :: "bytes \<Rightarrow> ngx_uint_t" where
  "ngx_escape_html_count [] = 0"
| "ngx_escape_html_count (c # src) =
     (if c = c_lt then 3 else if c = c_gt then 3 else if c = c_amp then 4
      else if c = c_quot then 5 else 0) + ngx_escape_html_count src"

fun ngx_escape_html :: "bytes \<Rightarrow> bytes" where
  "ngx_escape_html [] = []"
| "ngx_escape_html (ch # src) =
     (if ch = c_lt then str ''&lt;''
      else if ch = c_gt then str ''&gt;''
      else if ch = c_amp then str ''&amp;''
      else if ch = c_quot then str ''&quot;''
      else [ch]) @ ngx_escape_html src"

section \<open>Escaping and unescaping a URI\<close>

lemma esc_hex_digit:
  assumes "n < 16"
  shows "if n < 10 then c_0 \<le> esc_hex ! n \<and> esc_hex ! n \<le> c_9 \<and> esc_hex ! n - c_0 = word_of_nat n
    else \<not> esc_hex ! n \<le> c_9 \<and> c_a \<le> esc_hex ! n OR 0x20 \<and> esc_hex ! n OR 0x20 \<le> c_f \<and>
      (esc_hex ! n OR 0x20) - c_a + 10 = word_of_nat n"
proof -
  have "list_all (\<lambda>n. if n < 10 then c_0 \<le> esc_hex ! n \<and> esc_hex ! n \<le> c_9 \<and> esc_hex ! n - c_0 = word_of_nat n
    else \<not> esc_hex ! n \<le> c_9 \<and> c_a \<le> esc_hex ! n OR 0x20 \<and> esc_hex ! n OR 0x20 \<le> c_f \<and>
      (esc_hex ! n OR 0x20) - c_a + 10 = word_of_nat n) [0..<16]"
    by code_simp
  then show ?thesis using assms by (simp only: list_all_iff) auto
qed

lemma unat_high_nibble_less: "unat (drop_bit 4 c :: u_char) < 16"
  using unat_u_char_less [of c] by (simp add: drop_bit_eq_div unat_div)

lemma unat_low_nibble_less: "unat (c AND 0xf :: u_char) < 16"
proof -
  have "c AND 0xf = take_bit 4 c" by (simp add: take_bit_eq_mask mask_numeral)
  then show ?thesis by (simp add: take_bit_eq_mod unat_mod)
qed

lemma nibbles: "push_bit 4 (drop_bit 4 c) + (c AND 0xf) = (c :: u_char)"
proof -
  have "c AND 0xf = take_bit 4 c" by (simp add: take_bit_eq_mask mask_numeral)
  then show ?thesis by (simp add: bits_ident)
qed

text \<open>All types but \<open>NGX_ESCAPE_REFRESH\<close> escape the percent sign.\<close>

lemma percent_must_escape:
  assumes "type < 7" "type \<noteq> 4"
  shows "must_escape type c_percent"
proof -
  have "list_all (\<lambda>t. t \<noteq> 4 \<longrightarrow> must_escape t c_percent) [0..<7]" by code_simp
  then show ?thesis using assms by (simp only: list_all_iff) auto
qed

text \<open>Reading one escape in a state without pending digits.\<close>

lemma ue_quoted_hex:
  assumes "n < 16" "ue_st l = ue_sw_quoted"
  shows "ue_step u buf p (esc_hex ! n) l =
    Cont (l\<lparr>ue_decoded := word_of_nat n, ue_st := ue_sw_quoted_second\<rparr>)"
  using esc_hex_digit [OF assms(1)] assms(2)
  by (cases "n < 10") (auto simp: ue_step_def ue_quoted_def Let_def)

lemma ue_quoted_second_hex:
  assumes "n < 16" "ue_st l = ue_sw_quoted_second" "u AND NGX_UNESCAPE_REDIRECT = 0"
    and "c = push_bit 4 (ue_decoded l) + word_of_nat n"
    and "c = c_quest \<Longrightarrow> u AND NGX_UNESCAPE_URI = 0"
  shows "ue_step u buf p (esc_hex ! n) l = Cont (ue_put [c] (l\<lparr>ue_st := ue_sw_usual\<rparr>))"
proof (cases "n < 10")
  case True
  with esc_hex_digit [OF assms(1)]
  have *: "c_0 \<le> esc_hex ! n" "esc_hex ! n \<le> c_9" "esc_hex ! n - c_0 = word_of_nat n" by auto
  have "push_bit 4 (ue_decoded l) + esc_hex ! n - c_0 = c"
    using *(3) assms(4) by (simp add: add_diff_eq [symmetric])
  with * assms(2,3) show ?thesis by (simp add: ue_step_def ue_quoted_second_def Let_def)
next
  case False
  with esc_hex_digit [OF assms(1)]
  have *: "\<not> esc_hex ! n \<le> c_9" "c_a \<le> esc_hex ! n OR 0x20" "esc_hex ! n OR 0x20 \<le> c_f"
    "(esc_hex ! n OR 0x20) - c_a + 10 = word_of_nat n" by auto
  have "push_bit 4 (ue_decoded l) + (esc_hex ! n OR 0x20) - c_a + 10 = c"
    using *(4) assms(4) by (simp add: algebra_simps)
  with * assms(2,3,5) show ?thesis by (auto simp: ue_step_def ue_quoted_second_def Let_def)
qed

lemma ue_scan_escape:
  assumes "type < 7" "type \<noteq> 4" "u AND NGX_UNESCAPE_REDIRECT = 0" "ue_st l = ue_sw_usual"
    and "c_quest \<in> set src \<Longrightarrow> u AND NGX_UNESCAPE_URI = 0"
  shows "\<exists>d. scan (ue_step u) buf p (ngx_escape_uri src type) l =
    Exhausted (l\<lparr>ue_decoded := d, ue_d := ue_d l @ src\<rparr>)"
  using assms(4,5)
proof (induction src arbitrary: p l)
  case Nil
  show ?case by (intro exI [of _ "ue_decoded l"]) simp
next
  case (Cons c src)
  note IH = Cons.IH [of "ue_put [c] (l\<lparr>ue_decoded := d, ue_st := ue_sw_usual\<rparr>)" for d]
  show ?case
  proof (cases "must_escape type c")
    case True
    let ?h = "unat (drop_bit 4 c)" and ?l = "unat (c AND 0xf)"
    let ?l1 = "l\<lparr>ue_st := ue_sw_quoted\<rparr>"
    let ?l2 = "?l1\<lparr>ue_decoded := drop_bit 4 c, ue_st := ue_sw_quoted_second\<rparr>"
    have 1: "ue_step u buf p c_percent l = Cont ?l1"
      using Cons.prems(1) by (simp add: ue_step_def ue_usual_def)
    have 2: "ue_step u buf (Suc p) (esc_hex ! ?h) ?l1 = Cont ?l2"
      using ue_quoted_hex [OF unat_high_nibble_less, of ?l1 u buf "Suc p" c] by simp
    have 3: "ue_step u buf (Suc (Suc p)) (esc_hex ! ?l) ?l2 =
        Cont (ue_put [c] (?l2\<lparr>ue_st := ue_sw_usual\<rparr>))"
      by (rule ue_quoted_second_hex [OF unat_low_nibble_less])
        (use Cons.prems(2) assms(3) in \<open>auto simp: nibbles\<close>)
    have "scan (ue_step u) buf p (ngx_escape_uri (c # src) type) l =
        scan (ue_step u) buf (p + 3) (ngx_escape_uri src type) (ue_put [c] (?l2\<lparr>ue_st := ue_sw_usual\<rparr>))"
      using 1 2 3 True by (simp add: eval_nat_numeral)
    moreover obtain d where "scan (ue_step u) buf (p + 3) (ngx_escape_uri src type)
        (ue_put [c] (?l2\<lparr>ue_st := ue_sw_usual\<rparr>)) =
        Exhausted ((ue_put [c] (?l2\<lparr>ue_st := ue_sw_usual\<rparr>))\<lparr>ue_decoded := d,
          ue_d := ue_d (ue_put [c] (?l2\<lparr>ue_st := ue_sw_usual\<rparr>)) @ src\<rparr>)"
      using Cons.IH [of "ue_put [c] (?l2\<lparr>ue_st := ue_sw_usual\<rparr>)" "p + 3"] Cons.prems(2)
      by (auto simp: ue_put_def)
    ultimately show ?thesis using Cons.prems(1) by (cases l) (auto simp: ue_put_def)
  next
    case False
    then have "c \<noteq> c_percent" using percent_must_escape [OF assms(1,2)] by auto
    then have "ue_step u buf p c l = Cont (ue_put [c] l)"
      using Cons.prems assms(3) by (auto simp: ue_step_def ue_usual_def bit.conj_disj_distrib)
    moreover obtain d where "scan (ue_step u) buf (Suc p) (ngx_escape_uri src type) (ue_put [c] l) =
        Exhausted ((ue_put [c] l)\<lparr>ue_decoded := d, ue_d := ue_d (ue_put [c] l) @ src\<rparr>)"
      using Cons.IH [of "ue_put [c] l" "Suc p"] Cons.prems by (auto simp: ue_put_def)
    ultimately show ?thesis using False by (auto simp: ue_put_def)
  qed
qed

lemma unescape_escape:
  assumes "type < 7" "type \<noteq> 4" and "u AND NGX_UNESCAPE_REDIRECT = 0"
    and "c_quest \<in> set src \<Longrightarrow> u AND NGX_UNESCAPE_URI = 0"
  shows "ngx_unescape_uri (ngx_escape_uri src type) u = (src, length (ngx_escape_uri src type))"
proof -
  let ?l = "\<lparr>ue_st = ue_sw_usual, ue_decoded = 0, ue_d = []\<rparr> :: ue_local"
  obtain d where "scan (ue_step u) (ngx_escape_uri src type) 0 (ngx_escape_uri src type) ?l =
      Exhausted (?l\<lparr>ue_decoded := d, ue_d := ue_d ?l @ src\<rparr>)"
    using ue_scan_escape [OF assms(1-3), of ?l src "ngx_escape_uri src type" 0] assms(4) by auto
  then show ?thesis by (simp add: ngx_unescape_uri_def scan_buf_def)
qed

text \<open>Each escape type but \<open>NGX_ESCAPE_REFRESH\<close> is a codec; here \<open>NGX_ESCAPE_URI\<close>.\<close>

interpretation escape_uri: codec "\<lambda>s. ngx_escape_uri s 0" "\<lambda>s. Some (fst (ngx_unescape_uri s 0))"
  by unfold_locales (simp add: unescape_escape)



text \<open>
  The table for \<open>NGX_ESCAPE_REFRESH\<close> leaves the percent sign alone, so different strings
  are escaped to the same string and unescaping does not give the original back.
\<close>

theorem ngx_escape_uri_refresh_percent:
  "ngx_escape_uri (str ''%20'') 4 = ngx_escape_uri (str '' '') 4 \<and>
   ngx_unescape_uri (ngx_escape_uri (str ''%20'') 4) 0 \<noteq> (str ''%20'', 3)"
  by code_simp

lemma hex_not_escaped:
  assumes "type < 7" "n < 16"
  shows "\<not> must_escape type (esc_hex ! n)"
proof -
  have "list_all (\<lambda>t. list_all (\<lambda>n. \<not> must_escape t (esc_hex ! n)) [0..<16]) [0..<7]"
    by code_simp
  then show ?thesis using assms by (simp only: list_all_iff) auto
qed

lemma ngx_escape_uri_count_filter:
  "ngx_escape_uri_count src type = word_of_nat (length (filter (must_escape type) src))"
  by (induction src type rule: ngx_escape_uri_count.induct) (simp_all add: add.commute)

lemma length_ngx_escape_uri:
  "length (ngx_escape_uri src type) = length src + 2 * length (filter (must_escape type) src)"
  by (induction src type rule: ngx_escape_uri.induct) auto

text \<open>
  \<open>ngx_escape_uri\<close> called with no destination predicts the size: each counted character
  takes two more bytes. The percent sign is the only character of the result that the type
  escapes.
\<close>

theorem ngx_escape_uri_length:
  assumes "length src < 2 ^ 64" "type < 7"
  shows "length (ngx_escape_uri src type) = length src + 2 * unat (ngx_escape_uri_count src type) \<and>
    (\<forall>c \<in> set (ngx_escape_uri src type). must_escape type c \<longrightarrow> c = c_percent)"
proof
  have "length (filter (must_escape type) src) < 2 ^ 64"
    using assms length_filter_le order_le_less_trans by blast
  then show "length (ngx_escape_uri src type) =
      length src + 2 * unat (ngx_escape_uri_count src type)"
    by (simp add: length_ngx_escape_uri ngx_escape_uri_count_filter unsigned_of_nat
        take_bit_nat_eq_self)
  show "\<forall>c \<in> set (ngx_escape_uri src type). must_escape type c \<longrightarrow> c = c_percent"
    using hex_not_escaped [OF assms(2)] unat_high_nibble_less unat_low_nibble_less
    by (induction src) auto
qed

theorem ngx_escape_uri_length_witness:
  "length (ngx_escape_uri (str ''a b'') 0) = 3 + 2 * unat (ngx_escape_uri_count (str ''a b'') 0) \<and>
   ngx_escape_uri_count (str ''a b'') 0 = 1"
proof -
  have "ngx_escape_uri_count (str ''a b'') 0 = 1" by code_simp
  then show ?thesis using ngx_escape_uri_length [of "str ''a b''" 0] by simp
qed

section \<open>Unescaping in place\<close>

text \<open>
  The number of bytes that have been read and not yet written: the invariant that lets
  callers pass the same memory as source and destination.
\<close>

definition ue_inv :: "nat \<Rightarrow> ue_local \<Rightarrow> bool" where
  "ue_inv p l \<longleftrightarrow> length (ue_d l) +
     (case ue_st l of ue_sw_usual \<Rightarrow> 0 | ue_sw_quoted \<Rightarrow> 1 | ue_sw_quoted_second \<Rightarrow> 2) \<le> p"

lemma ue_inv_step:
  assumes "ue_inv p l"
  shows "case ue_step u src p ch l of
    Cont l' \<Rightarrow> ue_inv (Suc p) l' | Goto _ l' \<Rightarrow> length (ue_d l') \<le> Suc p | Return _ _ \<Rightarrow> False"
proof (cases "ue_st l")
  case ue_sw_usual
  then show ?thesis using assms by (simp add: ue_step_def ue_usual_def ue_inv_def ue_put_def)
next
  case ue_sw_quoted
  then show ?thesis using assms by (simp add: ue_step_def ue_quoted_def ue_inv_def ue_put_def Let_def)
next
  case ue_sw_quoted_second
  then show ?thesis
    using assms by (simp add: ue_step_def ue_quoted_second_def ue_inv_def ue_put_def Let_def)
qed

lemma ue_inv_Goto: "ue_inv p l \<Longrightarrow> ue_step u src p ch l = Goto x l' \<Longrightarrow> length (ue_d l') \<le> Suc p"
  using ue_inv_step [of p l u src ch] by simp

lemma ue_inv_Return: "ue_inv p l \<Longrightarrow> ue_step u src p ch l = Return x l' \<Longrightarrow> False"
  using ue_inv_step [of p l u src ch] by simp

text \<open>
  C18. Whatever the input and the flags, \<open>ngx_unescape_uri\<close> has never written more bytes than it
  has read, so unescaping a buffer into itself is safe, and it reads at most the source.
\<close>

theorem ngx_unescape_uri_in_place:
  "case ngx_unescape_uri src u of (d, n) \<Rightarrow> length d \<le> n \<and> n \<le> length src"
proof -
  let ?l = "\<lparr>ue_st = ue_sw_usual, ue_decoded = 0, ue_d = []\<rparr> :: ue_local"
  have "case scan (ue_step u) src 0 src ?l of
      Exhausted s' \<Rightarrow> ue_inv (length src) s'
    | Jumped l s' q \<Rightarrow> 0 \<le> q \<and> q < length src \<and> (\<exists>t. ue_inv q t \<and> ue_step u src q (src ! q) t = Goto l s')
    | Returned rc s' q \<Rightarrow>
        0 \<le> q \<and> q < length src \<and> (\<exists>t. ue_inv q t \<and> ue_step u src q (src ! q) t = Return rc s')"
  proof (rule scan_invariant [where I = ue_inv])
    fix p ch s s'
    assume "ue_inv p s" "ue_step u src p ch s = Cont s'"
    then show "ue_inv (Suc p) s'" using ue_inv_step [of p s u src ch] by simp
  qed (simp_all add: ue_inv_def)
  then show ?thesis
    by (auto simp: ngx_unescape_uri_def scan_buf_def split: scanned.splits
        dest: ue_inv_Goto ue_inv_Return) (auto simp: ue_inv_def)
qed

section \<open>Escaping HTML\<close>

lemma length_ngx_escape_html:
  "\<exists>k. length (ngx_escape_html src) = length src + k \<and>
     ngx_escape_html_count src = word_of_nat k \<and> k \<le> 5 * length src"
proof (induction src)
  case (Cons c src)
  then obtain k where k: "length (ngx_escape_html src) = length src + k"
    "ngx_escape_html_count src = word_of_nat k" "k \<le> 5 * length src" by blast
  define j where "j = (if c = c_lt then 3 else if c = c_gt then 3 else if c = c_amp then 4
      else if c = c_quot then 5 else 0 :: nat)"
  show ?case
    by (rule exI [of _ "j + k"]) (use k in \<open>auto simp: j_def\<close>)
qed simp

lemma ngx_escape_html_inj: "ngx_escape_html s = ngx_escape_html t \<Longrightarrow> s = t"
proof (induction s arbitrary: t)
  case Nil
  then show ?case by (cases t) (auto split: if_splits)
next
  case (Cons c s)
  obtain d t' where t: "t = d # t'" using Cons.prems by (cases t) (auto split: if_splits)
  have "c = d" using Cons.prems unfolding t by (simp split: if_splits)
  then show ?case using Cons t by auto
qed

text \<open>
  \<open>ngx_escape_html\<close> called with no destination predicts how many bytes are added; the result
  has no \<open><\<close>, \<open>>\<close> or double quote, and different texts are escaped differently.
\<close>

theorem ngx_escape_html_correct:
  assumes "5 * length src < 2 ^ 64"
  shows "length (ngx_escape_html src) = length src + unat (ngx_escape_html_count src) \<and>
    set (ngx_escape_html src) \<inter> {c_lt, c_gt, c_quot} = {} \<and>
    (ngx_escape_html t = ngx_escape_html src \<longleftrightarrow> t = src)"
proof (intro conjI)
  obtain k where "length (ngx_escape_html src) = length src + k"
    "ngx_escape_html_count src = word_of_nat k" "k \<le> 5 * length src"
    using length_ngx_escape_html by blast
  then show "length (ngx_escape_html src) = length src + unat (ngx_escape_html_count src)"
    using assms by (simp add: unsigned_of_nat take_bit_nat_eq_self)
  show "set (ngx_escape_html src) \<inter> {c_lt, c_gt, c_quot} = {}"
    by (induction src) auto
  show "ngx_escape_html t = ngx_escape_html src \<longleftrightarrow> t = src"
    using ngx_escape_html_inj by blast
qed

theorem ngx_escape_html_correct_witness:
  "length (ngx_escape_html (str ''<a>'')) = 3 + unat (ngx_escape_html_count (str ''<a>'')) \<and>
   ngx_escape_html (str ''<a>'') = str ''&lt;a&gt;''"
  using ngx_escape_html_correct [of "str ''<a>''"] by simp

end
