(* ===== verification/Ngx_String_Base64.thy ===== *)
theory Ngx_String_Base64
  imports Ngx_Prelude
begin

text \<open>
  Base64 in \<open>src/src/core/ngx_string.c\<close>: \<open>ngx_encode_base64\<close>, \<open>ngx_decode_base64\<close> and
  \<open>ngx_decode_base64url\<close>. A string \<open>ngx_str_t\<close> is the list of its bytes and \<open>NGX_ERROR\<close> is
  \<open>None\<close>.
\<close>

section \<open>Model\<close>

definition basis64 :: bytes where
  "basis64 = str ''ABCDEFGHIJKLMNOPQRSTUVWXYZabcdefghijklmnopqrstuvwxyz0123456789+/''"

fun ngx_encode_base64 :: "bytes \<Rightarrow> bytes" where
  "ngx_encode_base64 (s0 # s1 # s2 # s) =
     [basis64 ! unat (drop_bit 2 s0 AND 0x3f),
      basis64 ! unat (push_bit 4 (s0 AND 3) OR drop_bit 4 s1),
      basis64 ! unat (push_bit 2 (s1 AND 0x0f) OR drop_bit 6 s2),
      basis64 ! unat (s2 AND 0x3f)] @ ngx_encode_base64 s"
| "ngx_encode_base64 [s0, s1] =
     [basis64 ! unat (drop_bit 2 s0 AND 0x3f),
      basis64 ! unat (push_bit 4 (s0 AND 3) OR drop_bit 4 s1),
      basis64 ! unat (push_bit 2 (s1 AND 0x0f)), c_eq]"
| "ngx_encode_base64 [s0] =
     [basis64 ! unat (drop_bit 2 s0 AND 0x3f), basis64 ! unat (push_bit 4 (s0 AND 3)), c_eq, c_eq]"
| "ngx_encode_base64 [] = []"

text \<open>The tables of the two decoders, by rows of sixteen characters.\<close>

definition decode_basis64 :: bytes where
  "decode_basis64 =
     replicate 16 77 @
     replicate 16 77 @
     [77, 77, 77, 77, 77, 77, 77, 77, 77, 77, 77, 62, 77, 77, 77, 63] @
     [52, 53, 54, 55, 56, 57, 58, 59, 60, 61, 77, 77, 77, 77, 77, 77] @
     [77,  0,  1,  2,  3,  4,  5,  6,  7,  8,  9, 10, 11, 12, 13, 14] @
     [15, 16, 17, 18, 19, 20, 21, 22, 23, 24, 25, 77, 77, 77, 77, 77] @
     [77, 26, 27, 28, 29, 30, 31, 32, 33, 34, 35, 36, 37, 38, 39, 40] @
     [41, 42, 43, 44, 45, 46, 47, 48, 49, 50, 51, 77, 77, 77, 77, 77] @
     replicate 128 77"

definition decode_basis64url :: bytes where
  "decode_basis64url =
     replicate 16 77 @
     replicate 16 77 @
     [77, 77, 77, 77, 77, 77, 77, 77, 77, 77, 77, 77, 77, 62, 77, 77] @
     [52, 53, 54, 55, 56, 57, 58, 59, 60, 61, 77, 77, 77, 77, 77, 77] @
     [77,  0,  1,  2,  3,  4,  5,  6,  7,  8,  9, 10, 11, 12, 13, 14] @
     [15, 16, 17, 18, 19, 20, 21, 22, 23, 24, 25, 77, 77, 77, 77, 63] @
     [77, 26, 27, 28, 29, 30, 31, 32, 33, 34, 35, 36, 37, 38, 39, 40] @
     [41, 42, 43, 44, 45, 46, 47, 48, 49, 50, 51, 77, 77, 77, 77, 77] @
     replicate 128 77"

text \<open>The first loop: the characters up to the padding, or \<open>None\<close> at one not in the basis.\<close>

fun b64_prefix :: "bytes \<Rightarrow> bytes \<Rightarrow> bytes option" where
  "b64_prefix basis [] = Some []"
| "b64_prefix basis (c # src) =
     (if c = c_eq then Some []
      else if basis ! unat c = 77 then None
      else map_option ((#) c) (b64_prefix basis src))"

text \<open>The second loop and the rest of fewer than four characters.\<close>

fun b64_decode :: "bytes \<Rightarrow> bytes \<Rightarrow> bytes" where
  "b64_decode basis (s0 # s1 # s2 # s3 # s) =
     [push_bit 2 (basis ! unat s0) OR drop_bit 4 (basis ! unat s1),
      push_bit 4 (basis ! unat s1) OR drop_bit 2 (basis ! unat s2),
      push_bit 6 (basis ! unat s2) OR basis ! unat s3] @ b64_decode basis s"
| "b64_decode basis [s0, s1, s2] =
     [push_bit 2 (basis ! unat s0) OR drop_bit 4 (basis ! unat s1),
      push_bit 4 (basis ! unat s1) OR drop_bit 2 (basis ! unat s2)]"
| "b64_decode basis [s0, s1] = [push_bit 2 (basis ! unat s0) OR drop_bit 4 (basis ! unat s1)]"
| "b64_decode basis [s0] = []"
| "b64_decode basis [] = []"

definition ngx_decode_base64_internal :: "bytes \<Rightarrow> bytes \<Rightarrow> bytes option" where
  "ngx_decode_base64_internal src basis = do {
     s \<leftarrow> b64_prefix basis src;
     if length s mod 4 = 1 then None else Some (b64_decode basis s) }"

definition ngx_decode_base64 :: "bytes \<Rightarrow> bytes option" where
  "ngx_decode_base64 src = ngx_decode_base64_internal src decode_basis64"

definition ngx_decode_base64url :: "bytes \<Rightarrow> bytes option" where
  "ngx_decode_base64url src = ngx_decode_base64_internal src decode_basis64url"

text \<open>The macros of \<open>ngx_string.h\<close> that callers size the destination with.\<close>

definition ngx_base64_encoded_length :: "nat \<Rightarrow> nat" where
  "ngx_base64_encoded_length len = (len + 2) div 3 * 4"

definition ngx_base64_decoded_length :: "nat \<Rightarrow> nat" where
  "ngx_base64_decoded_length len = (len + 3) div 4 * 3"

section \<open>Sizes\<close>

lemma length_b64_prefix: "b64_prefix basis src = Some s \<Longrightarrow> length s \<le> length src"
  by (induction basis src arbitrary: s rule: b64_prefix.induct) (auto split: if_splits)

lemma length_b64_decode: "length (b64_decode basis s) = length s * 3 div 4"
  by (induction basis s rule: b64_decode.induct) auto

text \<open>
  The encoder writes exactly \<open>ngx_base64_encoded_length\<close> bytes, and a decoder never more than
  \<open>ngx_base64_decoded_length\<close> bytes, so destinations of these sizes are never overrun.
\<close>

theorem ngx_base64_lengths:
  "length (ngx_encode_base64 s) = ngx_base64_encoded_length (length s) \<and>
   (\<forall>d. ngx_decode_base64 s = Some d \<or> ngx_decode_base64url s = Some d \<longrightarrow>
      length d \<le> ngx_base64_decoded_length (length s))"
proof (intro conjI allI impI)
  show "length (ngx_encode_base64 s) = ngx_base64_encoded_length (length s)"
    unfolding ngx_base64_encoded_length_def
  proof (induction s rule: ngx_encode_base64.induct)
    case (1 s0 s1 s2 s)
    then show ?case using div_add_self2 [of 3 "length s + 2"] by (simp add: algebra_simps)
  qed auto
next
  fix d
  assume "ngx_decode_base64 s = Some d \<or> ngx_decode_base64url s = Some d"
  then obtain basis t where "b64_prefix basis s = Some t" "d = b64_decode basis t"
    by (auto simp: ngx_decode_base64_def ngx_decode_base64url_def ngx_decode_base64_internal_def
        split: bind_splits if_splits)
  then show "length d \<le> ngx_base64_decoded_length (length s)"
    using length_b64_prefix by (fastforce simp: length_b64_decode ngx_base64_decoded_length_def)
qed

section \<open>Round trip\<close>

text \<open>The table of \<open>ngx_decode_base64\<close> as a function, and that it inverts the basis.\<close>

definition b64_digit :: "nat \<Rightarrow> u_char" where
  "b64_digit n =
     (if 65 \<le> n \<and> n \<le> 90 then word_of_nat (n - 65)
      else if 97 \<le> n \<and> n \<le> 122 then word_of_nat (n - 71)
      else if 48 \<le> n \<and> n \<le> 57 then word_of_nat (n + 4)
      else if n = 43 then 62 else if n = 47 then 63 else 77)"

lemma decode_basis64_map: "decode_basis64 = map b64_digit [0..<256]"
  by code_simp

lemma basis64_digits: "map (\<lambda>c. b64_digit (unat c)) basis64 = map word_of_nat [0..<64]"
  by code_simp

lemma nth_map_upt_0: "n < m \<Longrightarrow> map f [0..<m] ! n = f n"
  by simp

lemma basis64_inverse:
  assumes "k < 64"
  shows "decode_basis64 ! unat (basis64 ! k) = word_of_nat k" "basis64 ! k \<noteq> c_eq"
proof -
  have len: "length basis64 = 64" by code_simp
  have "b64_digit (unat (basis64 ! k)) = map (\<lambda>c. b64_digit (unat c)) basis64 ! k"
    using assms len by (simp only: nth_map)
  also have "\<dots> = word_of_nat k" unfolding basis64_digits by (rule nth_map_upt_0 [OF assms])
  finally show "decode_basis64 ! unat (basis64 ! k) = word_of_nat k"
    unfolding decode_basis64_map by (simp only: nth_map_upt_0 [OF unat_u_char_less])
  have "list_all (\<lambda>c. c \<noteq> c_eq) basis64" by code_simp
  then show "basis64 ! k \<noteq> c_eq" using assms len by (auto simp: list_all_length)
qed

definition sextet :: "u_char \<Rightarrow> bool" where
  "sextet w \<longleftrightarrow> \<not> bit w 6 \<and> \<not> bit w 7"

lemma sextet_less:
  assumes "sextet w"
  shows "unat w < 64"
proof -
  have "w = take_bit 6 w" using assms by (intro byte_eqI) (auto simp: sextet_def bit_simps)
  then have "unat w = unat (w mod 64)" by (simp add: take_bit_eq_mod)
  also have "\<dots> < 64" by (simp add: unat_mod)
  finally show ?thesis .
qed

lemma basis64_sextet:
  assumes "sextet w"
  shows "decode_basis64 ! unat (basis64 ! unat w) = w" "basis64 ! unat w \<noteq> c_eq" "w \<noteq> 77"
  using basis64_inverse [OF sextet_less [OF assms]] sextet_less [OF assms] by auto

text \<open>The four sextets of three bytes, and the bytes they are put together to.\<close>

lemma sextets:
  fixes s0 s1 s2 :: u_char
  shows "sextet (drop_bit 2 s0 AND 0x3f)" "sextet (push_bit 4 (s0 AND 3) OR drop_bit 4 s1)"
    "sextet (push_bit 2 (s1 AND 0x0f) OR drop_bit 6 s2)" "sextet (s2 AND 0x3f)"
    "sextet (push_bit 4 (s0 AND 3))" "sextet (push_bit 2 (s1 AND 0x0f))"
  by (auto simp: sextet_def bit_simps dest: bit_imp_le_length)

lemma sextets_byte0:
  fixes s0 s1 :: u_char
  shows "push_bit 2 (drop_bit 2 s0 AND 0x3f) OR drop_bit 4 (push_bit 4 (s0 AND 3) OR drop_bit 4 s1) = s0"
    "push_bit 2 (drop_bit 2 s0 AND 0x3f) OR drop_bit 4 (push_bit 4 (s0 AND 3)) = s0"
  by (rule byte_eqI; simp add: bit_simps)+

lemma sextets_byte1:
  fixes s0 s1 s2 :: u_char
  shows "push_bit 4 (push_bit 4 (s0 AND 3) OR drop_bit 4 s1) OR
      drop_bit 2 (push_bit 2 (s1 AND 0x0f) OR drop_bit 6 s2) = s1"
    "push_bit 4 (push_bit 4 (s0 AND 3) OR drop_bit 4 s1) OR drop_bit 2 (push_bit 2 (s1 AND 0x0f)) = s1"
  by (rule byte_eqI; simp add: bit_simps)+

lemma sextets_byte2:
  fixes s1 s2 :: u_char
  shows "push_bit 6 (push_bit 2 (s1 AND 0x0f) OR drop_bit 6 s2) OR (s2 AND 0x3f) = s2"
  by (rule byte_eqI; simp add: bit_simps)

lemma b64_prefix_sextet:
  "sextet w \<Longrightarrow> b64_prefix decode_basis64 (basis64 ! unat w # src) =
     map_option ((#) (basis64 ! unat w)) (b64_prefix decode_basis64 src)"
  using basis64_sextet [of w] by simp

lemma b64_roundtrip:
  "\<exists>t. b64_prefix decode_basis64 (ngx_encode_base64 s) = Some t \<and> length t mod 4 \<noteq> 1 \<and>
     b64_decode decode_basis64 t = s"
proof (induction s rule: ngx_encode_base64.induct)
  case (1 s0 s1 s2 s)
  then obtain t where t: "b64_prefix decode_basis64 (ngx_encode_base64 s) = Some t"
    "length t mod 4 \<noteq> 1" "b64_decode decode_basis64 t = s" by blast
  note q = b64_prefix_sextet [OF sextets(1)] b64_prefix_sextet [OF sextets(2)]
    b64_prefix_sextet [OF sextets(3)] b64_prefix_sextet [OF sextets(4)]
  show ?case
    unfolding ngx_encode_base64.simps append.simps q t(1) option.map
    by (rule exI, rule conjI, rule refl)
      (simp only: b64_decode.simps basis64_sextet sextets sextets_byte0 sextets_byte1
        sextets_byte2 t(3) append.simps, use t(2) in simp)
next
  case (2 s0 s1)
  note q = b64_prefix_sextet [OF sextets(1)] b64_prefix_sextet [OF sextets(2)]
    b64_prefix_sextet [OF sextets(6)]
  show ?case
    unfolding ngx_encode_base64.simps q
    by (simp del: push_bit_and) 
      (simp only: basis64_sextet sextets sextets_byte0 sextets_byte1)
next
  case (3 s0)
  note q = b64_prefix_sextet [OF sextets(1)] b64_prefix_sextet [OF sextets(5)]
  show ?case
    unfolding ngx_encode_base64.simps q
    by (simp del: push_bit_and) (simp only: basis64_sextet sextets sextets_byte0)
qed simp

interpretation base64: codec ngx_encode_base64 ngx_decode_base64
proof
  fix s
  show "ngx_decode_base64 (ngx_encode_base64 s) = Some s"
    using b64_roundtrip [of s]
    by (auto simp: ngx_decode_base64_def ngx_decode_base64_internal_def)
qed

text \<open>
  C19. Decoding reverses encoding, for strings of every length; so different strings have
  different encodings.
\<close>

theorem ngx_decode_base64_encode:
  "ngx_decode_base64 (ngx_encode_base64 s) = Some s \<and>
   (ngx_encode_base64 s = ngx_encode_base64 t \<longleftrightarrow> s = t)"
  by (simp add: base64.dec_enc base64.enc_eq_iff)

theorem ngx_base64_lengths_witness:
  "ngx_decode_base64 (str ''YWI='') = Some (str ''ab'') \<and>
   length (str ''ab'') \<le> ngx_base64_decoded_length 4"
proof -
  have "ngx_decode_base64 (str ''YWI='') = Some (str ''ab'')" by code_simp
  then show ?thesis using ngx_base64_lengths [of "str ''YWI=''"] by (auto simp: eval_nat_numeral)
qed

lemma b64_prefix_iff:
  "b64_prefix basis src = Some s \<longleftrightarrow>
     s = takeWhile (\<lambda>c. c \<noteq> c_eq) src \<and> (\<forall>c \<in> set s. basis ! unat c \<noteq> 77)"
  by (induction basis src arbitrary: s rule: b64_prefix.induct) auto

text \<open>
  What a decoder accepts: up to the first \<open>=\<close> only characters of its alphabet, and not one
  character more than a multiple of four. Whatever follows the first \<open>=\<close> is ignored.
\<close>

theorem ngx_decode_base64_accepts:
  "(\<exists>d. ngx_decode_base64_internal src basis = Some d) \<longleftrightarrow>
     (\<forall>c \<in> set (takeWhile (\<lambda>c. c \<noteq> c_eq) src). basis ! unat c \<noteq> 77) \<and>
     length (takeWhile (\<lambda>c. c \<noteq> c_eq) src) mod 4 \<noteq> 1"
  proof (cases "b64_prefix basis src")
  case None
  then show ?thesis
    using b64_prefix_iff [of basis src "takeWhile (\<lambda>c. c \<noteq> c_eq) src"]
    by (auto simp: ngx_decode_base64_internal_def)
next
  case (Some s)
  then show ?thesis
    using b64_prefix_iff [of basis src s] by (auto simp: ngx_decode_base64_internal_def)
qed

end
