(* ===== verification/Ngx_String_Utf8.thy ===== *)
theory Ngx_String_Utf8
  imports Ngx_Prelude
begin

text \<open>
  UTF-8 in \<open>src/src/core/ngx_string.c\<close>: \<open>ngx_utf8_decode\<close>, \<open>ngx_utf8_length\<close> and
  \<open>ngx_utf8_cpystrn\<close>. The memory is the list of its bytes, pointers are indices and a read
  past the end is \<open>None\<close>.
\<close>

section \<open>Model\<close>

text \<open>The loop over the continuation bytes: the result and the advanced pointer.\<close>

fun utf8_tail :: "bytes \<Rightarrow> nat \<Rightarrow> nat \<Rightarrow> uint32_t \<Rightarrow> uint32_t \<Rightarrow> (uint32_t \<times> nat) option" where
  "utf8_tail m p 0 u valid = Some (if u > valid then u else 0xffffffff, p)"
| "utf8_tail m p (Suc len) u valid = do {
     c \<leftarrow> rd m p;
     let i = (ucast c :: uint32_t);
     if i < 0x80 then Some (0xffffffff, p + 1)
     else utf8_tail m (p + 1) len (push_bit 6 u OR (i AND 0x3f)) valid }"

definition utf8_lead :: "uint32_t \<Rightarrow> (uint32_t \<times> uint32_t \<times> nat) option" where
  "utf8_lead u =
     (if u \<ge> 0xf0 then Some (u AND 0x07, 0xffff, 3)
      else if u \<ge> 0xe0 then Some (u AND 0x0f, 0x7ff, 2)
      else if u \<ge> 0xc2 then Some (u AND 0x1f, 0x7f, 1)
      else None)"

definition ngx_utf8_decode :: "bytes \<Rightarrow> nat \<Rightarrow> 64 word \<Rightarrow> (uint32_t \<times> nat) option" where
  "ngx_utf8_decode m p n = do {
     c \<leftarrow> rd m p;
     case utf8_lead (ucast c) of
       None \<Rightarrow> Some (0xffffffff, p + 1)
     | Some (u, valid, len) \<Rightarrow>
         if n - 1 < word_of_nat len then Some (0xfffffffe, p)
         else utf8_tail m (p + 1) len u valid }"

text \<open>The loop of \<open>ngx_utf8_length\<close>, whose body moves \<open>p\<close> or returns.\<close>

partial_function (option) utf8_length_loop ::
  "bytes \<Rightarrow> nat \<Rightarrow> nat \<Rightarrow> 64 word \<Rightarrow> 64 word \<Rightarrow> (64 word) option" where
  "utf8_length_loop m p_last p n len =
     (if p < p_last then do {
        c \<leftarrow> rd m p;
        if c < 0x80 then utf8_length_loop m p_last (p + 1) n (len + 1)
        else do {
          (u, p') \<leftarrow> ngx_utf8_decode m p n;
          if u > 0x10ffff then Some n
          else utf8_length_loop m p_last p' n (len + 1) } }
      else Some len)"

declare utf8_length_loop.simps [code]

definition ngx_utf8_length :: "bytes \<Rightarrow> nat \<Rightarrow> 64 word \<Rightarrow> (64 word) option" where
  "ngx_utf8_length m p n = utf8_length_loop m (p + unat n) p n 0"

text \<open>
  \<open>ngx_utf8_cpystrn\<close>: the bytes written behind \<open>dst\<close>. The recursion counts \<open>n\<close> down; the last
  byte, which may overwrite the byte stored in front of the check, is the terminating zero.
\<close>

fun utf8_cpystrn_loop :: "bytes \<Rightarrow> nat \<Rightarrow> nat \<Rightarrow> 64 word \<Rightarrow> bytes \<Rightarrow> bytes option" where
  "utf8_cpystrn_loop m 0 src len dst = Some (dst @ [0])"
| "utf8_cpystrn_loop m (Suc n) src len dst = do {
     c \<leftarrow> rd m src;
     if c < 0x80 then
       (if c \<noteq> 0 then utf8_cpystrn_loop m n (src + 1) (len - 1) (dst @ [c])
        else Some (dst @ [c]))
     else do {
       (u, next) \<leftarrow> ngx_utf8_decode m src len;
       if u > 0x10ffff then Some (dst @ [0])
       else utf8_cpystrn_loop m n next (len - word_of_nat (next - src))
              (dst @ take (next - src) (drop src m)) } }"

definition ngx_utf8_cpystrn :: "bytes \<Rightarrow> nat \<Rightarrow> nat \<Rightarrow> 64 word \<Rightarrow> bytes option" where
  "ngx_utf8_cpystrn m src n len =
     (if n = 0 then Some [] else utf8_cpystrn_loop m (n - 1) src len [])"

section \<open>The encoding\<close>

text \<open>The bytes of a character in UTF-8, the reference the decoder is compared with.\<close>

definition utf8_encode :: "nat \<Rightarrow> bytes" where
  "utf8_encode c =
     (if c < 0x80 then [word_of_nat c]
      else if c < 0x800 then [word_of_nat (0xc0 + c div 64), word_of_nat (0x80 + c mod 64)]
      else if c < 0x10000 then
        [word_of_nat (0xe0 + c div 4096), word_of_nat (0x80 + c div 64 mod 64),
         word_of_nat (0x80 + c mod 64)]
      else
        [word_of_nat (0xf0 + c div 262144), word_of_nat (0x80 + c div 4096 mod 64),
         word_of_nat (0x80 + c div 64 mod 64), word_of_nat (0x80 + c mod 64)])"

section \<open>Arithmetic of the decoder\<close>

lemma unat_u_char_32: "unat (ucast (c :: u_char) :: uint32_t) = unat c"
  by (simp add: unsigned_ucast_eq take_bit_nat_eq_self_iff order_less_trans [OF unat_u_char_less])

lemma unat_and_mask:
  "unat (x AND 0x3f :: uint32_t) = unat x mod 64" "unat (x AND 0x1f :: uint32_t) = unat x mod 32"
  "unat (x AND 0x0f :: uint32_t) = unat x mod 16" "unat (x AND 0x07 :: uint32_t) = unat x mod 8"
proof -
  have "x AND 0x3f = take_bit 6 x" "x AND 0x1f = take_bit 5 x" "x AND 0x0f = take_bit 4 x"
    "x AND 0x07 = take_bit 3 x"
    by (simp_all add: take_bit_eq_mask mask_numeral)
  then show "unat (x AND 0x3f) = unat x mod 64" "unat (x AND 0x1f) = unat x mod 32"
    "unat (x AND 0x0f) = unat x mod 16" "unat (x AND 0x07) = unat x mod 8"
    by (simp_all add: take_bit_eq_mod unat_mod)
qed

lemma unat_utf8_shift:
  assumes "unat (u :: uint32_t) < 2 ^ 26"
  shows "unat (push_bit 6 u OR (x AND 0x3f)) = 64 * unat u + unat x mod 64"
proof -
  have "push_bit 6 u OR (x AND 0x3f) = push_bit 6 u + (x AND 0x3f)"
  proof (rule disjunctive_add [symmetric])
    fix n
    have "x AND 0x3f = take_bit 6 x" by (simp add: take_bit_eq_mask mask_numeral)
    then show "\<not> bit (push_bit 6 u) n \<or> \<not> bit (x AND 0x3f) n"
      by (auto simp: bit_simps)
  qed
  moreover have "unat (push_bit 6 u) = 64 * unat u"
    using assms by (simp add: push_bit_eq_mult unat_word_ariths)
  moreover have "64 * unat u + unat x mod 64 < 2 ^ 32" using assms by simp
  ultimately show ?thesis
    by (simp add: unat_word_ariths unat_and_mask)
qed

text \<open>The continuation bytes read from \<open>p\<close> on; the value they give to the lead \<open>u\<close>.\<close>

lemma utf8_tail_bounds:
  "\<lbrakk>p + len \<le> length m; len \<le> 3; unat u * 64 ^ len + 64 ^ len \<le> 2 ^ 32\<rbrakk> \<Longrightarrow>
   \<exists>v q. utf8_tail m p len u valid = Some (v, q) \<and> p \<le> q \<and> q \<le> p + len \<and>
     (v \<noteq> 0xffffffff \<longrightarrow> q = p + len \<and> v > valid \<and> unat v < unat u * 64 ^ len + 64 ^ len)"
proof (induction m p len u valid rule: utf8_tail.induct)
  case (1 m p u valid)
  then show ?case by simp
next
  case (2 m p len u valid)
  let ?c = "m ! p"
  let ?u = "push_bit 6 u OR (ucast ?c AND 0x3f)"
  have p: "p < length m" using 2(2) by simp
  show ?case
  proof (cases "ucast ?c < (0x80 :: uint32_t)")
    case True
    then show ?thesis using p by simp
  next
    case False
    have "64 * (unat u * 64 ^ len + 64 ^ len) \<le> 2 ^ 32" using 2(4) by (simp add: algebra_simps)
    moreover have "unat u + 1 \<le> unat u * 64 ^ len + 64 ^ len"
      by (metis add_mono mult.right_neutral mult_le_mono2 one_le_numeral one_le_power)
    ultimately have u: "unat u < 2 ^ 26" by simp
    have v: "unat ?u = 64 * unat u + unat ?c mod 64"
      using unat_utf8_shift [OF u] by (simp add: unat_u_char_32)
    have "unat ?u * 64 ^ len + 64 ^ len \<le> (64 * unat u + 63) * 64 ^ len + 64 ^ len"
      unfolding v by (intro add_mono mult_le_mono1) auto
    also have "\<dots> = unat u * 64 ^ Suc len + 64 ^ Suc len" by (simp add: algebra_simps)
    finally have le: "unat ?u * 64 ^ len + 64 ^ len \<le> unat u * 64 ^ Suc len + 64 ^ Suc len" .
    obtain w q where "utf8_tail m (p + 1) len ?u valid = Some (w, q)" "p + 1 \<le> q" "q \<le> p + 1 + len"
      "w \<noteq> 0xffffffff \<longrightarrow> q = p + 1 + len \<and> w > valid \<and> unat w < unat ?u * 64 ^ len + 64 ^ len"
      using 2(1) [of ?c "ucast ?c"] False p 2(2-4) le by force
    then show ?thesis using False p le by auto
  qed
qed

text \<open>
  C20. \<open>ngx_utf8_decode\<close> called with the number of bytes that are left reads only those, and does
  not move past them. A value it accepts, at most \<open>0x10ffff\<close>, is at least \<open>0x80\<close> and was written
  in the shortest form: as many bytes were read as its encoding has.
\<close>

theorem ngx_utf8_decode_safe:
  assumes "0 < n" and "p + unat n \<le> length m"
  shows "\<exists>u q. ngx_utf8_decode m p n = Some (u, q) \<and> p \<le> q \<and> q \<le> p + unat n \<and>
    (u \<le> 0x10ffff \<longrightarrow> 0x80 \<le> u \<and> q = p + length (utf8_encode (unat u)))"
proof -
  have n: "0 < unat n" using assms(1) by (simp add: word_less_nat_alt)
  then have p: "p < length m" using assms(2) by linarith
  have n1: "unat (n - 1) = unat n - 1"
    using n by (intro unat_minus_one) (simp add: unat_gt_0)
  let ?c = "ucast (m ! p) :: uint32_t"
  have c: "unat ?c < 256" by (simp add: unat_u_char_32 unat_u_char_less)
  show ?thesis
  proof (cases "utf8_lead ?c")
    case None
    then show ?thesis using n p by (simp add: ngx_utf8_decode_def word_le_nat_alt)
  next
    case (Some t)
    obtain u valid len where t: "t = (u, valid, len)" by (cases t)
    have lead: "len = 3 \<and> valid = 0xffff \<and> unat u < 8 \<or> len = 2 \<and> valid = 0x7ff \<and> unat u < 16 \<or>
        len = 1 \<and> valid = 0x7f \<and> unat u < 32"
      using Some t by (auto simp: utf8_lead_def unat_and_mask split: if_splits)
    show ?thesis
    proof (cases "n - 1 < word_of_nat len")
      case True
      then show ?thesis using Some t p n by (simp add: ngx_utf8_decode_def word_le_nat_alt)
    next
      case False
      then have len: "len \<le> unat n - 1"
        using n1 lead by (auto simp: word_less_nat_alt)
      obtain v q where "utf8_tail m (p + 1) len u valid = Some (v, q)" "p + 1 \<le> q" "q \<le> p + 1 + len"
        and vq: "v \<noteq> 0xffffffff \<longrightarrow> q = p + 1 + len \<and> v > valid \<and> unat v < unat u * 64 ^ len + 64 ^ len"
        using utf8_tail_bounds [of "p + 1" len m u valid] lead len assms(2) n by fastforce
      moreover have "0x80 \<le> v \<and> q = p + length (utf8_encode (unat v))" if "v \<le> 0x10ffff"
      proof -
        have "v \<noteq> 0xffffffff" using that by auto
        with vq lead show ?thesis
          by (elim disjE) (auto simp: utf8_encode_def word_less_nat_alt word_le_nat_alt)
      qed
      ultimately show ?thesis
        using Some t p len n False by (auto simp: ngx_utf8_decode_def)
    qed
  qed
qed

theorem ngx_utf8_decode_safe_witness:
  "\<exists>u q. ngx_utf8_decode [0xc3, 0xa9] 0 2 = Some (u, q) \<and> q \<le> 2 \<and> u = 0xe9"
proof -
  have "ngx_utf8_decode [0xc3, 0xa9] 0 2 = Some (0xe9, 2)" by code_simp
  then show ?thesis using ngx_utf8_decode_safe [of 2 0 "[0xc3, 0xa9]"] by auto
qed

section \<open>Decoding what was encoded\<close>

lemma ucast_byte_less: "\<not> ucast (word_of_nat k :: u_char) < (0x80 :: uint32_t)"
  if "128 \<le> k" "k < 256"
  using that by (simp add: word_less_nat_alt unat_u_char_32 unsigned_of_nat take_bit_nat_eq_self)

lemma unat_byte: "k < 256 \<Longrightarrow> unat (word_of_nat k :: u_char) = k"
  by (simp add: unsigned_of_nat take_bit_nat_eq_self)

lemma unat_32: "k < 2 ^ 32 \<Longrightarrow> unat (word_of_nat k :: uint32_t) = k"
  by (simp add: unsigned_of_nat take_bit_nat_eq_self)

lemma mod_base: "k < b \<Longrightarrow> (b * q + k) mod b = (k :: nat)"
  by simp

text \<open>One continuation byte.\<close>

lemma utf8_tail_byte:
  assumes "p < length m" "m ! p = word_of_nat (0x80 + j)" "j < 64" "unat u < 2 ^ 26"
  shows "utf8_tail m p (Suc len) u valid =
    utf8_tail m (p + 1) len (word_of_nat (64 * unat u + j)) valid"
proof -
  let ?c = "word_of_nat (0x80 + j) :: u_char"
  have "(0x80 + j) mod 64 = j" using mod_base [of j 64 2] assms(3) by simp
  then have "unat (push_bit 6 u OR (ucast ?c AND 0x3f)) = 64 * unat u + j"
    using assms(3) unat_utf8_shift [OF assms(4), of "ucast ?c"] by (simp add: unat_u_char_32 unat_byte del: word_of_nat_push)
  then have "push_bit 6 u OR (ucast ?c AND 0x3f) = word_of_nat (64 * unat u + j)"
    using assms(3,4) by (simp add: word_unat_eq_iff unat_32 del: word_of_nat_push)
  then show ?thesis
    using assms ucast_byte_less [of "0x80 + j"] by (simp add: Let_def del: word_of_nat_push)
qed

lemma utf8_lead_byte:
  "k < 8 \<Longrightarrow> utf8_lead (ucast (word_of_nat (0xf0 + k) :: u_char)) = Some (word_of_nat k, 0xffff, 3)"
  "k < 16 \<Longrightarrow> utf8_lead (ucast (word_of_nat (0xe0 + k) :: u_char)) = Some (word_of_nat k, 0x7ff, 2)"
  "2 \<le> k \<Longrightarrow> k < 32 \<Longrightarrow> utf8_lead (ucast (word_of_nat (0xc0 + k) :: u_char)) = Some (word_of_nat k, 0x7f, 1)"
  by (auto simp: utf8_lead_def word_le_nat_alt unat_u_char_32 unat_byte word_unat_eq_iff
      unat_and_mask unat_32 simp del: word_of_nat_push)
    (use mod_base [of k 8 30] mod_base [of k 16 14] mod_base [of k 32 6] in simp_all)

lemma utf8_decode_encode:
  assumes "0x80 \<le> c" "c \<le> 0x10ffff" "m = pre @ utf8_encode c @ post" "p = length pre"
    and n: "length (utf8_encode c) \<le> unat n"
  shows "ngx_utf8_decode m p n = Some (word_of_nat c, p + length (utf8_encode c))"
proof -
  have n1: "unat (n - 1) = unat n - 1"
    using n by (intro unat_minus_one) (auto simp: utf8_encode_def split: if_splits)
  consider "c < 0x800" | "0x800 \<le> c" "c < 0x10000" | "0x10000 \<le> c" by linarith
  then show ?thesis
  proof cases
    case 1
    with assms have e: "utf8_encode c = [word_of_nat (0xc0 + c div 64), word_of_nat (0x80 + c mod 64)]"
      by (simp add: utf8_encode_def)
    have m: "p < length m" "m ! p = word_of_nat (0xc0 + c div 64)"
      "Suc p < length m" "m ! (Suc p) = word_of_nat (0x80 + c mod 64)"
      using assms(3,4) e by (simp_all add: nth_append del: word_of_nat_push)
    have "utf8_lead (ucast (m ! p)) = Some (word_of_nat (c div 64), 0x7f, 1)"
      unfolding m by (rule utf8_lead_byte) (use 1 assms(1) in linarith)+
    moreover have "\<not> n - 1 < 1" using n n1 e by (simp add: word_less_nat_alt)
    moreover have "utf8_tail m (Suc p) (Suc 0) (word_of_nat (c div 64)) 0x7f =
        Some (word_of_nat c, p + 2)"
      using 1 assms(1) m by (subst utf8_tail_byte) (auto simp: unat_32 word_less_nat_alt simp del: word_of_nat_push)
    ultimately show ?thesis using m e by (simp add: ngx_utf8_decode_def)
  next
    case 2
    then have e: "utf8_encode c = [word_of_nat (0xe0 + c div 4096),
        word_of_nat (0x80 + c div 64 mod 64), word_of_nat (0x80 + c mod 64)]"
      by (simp add: utf8_encode_def)
    have m: "p < length m" "m ! p = word_of_nat (0xe0 + c div 4096)"
      "Suc p < length m" "m ! (Suc p) = word_of_nat (0x80 + c div 64 mod 64)"
      "Suc (Suc p) < length m" "m ! (Suc (Suc p)) = word_of_nat (0x80 + c mod 64)"
      using assms(3,4) e by (simp_all add: nth_append del: word_of_nat_push)
    have "utf8_lead (ucast (m ! p)) = Some (word_of_nat (c div 4096), 0x7ff, 2)"
      unfolding m by (rule utf8_lead_byte) (use 2 in linarith)
    moreover have "\<not> n - 1 < 2" using n n1 e by (simp add: word_less_nat_alt)
    moreover have "utf8_tail m (Suc p) 2 (word_of_nat (c div 4096)) 0x7ff = Some (word_of_nat c, p + 3)"
    proof -
      have *: "64 * (c div 4096) + c div 64 mod 64 = c div 64" by (simp add: div_mult2_eq [of c 64 64, simplified])
      show ?thesis
        using 2 m unfolding numeral_2_eq_2
        by (simp add: utf8_tail_byte [where j = "c div 64 mod 64"] utf8_tail_byte [where j = "c mod 64"]
            unat_32 * word_less_nat_alt del: utf8_tail.simps(2) word_of_nat_push)
    qed
    ultimately show ?thesis using m e by (simp add: ngx_utf8_decode_def)
  next
    case 3
    then have e: "utf8_encode c = [word_of_nat (0xf0 + c div 262144),
        word_of_nat (0x80 + c div 4096 mod 64),
        word_of_nat (0x80 + c div 64 mod 64), word_of_nat (0x80 + c mod 64)]"
      by (simp add: utf8_encode_def)
    have m: "p < length m" "m ! p = word_of_nat (0xf0 + c div 262144)"
      "Suc p < length m" "m ! (Suc p) = word_of_nat (0x80 + c div 4096 mod 64)"
      "Suc (Suc p) < length m" "m ! (Suc (Suc p)) = word_of_nat (0x80 + c div 64 mod 64)"
      "Suc (Suc (Suc p)) < length m" "m ! (Suc (Suc (Suc p))) = word_of_nat (0x80 + c mod 64)"
      using assms(3,4) e by (simp_all add: nth_append del: word_of_nat_push)
    have "utf8_lead (ucast (m ! p)) = Some (word_of_nat (c div 262144), 0xffff, 3)"
      unfolding m by (rule utf8_lead_byte) (use assms(2) in linarith)
    moreover have "\<not> n - 1 < 3" using n n1 e by (simp add: word_less_nat_alt)
    moreover have "utf8_tail m (Suc p) 3 (word_of_nat (c div 262144)) 0xffff = Some (word_of_nat c, p + 4)"
    proof -
      have *: "64 * (c div 262144) + c div 4096 mod 64 = c div 4096"
        "64 * (c div 4096) + c div 64 mod 64 = c div 64"
        by (simp_all add: div_mult2_eq [of c 4096 64, simplified] div_mult2_eq [of c 64 64, simplified])
      show ?thesis
        using 3 assms(2) m unfolding numeral_3_eq_3
        by (simp add: utf8_tail_byte [where j = "c div 4096 mod 64"]
            utf8_tail_byte [where j = "c div 64 mod 64"] utf8_tail_byte [where j = "c mod 64"]
            unat_32 * word_less_nat_alt del: utf8_tail.simps(2) word_of_nat_push)
    qed
    ultimately show ?thesis using m e by (simp add: ngx_utf8_decode_def)
  qed
qed

text \<open>
  C21. \<open>ngx_utf8_decode\<close> gives back every character from \<open>0x80\<close> to \<open>0x10ffff\<close> that is encoded at the
  pointer, and moves the pointer behind it, when at least its bytes are left.
\<close>

theorem ngx_utf8_decode_encode:
  assumes "0x80 \<le> c" "c \<le> 0x10ffff" "length (utf8_encode c) \<le> unat n"
  shows "ngx_utf8_decode (pre @ utf8_encode c @ post) (length pre) n =
    Some (word_of_nat c, length pre + length (utf8_encode c))"
  using utf8_decode_encode [OF assms(1,2) refl refl assms(3)] .

theorem ngx_utf8_decode_encode_witness:
  "ngx_utf8_decode (utf8_encode 0x20ac) 0 3 = Some (0x20ac, 3)"
  using ngx_utf8_decode_encode [of "0x20ac" 3 "[]" "[]"] by (simp add: utf8_encode_def)

section \<open>Strings of characters\<close>

abbreviation utf8_bytes :: "nat list \<Rightarrow> bytes" where
  "utf8_bytes cs \<equiv> concat (map utf8_encode cs)"

lemma utf8_encode_ascii:
  assumes "c < 0x80"
  shows "utf8_encode c = [word_of_nat c]" "(word_of_nat c :: u_char) < 0x80"
  using assms by (simp_all add: utf8_encode_def word_less_nat_alt unat_byte)

lemma utf8_encode_lead:
  assumes "0x80 \<le> c" "c \<le> 0x10ffff"
  shows "\<not> hd (utf8_encode c) < 0x80" "utf8_encode c \<noteq> []"
proof -
  have "c div 64 < 32" if "c < 2048" using that by linarith
  moreover have "c div 4096 < 16" if "c < 65536" using that by linarith
  moreover have "c div 262144 < 8" using assms(2) by linarith
  ultimately show "\<not> hd (utf8_encode c) < 0x80" "utf8_encode c \<noteq> []"
    using assms
    by (auto simp: utf8_encode_def word_less_nat_alt unat_byte simp del: word_of_nat_push)
qed

lemma utf8_length_loop_valid:
  assumes "\<forall>c \<in> set cs. c \<le> 0x10ffff" "length (utf8_bytes cs) \<le> unat n"
  shows "utf8_length_loop (pre @ utf8_bytes cs @ post) (length pre + length (utf8_bytes cs))
    (length pre) n len = Some (len + word_of_nat (length cs))"
  using assms
proof (induction cs arbitrary: pre len)
  case Nil
  then show ?case by (subst utf8_length_loop.simps) simp
next
  case (Cons c cs)
  let ?m = "pre @ utf8_bytes (c # cs) @ post"
  let ?last = "length pre + length (utf8_bytes (c # cs))"
  have IH: "utf8_length_loop ?m ?last (length pre + length (utf8_encode c)) n (len + 1) =
      Some (len + word_of_nat (length (c # cs)))"
    using Cons.IH [of "pre @ utf8_encode c" "len + 1"] Cons.prems by (simp add: algebra_simps)
  have step: "utf8_length_loop ?m ?last (length pre) n len =
      utf8_length_loop ?m ?last (length pre + length (utf8_encode c)) n (len + 1)"
  proof (cases "c < 0x80")
    case True
    with utf8_encode_ascii [OF True] show ?thesis
      by (subst utf8_length_loop.simps) (simp add: nth_append)
  next
    case False
    have c: "0x80 \<le> c" "c \<le> 0x10ffff" using False Cons.prems by auto
    then obtain b bs where b: "utf8_encode c = b # bs" "\<not> b < 0x80"
      using utf8_encode_lead [OF c] by (cases "utf8_encode c") auto
    have "\<not> (word_of_nat c :: uint32_t) > 0x10ffff"
      using c by (simp add: word_less_nat_alt unat_32)
    moreover have "ngx_utf8_decode ?m (length pre) n =
        Some (word_of_nat c, length pre + length (utf8_encode c))"
      using utf8_decode_encode [OF c, of ?m pre "utf8_bytes cs @ post"] Cons.prems by simp
    ultimately show ?thesis
      using b by (subst utf8_length_loop.simps) (simp add: nth_append)
  qed
  show ?case unfolding step by (rule IH)
qed

text \<open>
  The length of a well-formed string is its number of characters.
\<close>

theorem ngx_utf8_length_valid:
  assumes "\<forall>c \<in> set cs. c \<le> 0x10ffff" "length (utf8_bytes cs) < 2 ^ 64"
  shows "ngx_utf8_length (pre @ utf8_bytes cs @ post) (length pre) (word_of_nat (length (utf8_bytes cs)))
    = Some (word_of_nat (length cs))"
proof -
  have "unat (word_of_nat (length (utf8_bytes cs)) :: 64 word) = length (utf8_bytes cs)"
    using assms(2) by (simp add: unsigned_of_nat take_bit_nat_eq_self del: length_concat)
  then show ?thesis
    using utf8_length_loop_valid [OF assms(1), of "word_of_nat (length (utf8_bytes cs))" pre post 0]
    by (simp add: ngx_utf8_length_def del: length_concat)
qed

theorem ngx_utf8_length_valid_witness:
  "ngx_utf8_length [0x61, 0xc3, 0xa9] 0 3 = Some 2"
  using ngx_utf8_length_valid [of "[0x61, 0xe9]" "[]" "[]"] by (simp add: utf8_encode_def)

text \<open>
  \<open>ngx_utf8_length\<close> passes the length of the whole string to \<open>ngx_utf8_decode\<close> and not what
  is left of it: for a string that ends within a character the decoder reads behind the end,
  here of the three bytes \<open>a a 0xe2\<close>.
\<close>

theorem ngx_utf8_length_overread:
  "ngx_utf8_length [0x61, 0x61, 0xe2] 0 3 = None \<and> ngx_utf8_decode [0x61, 0x61, 0xe2] 2 1 \<noteq> None"
  by code_simp

text \<open>
  The test of a continuation byte is \<open>i < 0x80\<close> only: bytes from \<open>0xc0\<close> on, which start a
  character of their own, are taken as continuation bytes, and a lead byte from \<open>0xf8\<close> on is
  taken as one of a four-byte character.
\<close>

theorem ngx_utf8_decode_lenient:
  "ngx_utf8_decode [0xc3, 0xe9] 0 2 = Some (0xe9, 2) \<and>
   ngx_utf8_decode [0xff, 0x90] 0 1 = Some (0xfffffffe, 0) \<and>
   ngx_utf8_decode [0xf8, 0x90, 0x80, 0x80] 0 4 = ngx_utf8_decode [0xf0, 0x90, 0x80, 0x80] 0 4"
  by code_simp

lemma utf8_cpystrn_loop_valid:
  assumes "\<forall>c \<in> set cs. 0 < c \<and> c \<le> 0x10ffff" "length (utf8_bytes cs) \<le> unat len"
  shows "utf8_cpystrn_loop (pre @ utf8_bytes cs @ 0 # post) n (length pre) len dst =
    Some (dst @ utf8_bytes (take n cs) @ [0])"
  using assms
proof (induction n arbitrary: pre cs len dst)
  case (Suc n)
  show ?case
  proof (cases cs)
    case Nil
    then show ?thesis by simp
  next
    case (Cons c cs')
    let ?m = "pre @ utf8_bytes cs @ 0 # post"
    let ?len = "len - word_of_nat (length (utf8_encode c))"
    have k: "length (utf8_encode c) \<le> unat len" using Suc.prems Cons by simp
    have k4: "length (utf8_encode c) \<le> 4" by (simp add: utf8_encode_def)
    have "unat (word_of_nat (length (utf8_encode c)) :: 64 word) = length (utf8_encode c)"
      using k4 by (simp add: unsigned_of_nat take_bit_nat_eq_self)
    then have len: "unat ?len = unat len - length (utf8_encode c)"
      using k by (subst unat_sub) (simp_all add: word_le_nat_alt)
    have IH: "utf8_cpystrn_loop ?m n (length pre + length (utf8_encode c)) ?len (dst @ utf8_encode c) =
        Some (dst @ utf8_bytes (take (Suc n) cs) @ [0])"
      using Suc.IH [of cs' ?len "pre @ utf8_encode c" "dst @ utf8_encode c"] Suc.prems len Cons by simp
    show ?thesis
    proof (cases "c < 0x80")
      case True
      have "(word_of_nat c :: u_char) \<noteq> 0"
        using Suc.prems(1) Cons True by (simp add: word_unat_eq_iff unat_byte)
      with utf8_encode_ascii [OF True] IH show ?thesis using Cons by (simp add: nth_append)
    next
      case False
      have c: "0x80 \<le> c" "c \<le> 0x10ffff" using False Suc.prems Cons by auto
      then obtain b bs where b: "utf8_encode c = b # bs" "\<not> b < 0x80"
        using utf8_encode_lead [OF c] by (cases "utf8_encode c") auto
      have "\<not> (word_of_nat c :: uint32_t) > 0x10ffff"
        using c by (simp add: word_less_nat_alt unat_32)
      moreover have "ngx_utf8_decode ?m (length pre) len =
          Some (word_of_nat c, length pre + length (utf8_encode c))"
        using utf8_decode_encode [OF c, of ?m pre "utf8_bytes cs' @ 0 # post"] k Cons by simp
      moreover have "take (length (utf8_encode c)) (drop (length pre) ?m) = utf8_encode c"
        using Cons by simp
      ultimately show ?thesis
        using b IH Cons by (simp add: nth_append)
    qed
  qed
qed simp

text \<open>
  \<open>ngx_utf8_cpystrn\<close> copies at most \<open>n - 1\<close> characters of a well-formed string, never a part
  of a character, and terminates the copy.
\<close>

theorem ngx_utf8_cpystrn_characters:
  assumes "\<forall>c \<in> set cs. 0 < c \<and> c \<le> 0x10ffff" "length (utf8_bytes cs) \<le> unat len" "0 < n"
  shows "ngx_utf8_cpystrn (pre @ utf8_bytes cs @ 0 # post) (length pre) n len =
    Some (utf8_bytes (take (n - 1) cs) @ [0])"
  using utf8_cpystrn_loop_valid [OF assms(1,2), of pre post "n - 1" "[]"] assms(3)
  by (simp add: ngx_utf8_cpystrn_def)

theorem ngx_utf8_cpystrn_characters_witness:
  "ngx_utf8_cpystrn [0xc3, 0xa9, 0x61, 0] 0 2 3 = Some [0xc3, 0xa9, 0]"
  using ngx_utf8_cpystrn_characters [of "[0xe9, 0x61]" 3 2 "[]" "[]"]
  by (simp add: utf8_encode_def)

end
