(* ===== verification/Ngx_Http_Chars.thy ===== *)
theory Ngx_Http_Chars
  imports Ngx_Prelude
begin

text \<open>
  The table \<open>usual\<close> of \<open>src/src/http/ngx_http_parse.c\<close>, which the request line parser, the URI
  normalisation and the check of unsafe URIs share.
\<close>

section \<open>The table of usual characters\<close>

definition usual :: "uint32_t list" where
  "usual = [0xffffdbfe, 0x7fff37d6, 0xffffffff, 0xffffffff,
            0xffffffff, 0xffffffff, 0xffffffff, 0xffffffff]"

definition is_usual :: "u_char \<Rightarrow> bool" where
  "is_usual ch \<longleftrightarrow> bitmap_test usual ch"

lemma usual_bits:
  "usual = map (\<lambda>ks. NOT (bits_word ks))
     [[0, 10, 13], [0, 3, 5, 11, 14, 15, 31], [], [], [], [], [], []]"
  by (simp add: usual_def bits_word_def)

lemma is_usual_iff:
  "is_usual ch \<longleftrightarrow> unat ch \<notin> {0, 10, 13, 32, 35, 37, 43, 46, 47, 63}"
  unfolding is_usual_def by (subst bitmap_test_clear [OF usual_bits]) simp_all

lemma is_usual_char:
  "is_usual ch \<longleftrightarrow> ch \<notin> {0, LF, CR, c_space, c_hash, c_percent, c_plus, c_dot, c_slash, c_quest}"
  by (simp add: is_usual_iff word_unat_eq_iff)

end
