(* ===== verification/Ngx_Http_Request_Line.thy ===== *)
theory Ngx_Http_Request_Line
  imports Ngx_Scan Ngx_Http_Chars
begin

text \<open>
  \<open>ngx_http_parse_request_line\<close> of \<open>src/src/http/ngx_http_parse.c\<close>: the state machine that
  reads the request line as it arrives. Pointers are indices into the buffer, \<open>None\<close> is
  \<open>NULL\<close>. Each \<open>case\<close> of the switch is a definition; \<open>rl_step\<close> is the switch.
\<close>

section \<open>Model\<close>

subsection \<open>Data\<close>

datatype rl_state =
    sw_start | sw_method | sw_spaces_before_uri | sw_schema | sw_schema_slash
  | sw_schema_slash_slash | sw_host | sw_port | sw_host_http_09 | sw_after_slash_in_uri
  | sw_check_uri | sw_check_uri_http_09 | sw_uri | sw_http_09 | sw_http_H | sw_http_HT
  | sw_http_HTT | sw_http_HTTP | sw_first_major_digit | sw_major_digit
  | sw_first_minor_digit | sw_minor_digit | sw_spaces_after_digit | sw_almost_done

text \<open>The return codes; \<open>Rl_Undefined\<close> is a dereference of \<open>NULL\<close>.\<close>

datatype rl_rc = Rl_OK | Rl_AGAIN | Rl_INVALID_METHOD | Rl_INVALID_REQUEST
  | Rl_INVALID_09_METHOD | Rl_Undefined

text \<open>The fields of \<open>ngx_http_request_t\<close> that the parser reads or writes.\<close>

record rl_request =
  rl_st :: rl_state
  request_start :: "nat option"
  method_end :: "nat option"
  req_method :: ngx_uint_t
  schema_start :: "nat option"
  schema_end :: "nat option"
  host_start :: "nat option"
  host_end :: "nat option"
  port_end :: "nat option"
  uri_start :: "nat option"
  uri_end :: "nat option"
  uri_ext :: "nat option"
  args_start :: "nat option"
  http_protocol :: "nat option"
  request_end :: "nat option"
  http_major :: "16 word"
  http_minor :: "16 word"
  http_version :: ngx_uint_t
  complex_uri :: bool
  quoted_uri :: bool
  plus_in_uri :: bool
  space_in_uri :: bool

definition NGX_HTTP_UNKNOWN :: ngx_uint_t where "NGX_HTTP_UNKNOWN = 0x0001"
definition NGX_HTTP_GET :: ngx_uint_t where "NGX_HTTP_GET = 0x0002"
definition NGX_HTTP_HEAD :: ngx_uint_t where "NGX_HTTP_HEAD = 0x0004"
definition NGX_HTTP_POST :: ngx_uint_t where "NGX_HTTP_POST = 0x0008"
definition NGX_HTTP_PUT :: ngx_uint_t where "NGX_HTTP_PUT = 0x0010"
definition NGX_HTTP_DELETE :: ngx_uint_t where "NGX_HTTP_DELETE = 0x0020"
definition NGX_HTTP_MKCOL :: ngx_uint_t where "NGX_HTTP_MKCOL = 0x0040"
definition NGX_HTTP_COPY :: ngx_uint_t where "NGX_HTTP_COPY = 0x0080"
definition NGX_HTTP_MOVE :: ngx_uint_t where "NGX_HTTP_MOVE = 0x0100"
definition NGX_HTTP_OPTIONS :: ngx_uint_t where "NGX_HTTP_OPTIONS = 0x0200"
definition NGX_HTTP_PROPFIND :: ngx_uint_t where "NGX_HTTP_PROPFIND = 0x0400"
definition NGX_HTTP_PROPPATCH :: ngx_uint_t where "NGX_HTTP_PROPPATCH = 0x0800"
definition NGX_HTTP_LOCK :: ngx_uint_t where "NGX_HTTP_LOCK = 0x1000"
definition NGX_HTTP_UNLOCK :: ngx_uint_t where "NGX_HTTP_UNLOCK = 0x2000"
definition NGX_HTTP_PATCH :: ngx_uint_t where "NGX_HTTP_PATCH = 0x4000"
definition NGX_HTTP_TRACE :: ngx_uint_t where "NGX_HTTP_TRACE = 0x8000"

subsection \<open>The method\<close>

text \<open>
  The macros \<open>ngx_strNcmp\<close> compare the bytes at \<open>m\<close> with a constant. The four and eight
  byte forms \<open>ngx_str3_cmp\<close> and \<open>ngx_str7_cmp\<close> include the space behind the method.
\<close>

definition ngx_str_at :: "bytes \<Rightarrow> nat \<Rightarrow> bytes \<Rightarrow> bool" where
  "ngx_str_at buf m cs \<longleftrightarrow> take (length cs) (drop m buf) = cs"

definition rl_method :: "bytes \<Rightarrow> nat \<Rightarrow> nat \<Rightarrow> ngx_uint_t \<Rightarrow> ngx_uint_t" where
  "rl_method buf m p method =
     (if p - m = 3 then
        (if ngx_str_at buf m (str ''GET '') then NGX_HTTP_GET
         else if ngx_str_at buf m (str ''PUT '') then NGX_HTTP_PUT
         else method)
      else if p - m = 4 then
        (if ngx_str_at buf (m + 1) (str ''O'') then
           (if ngx_str_at buf m (str ''POST'') then NGX_HTTP_POST
            else if ngx_str_at buf m (str ''COPY'') then NGX_HTTP_COPY
            else if ngx_str_at buf m (str ''MOVE'') then NGX_HTTP_MOVE
            else if ngx_str_at buf m (str ''LOCK'') then NGX_HTTP_LOCK
            else method)
         else
           (if ngx_str_at buf m (str ''HEAD'') then NGX_HTTP_HEAD else method))
      else if p - m = 5 then
        (let method = if ngx_str_at buf m (str ''MKCOL'') then NGX_HTTP_MKCOL else method;
             method = if ngx_str_at buf m (str ''PATCH'') then NGX_HTTP_PATCH else method;
             method = if ngx_str_at buf m (str ''TRACE'') then NGX_HTTP_TRACE else method
         in method)
      else if p - m = 6 then
        (if ngx_str_at buf m (str ''DELETE'') then NGX_HTTP_DELETE
         else if ngx_str_at buf m (str ''UNLOCK'') then NGX_HTTP_UNLOCK
         else method)
      else if p - m = 7 then
        (if ngx_str_at buf m (str ''OPTIONS '') then NGX_HTTP_OPTIONS else method)
      else if p - m = 8 then
        (if ngx_str_at buf m (str ''PROPFIND'') then NGX_HTTP_PROPFIND else method)
      else if p - m = 9 then
        (if ngx_str_at buf m (str ''PROPPATCH'') then NGX_HTTP_PROPPATCH else method)
      else method)"

subsection \<open>The switch\<close>

type_synonym rl_result = "(rl_request, unit, rl_rc) step"

text \<open>The label \<open>done\<close>.\<close>

abbreviation goto_done :: "rl_request \<Rightarrow> rl_result" where
  "goto_done r \<equiv> Goto () r"

definition rl_start :: "nat \<Rightarrow> u_char \<Rightarrow> rl_request \<Rightarrow> rl_result" where
  "rl_start p ch r =
     (let r = r\<lparr>request_start := Some p\<rparr> in
      if ch = CR \<or> ch = LF then Cont r
      else if (ch < c_A \<or> ch > c_Z) \<and> ch \<noteq> c_underscore then Return Rl_INVALID_METHOD r
      else Cont (r\<lparr>rl_st := sw_method\<rparr>))"

definition rl_in_method :: "bytes \<Rightarrow> nat \<Rightarrow> u_char \<Rightarrow> rl_request \<Rightarrow> rl_result" where
  "rl_in_method buf p ch r =
     (if ch = c_space then
        (case request_start r of
           None \<Rightarrow> Return Rl_Undefined r
         | Some m \<Rightarrow>
             Cont (r\<lparr>method_end := Some (p - 1),
                     req_method := rl_method buf m p (req_method r),
                     rl_st := sw_spaces_before_uri\<rparr>))
      else if (ch < c_A \<or> ch > c_Z) \<and> ch \<noteq> c_underscore then Return Rl_INVALID_METHOD r
      else Cont r)"

definition rl_spaces_before_uri :: "nat \<Rightarrow> u_char \<Rightarrow> rl_request \<Rightarrow> rl_result" where
  "rl_spaces_before_uri p ch r =
     (if ch = c_slash then Cont (r\<lparr>uri_start := Some p, rl_st := sw_after_slash_in_uri\<rparr>)
      else let c = ch OR 0x20 in
      if c_a \<le> c \<and> c \<le> c_z then Cont (r\<lparr>schema_start := Some p, rl_st := sw_schema\<rparr>)
      else if ch = c_space then Cont r
      else Return Rl_INVALID_REQUEST r)"

definition rl_schema :: "nat \<Rightarrow> u_char \<Rightarrow> rl_request \<Rightarrow> rl_result" where
  "rl_schema p ch r =
     (let c = ch OR 0x20 in
      if c_a \<le> c \<and> c \<le> c_z then Cont r
      else if ch = c_colon then Cont (r\<lparr>schema_end := Some p, rl_st := sw_schema_slash\<rparr>)
      else Return Rl_INVALID_REQUEST r)"

definition rl_schema_slash :: "u_char \<Rightarrow> rl_request \<Rightarrow> rl_result" where
  "rl_schema_slash ch r =
     (if ch = c_slash then Cont (r\<lparr>rl_st := sw_schema_slash_slash\<rparr>)
      else Return Rl_INVALID_REQUEST r)"

definition rl_schema_slash_slash :: "nat \<Rightarrow> u_char \<Rightarrow> rl_request \<Rightarrow> rl_result" where
  "rl_schema_slash_slash p ch r =
     (if ch = c_slash then Cont (r\<lparr>host_start := Some (p + 1), rl_st := sw_host\<rparr>)
      else Return Rl_INVALID_REQUEST r)"

definition rl_host :: "nat \<Rightarrow> u_char \<Rightarrow> rl_request \<Rightarrow> rl_result" where
  "rl_host p ch r =
     (let c = ch OR 0x20 in
      if c_a \<le> c \<and> c \<le> c_z then Cont r
      else if (c_0 \<le> ch \<and> ch \<le> c_9) \<or> ch = c_dot \<or> ch = c_minus then Cont r
      else
        (let r = r\<lparr>host_end := Some p\<rparr> in
         if ch = c_colon then Cont (r\<lparr>rl_st := sw_port\<rparr>)
         else if ch = c_slash then
           Cont (r\<lparr>uri_start := Some p, rl_st := sw_after_slash_in_uri\<rparr>)
         else if ch = c_space then
           (case schema_end r of
              None \<Rightarrow> Return Rl_Undefined r
            | Some e \<Rightarrow> Cont (r\<lparr>uri_start := Some (e + 1), uri_end := Some (e + 2),
                               rl_st := sw_host_http_09\<rparr>))
         else Return Rl_INVALID_REQUEST r))"

definition rl_port :: "nat \<Rightarrow> u_char \<Rightarrow> rl_request \<Rightarrow> rl_result" where
  "rl_port p ch r =
     (if c_0 \<le> ch \<and> ch \<le> c_9 then Cont r
      else if ch = c_slash then
        Cont (r\<lparr>port_end := Some p, uri_start := Some p, rl_st := sw_after_slash_in_uri\<rparr>)
      else if ch = c_space then
        (case schema_end r of
           None \<Rightarrow> Return Rl_Undefined r
         | Some e \<Rightarrow> Cont (r\<lparr>port_end := Some p, uri_start := Some (e + 1),
                            uri_end := Some (e + 2), rl_st := sw_host_http_09\<rparr>))
      else Return Rl_INVALID_REQUEST r)"

definition rl_host_http_09 :: "nat \<Rightarrow> u_char \<Rightarrow> rl_request \<Rightarrow> rl_result" where
  "rl_host_http_09 p ch r =
     (if ch = c_space then Cont r
      else if ch = CR then Cont (r\<lparr>http_minor := 9, rl_st := sw_almost_done\<rparr>)
      else if ch = LF then goto_done (r\<lparr>http_minor := 9\<rparr>)
      else if ch = c_H then Cont (r\<lparr>http_protocol := Some p, rl_st := sw_http_H\<rparr>)
      else Return Rl_INVALID_REQUEST r)"

definition rl_after_slash_in_uri :: "nat \<Rightarrow> u_char \<Rightarrow> rl_request \<Rightarrow> rl_result" where
  "rl_after_slash_in_uri p ch r =
     (if is_usual ch then Cont (r\<lparr>rl_st := sw_check_uri\<rparr>)
      else if ch = c_space then Cont (r\<lparr>uri_end := Some p, rl_st := sw_check_uri_http_09\<rparr>)
      else if ch = CR then
        Cont (r\<lparr>uri_end := Some p, http_minor := 9, rl_st := sw_almost_done\<rparr>)
      else if ch = LF then goto_done (r\<lparr>uri_end := Some p, http_minor := 9\<rparr>)
      else if ch = c_dot then Cont (r\<lparr>complex_uri := True, rl_st := sw_uri\<rparr>)
      else if ch = c_percent then Cont (r\<lparr>quoted_uri := True, rl_st := sw_uri\<rparr>)
      else if ch = c_slash then Cont (r\<lparr>complex_uri := True, rl_st := sw_uri\<rparr>)
      else if ch = c_quest then Cont (r\<lparr>args_start := Some (p + 1), rl_st := sw_uri\<rparr>)
      else if ch = c_hash then Cont (r\<lparr>complex_uri := True, rl_st := sw_uri\<rparr>)
      else if ch = c_plus then Cont (r\<lparr>plus_in_uri := True\<rparr>)
      else if ch = 0 then Return Rl_INVALID_REQUEST r
      else Cont (r\<lparr>rl_st := sw_check_uri\<rparr>))"

definition rl_check_uri :: "nat \<Rightarrow> u_char \<Rightarrow> rl_request \<Rightarrow> rl_result" where
  "rl_check_uri p ch r =
     (if is_usual ch then Cont r
      else if ch = c_slash then Cont (r\<lparr>uri_ext := None, rl_st := sw_after_slash_in_uri\<rparr>)
      else if ch = c_dot then Cont (r\<lparr>uri_ext := Some (p + 1)\<rparr>)
      else if ch = c_space then Cont (r\<lparr>uri_end := Some p, rl_st := sw_check_uri_http_09\<rparr>)
      else if ch = CR then
        Cont (r\<lparr>uri_end := Some p, http_minor := 9, rl_st := sw_almost_done\<rparr>)
      else if ch = LF then goto_done (r\<lparr>uri_end := Some p, http_minor := 9\<rparr>)
      else if ch = c_percent then Cont (r\<lparr>quoted_uri := True, rl_st := sw_uri\<rparr>)
      else if ch = c_quest then Cont (r\<lparr>args_start := Some (p + 1), rl_st := sw_uri\<rparr>)
      else if ch = c_hash then Cont (r\<lparr>complex_uri := True, rl_st := sw_uri\<rparr>)
      else if ch = c_plus then Cont (r\<lparr>plus_in_uri := True\<rparr>)
      else if ch = 0 then Return Rl_INVALID_REQUEST r
      else Cont r)"

definition rl_check_uri_http_09 :: "nat \<Rightarrow> u_char \<Rightarrow> rl_request \<Rightarrow> rl_result" where
  "rl_check_uri_http_09 p ch r =
     (if ch = c_space then Cont r
      else if ch = CR then Cont (r\<lparr>http_minor := 9, rl_st := sw_almost_done\<rparr>)
      else if ch = LF then goto_done (r\<lparr>http_minor := 9\<rparr>)
      else if ch = c_H then Cont (r\<lparr>http_protocol := Some p, rl_st := sw_http_H\<rparr>)
      else Cont (r\<lparr>space_in_uri := True, rl_st := sw_check_uri\<rparr>))"

definition rl_uri :: "nat \<Rightarrow> u_char \<Rightarrow> rl_request \<Rightarrow> rl_result" where
  "rl_uri p ch r =
     (if is_usual ch then Cont r
      else if ch = c_space then Cont (r\<lparr>uri_end := Some p, rl_st := sw_http_09\<rparr>)
      else if ch = CR then
        Cont (r\<lparr>uri_end := Some p, http_minor := 9, rl_st := sw_almost_done\<rparr>)
      else if ch = LF then goto_done (r\<lparr>uri_end := Some p, http_minor := 9\<rparr>)
      else if ch = c_hash then Cont (r\<lparr>complex_uri := True\<rparr>)
      else if ch = 0 then Return Rl_INVALID_REQUEST r
      else Cont r)"

definition rl_http_09 :: "nat \<Rightarrow> u_char \<Rightarrow> rl_request \<Rightarrow> rl_result" where
  "rl_http_09 p ch r =
     (if ch = c_space then Cont r
      else if ch = CR then Cont (r\<lparr>http_minor := 9, rl_st := sw_almost_done\<rparr>)
      else if ch = LF then goto_done (r\<lparr>http_minor := 9\<rparr>)
      else if ch = c_H then Cont (r\<lparr>http_protocol := Some p, rl_st := sw_http_H\<rparr>)
      else Cont (r\<lparr>space_in_uri := True, rl_st := sw_uri\<rparr>))"

text \<open>The four states that expect one fixed character of \<open>HTTP/\<close>.\<close>

definition rl_expect :: "u_char \<Rightarrow> rl_state \<Rightarrow> u_char \<Rightarrow> rl_request \<Rightarrow> rl_result" where
  "rl_expect c state ch r =
     (if ch = c then Cont (r\<lparr>rl_st := state\<rparr>) else Return Rl_INVALID_REQUEST r)"

definition rl_first_major_digit :: "u_char \<Rightarrow> rl_request \<Rightarrow> rl_result" where
  "rl_first_major_digit ch r =
     (if ch < c_1 \<or> ch > c_9 then Return Rl_INVALID_REQUEST r
      else Cont (r\<lparr>http_major := ucast ch - 48, rl_st := sw_major_digit\<rparr>))"

definition rl_major_digit :: "u_char \<Rightarrow> rl_request \<Rightarrow> rl_result" where
  "rl_major_digit ch r =
     (if ch = c_dot then Cont (r\<lparr>rl_st := sw_first_minor_digit\<rparr>)
      else if ch < c_0 \<or> ch > c_9 then Return Rl_INVALID_REQUEST r
      else Cont (r\<lparr>http_major := http_major r * 10 + ucast ch - 48\<rparr>))"

definition rl_first_minor_digit :: "u_char \<Rightarrow> rl_request \<Rightarrow> rl_result" where
  "rl_first_minor_digit ch r =
     (if ch < c_0 \<or> ch > c_9 then Return Rl_INVALID_REQUEST r
      else Cont (r\<lparr>http_minor := ucast ch - 48, rl_st := sw_minor_digit\<rparr>))"

definition rl_minor_digit :: "u_char \<Rightarrow> rl_request \<Rightarrow> rl_result" where
  "rl_minor_digit ch r =
     (if ch = CR then Cont (r\<lparr>rl_st := sw_almost_done\<rparr>)
      else if ch = LF then goto_done r
      else if ch = c_space then Cont (r\<lparr>rl_st := sw_spaces_after_digit\<rparr>)
      else if ch < c_0 \<or> ch > c_9 then Return Rl_INVALID_REQUEST r
      else Cont (r\<lparr>http_minor := http_minor r * 10 + ucast ch - 48\<rparr>))"

definition rl_spaces_after_digit :: "u_char \<Rightarrow> rl_request \<Rightarrow> rl_result" where
  "rl_spaces_after_digit ch r =
     (if ch = c_space then Cont r
      else if ch = CR then Cont (r\<lparr>rl_st := sw_almost_done\<rparr>)
      else if ch = LF then goto_done r
      else Return Rl_INVALID_REQUEST r)"

definition rl_almost_done :: "nat \<Rightarrow> u_char \<Rightarrow> rl_request \<Rightarrow> rl_result" where
  "rl_almost_done p ch r =
     (let r = r\<lparr>request_end := Some (p - 1)\<rparr> in
      if ch = LF then goto_done r else Return Rl_INVALID_REQUEST r)"

definition rl_step :: "bytes \<Rightarrow> nat \<Rightarrow> u_char \<Rightarrow> rl_request \<Rightarrow> rl_result" where
  "rl_step buf p ch r =
     (case rl_st r of
        sw_start \<Rightarrow> rl_start p ch r
      | sw_method \<Rightarrow> rl_in_method buf p ch r
      | sw_spaces_before_uri \<Rightarrow> rl_spaces_before_uri p ch r
      | sw_schema \<Rightarrow> rl_schema p ch r
      | sw_schema_slash \<Rightarrow> rl_schema_slash ch r
      | sw_schema_slash_slash \<Rightarrow> rl_schema_slash_slash p ch r
      | sw_host \<Rightarrow> rl_host p ch r
      | sw_port \<Rightarrow> rl_port p ch r
      | sw_host_http_09 \<Rightarrow> rl_host_http_09 p ch r
      | sw_after_slash_in_uri \<Rightarrow> rl_after_slash_in_uri p ch r
      | sw_check_uri \<Rightarrow> rl_check_uri p ch r
      | sw_check_uri_http_09 \<Rightarrow> rl_check_uri_http_09 p ch r
      | sw_uri \<Rightarrow> rl_uri p ch r
      | sw_http_09 \<Rightarrow> rl_http_09 p ch r
      | sw_http_H \<Rightarrow> rl_expect c_T sw_http_HT ch r
      | sw_http_HT \<Rightarrow> rl_expect c_T sw_http_HTT ch r
      | sw_http_HTT \<Rightarrow> rl_expect c_P sw_http_HTTP ch r
      | sw_http_HTTP \<Rightarrow> rl_expect c_slash sw_first_major_digit ch r
      | sw_first_major_digit \<Rightarrow> rl_first_major_digit ch r
      | sw_major_digit \<Rightarrow> rl_major_digit ch r
      | sw_first_minor_digit \<Rightarrow> rl_first_minor_digit ch r
      | sw_minor_digit \<Rightarrow> rl_minor_digit ch r
      | sw_spaces_after_digit \<Rightarrow> rl_spaces_after_digit ch r
      | sw_almost_done \<Rightarrow> rl_almost_done p ch r)"

text \<open>
  The whole function. The local variable \<open>state\<close> lives in \<open>rl_st\<close> during the loop and is
  stored back to \<open>r->state\<close> only at the end of the data and at \<open>done\<close>; \<open>b->pos\<close> is left
  alone by an early return.
\<close>

definition rl_done :: "nat \<Rightarrow> rl_request \<Rightarrow> rl_rc \<times> rl_request" where
  "rl_done p r =
     (let r = (if request_end r = None then r\<lparr>request_end := Some p\<rparr> else r);
          r = r\<lparr>http_version := ucast (http_major r) * 1000 + ucast (http_minor r),
                rl_st := sw_start\<rparr>
      in if http_version r = 9 \<and> req_method r \<noteq> NGX_HTTP_GET then (Rl_INVALID_09_METHOD, r)
         else (Rl_OK, r))"

definition ngx_http_parse_request_line ::
  "rl_request \<Rightarrow> bytes \<Rightarrow> nat \<Rightarrow> rl_rc \<times> rl_request \<times> nat" where
  "ngx_http_parse_request_line r buf pos =
     (case scan_buf rl_step buf pos r of
        Exhausted r' \<Rightarrow> (Rl_AGAIN, r', length buf)
      | Jumped _ r' p \<Rightarrow> (let (rc, r'') = rl_done p r' in (rc, r'', p + 1))
      | Returned rc r' p \<Rightarrow> (rc, r'\<lparr>rl_st := rl_st r\<rparr>, pos))"

section \<open>Feeding the parser in pieces\<close>

lemma ngx_str_at_cong:
  assumes "take n buf = take n buf'" and "m + length cs \<le> n"
  shows "ngx_str_at buf m cs = ngx_str_at buf' m cs"
proof -
  have "take (length cs) (drop m b) = take (length cs) (drop m (take n b))" for b :: bytes
    using assms(2) by (simp add: drop_take)
  then show ?thesis using assms(1) by (metis ngx_str_at_def)
qed

lemma rl_method_cong:
  assumes "take (Suc p) buf = take (Suc p) buf'"
  shows "rl_method buf m p k = rl_method buf' m p k"
proof -
  have at: "ngx_str_at buf i cs = ngx_str_at buf' i cs"
    if "m \<le> i" and "length cs + (i - m) \<le> Suc (p - m)" and "p - m \<noteq> 0" for i cs
    by (rule ngx_str_at_cong [OF assms]) (use that in simp)
  show ?thesis
    unfolding rl_method_def Let_def by (intro if_cong refl) (simp_all add: at)
qed

interpretation rl: scanner rl_step
proof
  fix p buf buf' ch and r :: rl_request
  assume "take (Suc p) buf = take (Suc p) (buf' :: bytes)"
  then have "rl_method buf m p k = rl_method buf' m p k" for m k by (rule rl_method_cong)
  then show "rl_step buf p ch r = rl_step buf' p ch r"
    by (simp add: rl_step_def rl_in_method_def split: rl_state.split option.split)
qed

lemmas rl_cases =
  rl_start_def rl_in_method_def rl_spaces_before_uri_def rl_schema_def rl_schema_slash_def
  rl_schema_slash_slash_def rl_host_def rl_port_def rl_host_http_09_def
  rl_after_slash_in_uri_def rl_check_uri_def rl_check_uri_http_09_def rl_uri_def
  rl_http_09_def rl_expect_def rl_first_major_digit_def rl_major_digit_def
  rl_first_minor_digit_def rl_minor_digit_def rl_spaces_after_digit_def rl_almost_done_def

lemma rl_step_Return:
  "rl_step buf p ch r = Return rc r' \<Longrightarrow> rc \<in> {Rl_INVALID_METHOD, Rl_INVALID_REQUEST, Rl_Undefined}"
  by (cases "rl_st r")
    (auto simp: rl_step_def rl_cases Let_def split: if_splits option.splits)

lemma rl_done_rc: "fst (rl_done p r) \<in> {Rl_OK, Rl_INVALID_09_METHOD}"
  by (simp add: rl_done_def Let_def)

text \<open>
  C3. The request line may arrive in pieces. If the data seen so far is enough for an answer,
  more data does not change it. Otherwise the parser returns \<open>NGX_AGAIN\<close> with everything
  consumed, and calling it again once more data is there gives the return code, the fields of
  the request and, unless the request is rejected, the buffer position that one call on the
  whole data gives.
\<close>

theorem ngx_http_parse_request_line_resume:
  assumes pos: "pos \<le> length buf"
    and one: "ngx_http_parse_request_line r buf pos = (rc1, r1, pos1)"
    and all: "ngx_http_parse_request_line r (buf @ rest) pos = (rc, r2, pos2)"
  shows "if rc1 \<noteq> Rl_AGAIN then (rc, r2, pos2) = (rc1, r1, pos1)
    else pos1 = length buf \<and>
      (case ngx_http_parse_request_line r1 (buf @ rest) pos1 of (rc', r', pos') \<Rightarrow>
         rc' = rc \<and> r'\<lparr>rl_st := sw_start\<rparr> = r2\<lparr>rl_st := sw_start\<rparr> \<and>
         (rc \<in> {Rl_OK, Rl_AGAIN, Rl_INVALID_09_METHOD} \<longrightarrow> r' = r2 \<and> pos' = pos2))"
proof (cases "scan_buf rl_step buf pos r")
  case (Exhausted s)
  then have "rc1 = Rl_AGAIN" "r1 = s" "pos1 = length buf"
    and whole: "scan_buf rl_step (buf @ rest) pos r = scan_buf rl_step (buf @ rest) (length buf) s"
    using one rl.scan_buf_resume [OF pos, of rest r]
    by (auto simp: ngx_http_parse_request_line_def)
  then show ?thesis
    using all by (auto simp: ngx_http_parse_request_line_def scan_buf_def Let_def
        dest!: scan_Returned_body rl_step_Return split: scanned.splits prod.splits)
next
  case (Jumped l s p)
  then show ?thesis
    using one all rl.scan_buf_resume [OF pos, of rest r] rl_done_rc [of p s]
    by (auto simp: ngx_http_parse_request_line_def split: prod.splits)
next
  case (Returned rc' s p)
  then have "rc' \<noteq> Rl_AGAIN"
    by (auto simp: scan_buf_def dest!: scan_Returned_body rl_step_Return)
  with Returned show ?thesis
    using one all rl.scan_buf_resume [OF pos, of rest r]
    by (auto simp: ngx_http_parse_request_line_def)
qed

section \<open>Where the pointers go\<close>

text \<open>A request before its first byte is parsed, as \<open>ngx_http_init_request\<close> leaves it.\<close>

definition rl_fresh :: rl_request where
  "rl_fresh = \<lparr>rl_st = sw_start, request_start = None, method_end = None, req_method = NGX_HTTP_UNKNOWN,
     schema_start = None, schema_end = None, host_start = None, host_end = None, port_end = None,
     uri_start = None, uri_end = None, uri_ext = None, args_start = None, http_protocol = None,
     request_end = None, http_major = 0, http_minor = 0, http_version = 0,
     complex_uri = False, quoted_uri = False, plus_in_uri = False, space_in_uri = False\<rparr>"

definition is_method_char :: "u_char \<Rightarrow> bool" where
  "is_method_char ch \<longleftrightarrow> c_A \<le> ch \<and> ch \<le> c_Z \<or> ch = c_underscore"

definition rl_before_uri :: "rl_state set" where
  "rl_before_uri = {sw_start, sw_method, sw_spaces_before_uri, sw_schema, sw_schema_slash,
     sw_schema_slash_slash, sw_host, sw_port}"

definition rl_in_uri :: "rl_state set" where
  "rl_in_uri = {sw_after_slash_in_uri, sw_check_uri, sw_uri}"

text \<open>
  The invariant of the loop, before the character at \<open>p\<close>: which pointers are set in which
  states, in which order they point into the data already read, and what they point at.
\<close>

definition rl_inv :: "bytes \<Rightarrow> nat \<Rightarrow> rl_request \<Rightarrow> bool" where
  "rl_inv buf p r \<longleftrightarrow>
     request_end r = None \<and>
     (rl_st r \<noteq> sw_start \<longrightarrow>
        request_start r \<noteq> None \<and> the (request_start r) < p) \<and>
     (rl_st r = sw_method \<longrightarrow>
        (\<forall>i. the (request_start r) \<le> i \<and> i < p \<longrightarrow> is_method_char (buf ! i))) \<and>
     (rl_st r \<notin> {sw_start, sw_method} \<longrightarrow>
        method_end r \<noteq> None \<and> the (request_start r) \<le> the (method_end r) \<and>
        Suc (the (method_end r)) < p \<and> buf ! Suc (the (method_end r)) = c_space \<and>
        (\<forall>i. the (request_start r) \<le> i \<and> i \<le> the (method_end r) \<longrightarrow> is_method_char (buf ! i))) \<and>
     (rl_st r = sw_schema \<longrightarrow> the (method_end r) < p) \<and>
     (rl_st r \<in> {sw_schema_slash, sw_schema_slash_slash, sw_host, sw_port} \<longrightarrow>
        schema_end r \<noteq> None \<and> Suc (the (method_end r)) < the (schema_end r)) \<and>
     (rl_st r = sw_schema_slash \<longrightarrow> p = the (schema_end r) + 1) \<and>
     (rl_st r = sw_schema_slash_slash \<longrightarrow> p = the (schema_end r) + 2 \<and> buf ! (p - 1) = c_slash) \<and>
     (rl_st r \<in> {sw_host, sw_port} \<longrightarrow>
        the (schema_end r) + 2 < p \<and> buf ! (the (schema_end r) + 1) = c_slash) \<and>
     (rl_st r \<notin> rl_before_uri \<longrightarrow>
        uri_start r \<noteq> None \<and> Suc (the (method_end r)) < the (uri_start r) \<and>
        the (uri_start r) < p \<and> buf ! the (uri_start r) = c_slash) \<and>
     (rl_st r \<notin> rl_before_uri \<union> rl_in_uri \<longrightarrow>
        uri_end r \<noteq> None \<and> the (uri_start r) < the (uri_end r) \<and> the (uri_end r) < p)"

lemma rl_inv_fresh: "rl_inv buf p rl_fresh"
  by (simp add: rl_inv_def rl_fresh_def rl_before_uri_def)

lemmas rl_inv_simps = rl_inv_def rl_before_uri_def rl_in_uri_def

lemma rl_inv_start:
  "rl_inv buf p r \<Longrightarrow> rl_st r = sw_start \<Longrightarrow> rl_start p (buf ! p) r = Cont r' \<Longrightarrow>
   rl_inv buf (Suc p) r'"
  by (auto simp: rl_start_def Let_def rl_inv_simps is_method_char_def not_less le_less_Suc_eq
      split: if_splits)

lemma rl_inv_in_method:
  "rl_inv buf p r \<Longrightarrow> rl_st r = sw_method \<Longrightarrow> rl_in_method buf p (buf ! p) r = Cont r' \<Longrightarrow>
   rl_inv buf (Suc p) r'"
  by (auto simp: rl_in_method_def rl_inv_simps is_method_char_def not_less less_Suc_eq
      split: if_splits option.splits)

lemma rl_inv_schema_part:
  assumes "rl_inv buf p r" and "rl_step buf p (buf ! p) r = Cont r'"
    and "rl_st r \<in> {sw_spaces_before_uri, sw_schema, sw_schema_slash, sw_schema_slash_slash}"
  shows "rl_inv buf (Suc p) r'"
  using assms(3,1,2)
  by (elim insertE emptyE)
    (auto simp: rl_step_def rl_spaces_before_uri_def rl_schema_def rl_schema_slash_def
      rl_schema_slash_slash_def Let_def rl_inv_simps
      split: if_splits)

lemma rl_inv_host_part:
  assumes "rl_inv buf p r" and "rl_step buf p (buf ! p) r = Cont r'"
    and "rl_st r \<in> {sw_host, sw_port}"
  shows "rl_inv buf (Suc p) r'"
  using assms(3,1,2)
  by (elim insertE emptyE)
    (auto simp: rl_step_def rl_host_def rl_port_def Let_def rl_inv_simps
      split: if_splits option.splits)

text \<open>From the URI on, a step moves only the end of the URI and what the flags describe.\<close>

lemma rl_step_frame:
  assumes "rl_step buf p ch r = Cont r'" and "rl_st r \<notin> rl_before_uri"
  shows "request_start r' = request_start r \<and> method_end r' = method_end r \<and>
    uri_start r' = uri_start r \<and> request_end r' = request_end r \<and> rl_st r' \<notin> rl_before_uri \<and>
    (uri_end r' = Some p \<or> uri_end r' = uri_end r \<and> (rl_st r \<in> rl_in_uri \<longrightarrow> rl_st r' \<in> rl_in_uri))"
  using assms
  by (cases "rl_st r")
    (simp_all add: rl_step_def rl_cases Let_def rl_before_uri_def rl_in_uri_def split: if_splits,
     auto)

lemma rl_inv_uri_part:
  assumes inv: "rl_inv buf p r" and step: "rl_step buf p (buf ! p) r = Cont r'"
    and st: "rl_st r \<notin> rl_before_uri"
  shows "rl_inv buf (Suc p) r'"
proof -
  note f = rl_step_frame [OF step st]
  have early: "q \<notin> rl_before_uri \<Longrightarrow> q \<noteq> sw_start \<and> q \<noteq> sw_method \<and> q \<noteq> sw_schema \<and>
    q \<noteq> sw_schema_slash \<and> q \<noteq> sw_schema_slash_slash \<and> q \<noteq> sw_host \<and> q \<noteq> sw_port" for q
    by (auto simp: rl_before_uri_def)
  have us: "the (uri_start r) < p" using inv st by (simp add: rl_inv_def)
  have uo: "uri_end r \<noteq> None \<and> the (uri_start r) < the (uri_end r) \<and> the (uri_end r) < p"
    if "rl_st r \<notin> rl_in_uri"
    using that inv st by (simp add: rl_inv_def)
  have ue: "uri_end r' \<noteq> None \<and> the (uri_start r') < the (uri_end r') \<and> the (uri_end r') < Suc p"
    if "rl_st r' \<notin> rl_in_uri"
    using that f us uo by (metis less_SucI lessI option.distinct(1) option.sel)
  from inv early [OF st] st have
    "request_end r = None" "request_start r \<noteq> None \<and> the (request_start r) < p"
    "method_end r \<noteq> None \<and> the (request_start r) \<le> the (method_end r) \<and>
        Suc (the (method_end r)) < p \<and> buf ! Suc (the (method_end r)) = c_space \<and>
        (\<forall>i. the (request_start r) \<le> i \<and> i \<le> the (method_end r) \<longrightarrow> is_method_char (buf ! i))"
    "uri_start r \<noteq> None \<and> Suc (the (method_end r)) < the (uri_start r) \<and>
        the (uri_start r) < p \<and> buf ! the (uri_start r) = c_slash"
    by (simp_all add: rl_inv_def)
  with f ue early [of "rl_st r'"] show ?thesis
    by (simp add: rl_inv_def less_SucI)
qed

lemma rl_inv_step:
  assumes "rl_inv buf p r" and "rl_step buf p (buf ! p) r = Cont r'"
  shows "rl_inv buf (Suc p) r'"
proof (cases "rl_st r \<in> rl_before_uri")
  case True
  then consider "rl_st r = sw_start" | "rl_st r = sw_method" | "rl_st r \<in> {sw_host, sw_port}"
    | "rl_st r \<in> {sw_spaces_before_uri, sw_schema, sw_schema_slash, sw_schema_slash_slash}"
    by (auto simp: rl_before_uri_def)
  then show ?thesis
    using assms rl_inv_start rl_inv_in_method rl_inv_schema_part rl_inv_host_part
    by cases (auto simp: rl_step_def)
qed (rule rl_inv_uri_part [OF assms])





section \<open>What the flags promise about the URI\<close>

text \<open>
  A path needs no further decoding: no escape, fragment or zero byte, and no slash followed by
  a dot or another slash.
\<close>

definition clean_path :: "bytes \<Rightarrow> nat \<Rightarrow> nat \<Rightarrow> bool" where
  "clean_path buf u e \<longleftrightarrow>
     (\<forall>i. u \<le> i \<and> i < e \<longrightarrow> buf ! i \<notin> {c_percent, c_hash, 0} \<and>
        (buf ! i = c_slash \<and> Suc i < e \<longrightarrow> buf ! Suc i \<notin> {c_dot, c_slash}))"

text \<open>The end of the path: in front of the question mark if there are arguments.\<close>

definition path_end :: "rl_request \<Rightarrow> nat" where
  "path_end r = (case args_start r of None \<Rightarrow> the (uri_end r) | Some a \<Rightarrow> a - 1)"

lemma path_end_cong:
  "args_start r' = args_start r \<Longrightarrow> uri_end r' = uri_end r \<Longrightarrow> path_end r' = path_end r"
  by (simp add: path_end_def split: option.split)

lemma clean_path_one: "buf ! u = c_slash \<Longrightarrow> clean_path buf u (Suc u)"
  by (auto simp: clean_path_def less_Suc_eq)

lemma clean_path_extend:
  assumes "clean_path buf u p" and "buf ! p \<notin> {c_percent, c_hash, 0}"
    and "buf ! (p - 1) \<noteq> c_slash \<or> buf ! p \<notin> {c_dot, c_slash}"
  shows "clean_path buf u (Suc p)"
  using assms by (auto simp: clean_path_def less_Suc_eq)

definition rl_plain :: "rl_request \<Rightarrow> bool" where
  "rl_plain r \<longleftrightarrow> \<not> complex_uri r \<and> \<not> quoted_uri r \<and> \<not> space_in_uri r"

definition rl_flag_inv :: "bytes \<Rightarrow> nat \<Rightarrow> rl_request \<Rightarrow> bool" where
  "rl_flag_inv buf p r \<longleftrightarrow>
     (rl_st r \<in> rl_before_uri \<longrightarrow> args_start r = None) \<and>
     (rl_plain r \<longrightarrow>
       (rl_st r \<in> {sw_after_slash_in_uri, sw_check_uri} \<longrightarrow>
          args_start r = None \<and> clean_path buf (the (uri_start r)) p) \<and>
       (rl_st r = sw_check_uri \<longrightarrow> buf ! (p - 1) \<noteq> c_slash) \<and>
       (rl_st r = sw_uri \<longrightarrow> args_start r \<noteq> None \<and> clean_path buf (the (uri_start r)) (path_end r)) \<and>
       (rl_st r \<notin> rl_before_uri \<union> rl_in_uri \<longrightarrow> clean_path buf (the (uri_start r)) (path_end r)))"

lemmas rl_flag_simps = rl_flag_inv_def rl_before_uri_def rl_in_uri_def rl_plain_def

lemma rl_flag_fresh: "rl_flag_inv buf p rl_fresh"
  by (simp add: rl_flag_simps rl_fresh_def)

lemma rl_flag_before_uri:
  assumes "rl_inv buf p r" and "rl_flag_inv buf p r" and "rl_step buf p (buf ! p) r = Cont r'"
    and "rl_st r \<in> rl_before_uri"
  shows "rl_flag_inv buf (Suc p) r'"
proof -
  have "args_start r = None" using assms(2,4) by (simp add: rl_flag_inv_def)
  moreover have "rl_st r \<in> {sw_host, sw_port} \<Longrightarrow> buf ! Suc (the (schema_end r)) = c_slash"
    using assms(1) by (simp add: rl_inv_def)
  ultimately show ?thesis
    using assms(3,4)
    by (cases "rl_st r")
      (auto simp: rl_step_def rl_cases Let_def rl_flag_simps path_end_def clean_path_one
        split: if_splits option.splits)
qed

text \<open>What a step within the URI does when the flags stay clear.\<close>

lemma rl_after_slash_plain:
  assumes "rl_after_slash_in_uri p ch r = Cont r'" "rl_plain r'" "rl_st r = sw_after_slash_in_uri"
  shows "rl_plain r \<and> uri_start r' = uri_start r \<and>
    (rl_st r' \<in> {sw_after_slash_in_uri, sw_check_uri} \<and> args_start r' = args_start r \<and>
       ch \<notin> {c_percent, c_hash, 0, c_dot, c_slash}
     \<or> rl_st r' = sw_uri \<and> args_start r' = Some (p + 1)
     \<or> rl_st r' \<in> {sw_check_uri_http_09, sw_almost_done} \<and> args_start r' = args_start r \<and>
       uri_end r' = Some p)"
  using assms unfolding rl_after_slash_in_uri_def rl_plain_def is_usual_char
  by (simp split: if_splits; force)

lemma rl_check_uri_plain:
  assumes "rl_check_uri p ch r = Cont r'" "rl_plain r'" "rl_st r = sw_check_uri"
  shows "rl_plain r \<and> uri_start r' = uri_start r \<and>
    (rl_st r' \<in> {sw_after_slash_in_uri, sw_check_uri} \<and> args_start r' = args_start r \<and>
       ch \<notin> {c_percent, c_hash, 0} \<and> (ch = c_slash \<longrightarrow> rl_st r' = sw_after_slash_in_uri)
     \<or> rl_st r' = sw_uri \<and> args_start r' = Some (p + 1)
     \<or> rl_st r' \<in> {sw_check_uri_http_09, sw_almost_done} \<and> args_start r' = args_start r \<and>
       uri_end r' = Some p)"
  using assms unfolding rl_check_uri_def rl_plain_def is_usual_char
  by (simp split: if_splits; force)

lemma rl_uri_plain:
  assumes "rl_uri p ch r = Cont r'" "rl_plain r'" "rl_st r = sw_uri"
  shows "rl_plain r \<and> uri_start r' = uri_start r \<and> args_start r' = args_start r \<and>
    rl_st r' \<in> {sw_uri, sw_http_09, sw_almost_done}"
  using assms unfolding rl_uri_def rl_plain_def by (simp split: if_splits; force)

lemma rl_uri_steps_st:
  "rl_after_slash_in_uri p ch r = Cont r' \<Longrightarrow> rl_st r = sw_after_slash_in_uri \<Longrightarrow> rl_st r' \<notin> rl_before_uri"
  "rl_check_uri p ch r = Cont r' \<Longrightarrow> rl_st r = sw_check_uri \<Longrightarrow> rl_st r' \<notin> rl_before_uri"
  "rl_uri p ch r = Cont r' \<Longrightarrow> rl_st r = sw_uri \<Longrightarrow> rl_st r' \<notin> rl_before_uri"
  unfolding rl_after_slash_in_uri_def rl_check_uri_def rl_uri_def rl_before_uri_def
  by (simp split: if_splits; force)+

lemma rl_flag_after_slash:
  assumes "rl_flag_inv buf p r" and "rl_after_slash_in_uri p (buf ! p) r = Cont r'"
    and "rl_st r = sw_after_slash_in_uri"
  shows "rl_flag_inv buf (Suc p) r'"
proof (cases "rl_plain r'")
  case True
  note step = rl_after_slash_plain [OF assms(2) True assms(3)]
  have "args_start r = None" "clean_path buf (the (uri_start r)) p"
    using assms(1,3) step by (simp_all add: rl_flag_inv_def)
  with step show ?thesis
    by (auto simp: rl_flag_inv_def rl_before_uri_def rl_in_uri_def path_end_def intro: clean_path_extend)
next
  case False
  then show ?thesis using rl_uri_steps_st(1) [OF assms(2,3)] by (simp add: rl_flag_inv_def)
qed

lemma rl_flag_check_uri:
  assumes "rl_flag_inv buf p r" and "rl_check_uri p (buf ! p) r = Cont r'"
    and "rl_st r = sw_check_uri"
  shows "rl_flag_inv buf (Suc p) r'"
proof (cases "rl_plain r'")
  case True
  note step = rl_check_uri_plain [OF assms(2) True assms(3)]
  have "args_start r = None" "clean_path buf (the (uri_start r)) p" "buf ! (p - 1) \<noteq> c_slash"
    using assms(1,3) step by (simp_all add: rl_flag_inv_def)
  with step show ?thesis
    by (auto simp: rl_flag_inv_def rl_before_uri_def rl_in_uri_def path_end_def intro: clean_path_extend)
next
  case False
  then show ?thesis using rl_uri_steps_st(2) [OF assms(2,3)] by (simp add: rl_flag_inv_def)
qed

lemma rl_flag_uri:
  assumes "rl_flag_inv buf p r" and "rl_uri p (buf ! p) r = Cont r'" and "rl_st r = sw_uri"
  shows "rl_flag_inv buf (Suc p) r'"
proof (cases "rl_plain r'")
  case True
  note step = rl_uri_plain [OF assms(2) True assms(3)]
  then obtain a where "args_start r = Some a" "clean_path buf (the (uri_start r)) (path_end r)"
    using assms(1,3) by (auto simp: rl_flag_inv_def)
  with step show ?thesis
    by (auto simp: rl_flag_inv_def rl_before_uri_def rl_in_uri_def path_end_def)
next
  case False
  then show ?thesis using rl_uri_steps_st(3) [OF assms(2,3)] by (simp add: rl_flag_inv_def)
qed

lemma rl_step_after_uri:
  assumes "rl_step buf p ch r = Cont r'" and "rl_st r \<notin> rl_before_uri \<union> rl_in_uri"
  shows "args_start r' = args_start r \<and> uri_end r' = uri_end r \<and>
    (rl_plain r' \<longrightarrow> rl_plain r \<and> rl_st r' \<notin> rl_in_uri)"
  using assms
  by (cases "rl_st r")
    (simp_all add: rl_step_def rl_cases Let_def rl_before_uri_def rl_in_uri_def rl_plain_def
      split: if_splits, auto)

lemma rl_flag_after_uri:
  assumes "rl_flag_inv buf p r" and "rl_step buf p (buf ! p) r = Cont r'"
    and "rl_st r \<notin> rl_before_uri \<union> rl_in_uri"
  shows "rl_flag_inv buf (Suc p) r'"
proof -
  have "rl_plain r \<longrightarrow> clean_path buf (the (uri_start r)) (path_end r)"
    using assms(1,3) by (simp add: rl_flag_inv_def)
  then show ?thesis
    using rl_step_after_uri [OF assms(2,3)] rl_step_frame [OF assms(2)] assms(3)
      path_end_cong [of r' r]
    by (auto simp: rl_flag_inv_def rl_in_uri_def)
qed

lemma rl_flag_step:
  assumes "rl_inv buf p r" and "rl_flag_inv buf p r" and "rl_step buf p (buf ! p) r = Cont r'"
  shows "rl_flag_inv buf (Suc p) r'"
proof -
  consider "rl_st r \<in> rl_before_uri" | "rl_st r = sw_after_slash_in_uri" | "rl_st r = sw_check_uri"
    | "rl_st r = sw_uri" | "rl_st r \<notin> rl_before_uri \<union> rl_in_uri"
    by (auto simp: rl_in_uri_def)
  then show ?thesis
    using assms rl_flag_before_uri rl_flag_after_slash rl_flag_check_uri rl_flag_uri rl_flag_after_uri
    by cases (simp_all add: rl_step_def)
qed

lemma rl_flag_Goto:
  assumes "rl_flag_inv buf p r" and "rl_step buf p ch r = Goto l r'" and "rl_plain r'"
  shows "clean_path buf (the (uri_start r')) (path_end r')"
  using assms
  by (cases "rl_st r")
    (auto simp: rl_step_def rl_cases Let_def rl_flag_simps path_end_def
      split: if_splits option.splits)

text \<open>
  C15. If the request line is accepted and the parser raised none of \<open>complex_uri\<close>,
  \<open>quoted_uri\<close> and \<open>space_in_uri\<close>, then the path of the URI needs no normalisation: it has
  no escape, no fragment, no zero byte, no dot segment and no empty segment. This is what
  lets the caller use the bytes of the request line as the path without calling
  \<open>ngx_http_parse_complex_uri\<close>.
\<close>

theorem ngx_http_parse_request_line_flags:
  assumes "pos \<le> length buf" and "ngx_http_parse_request_line rl_fresh buf pos = (rc, r, pos')"
    and "rc \<in> {Rl_OK, Rl_INVALID_09_METHOD}"
    and "\<not> complex_uri r" and "\<not> quoted_uri r" and "\<not> space_in_uri r"
  shows "clean_path buf (the (uri_start r)) (path_end r)"
proof (cases "scan_buf rl_step buf pos rl_fresh")
  case (Exhausted s)
  then show ?thesis using assms(2,3) by (auto simp: ngx_http_parse_request_line_def)
next
  case (Returned rc' s q)
  then have "rc' \<notin> {Rl_OK, Rl_INVALID_09_METHOD}"
    by (auto simp: scan_buf_def dest!: scan_Returned_body rl_step_Return)
  then show ?thesis using Returned assms(2,3) by (auto simp: ngx_http_parse_request_line_def)
next
  case (Jumped l s q)
  have "case scan_buf rl_step buf pos rl_fresh of
      Exhausted r' \<Rightarrow> rl_inv buf (length buf) r' \<and> rl_flag_inv buf (length buf) r'
    | Jumped l r' q \<Rightarrow> pos \<le> q \<and> q < length buf \<and>
        (\<exists>t. (rl_inv buf q t \<and> rl_flag_inv buf q t) \<and> rl_step buf q (buf ! q) t = Goto l r')
    | Returned rc r' q \<Rightarrow> pos \<le> q \<and> q < length buf \<and>
        (\<exists>t. (rl_inv buf q t \<and> rl_flag_inv buf q t) \<and> rl_step buf q (buf ! q) t = Return rc r')"
    unfolding scan_buf_def
    by (rule scan_invariant)
      (use assms(1) rl_inv_step rl_flag_step rl_inv_fresh rl_flag_fresh in auto)
  with Jumped obtain t where "rl_flag_inv buf q t" "rl_step buf q (buf ! q) t = Goto l s" by auto
  moreover have "uri_start r = uri_start s \<and> args_start r = args_start s \<and>
      uri_end r = uri_end s \<and> rl_plain s"
    using assms Jumped
    by (auto simp: ngx_http_parse_request_line_def rl_done_def Let_def rl_plain_def
        split: if_splits)
  ultimately show ?thesis using rl_flag_Goto path_end_cong by metis
qed

text \<open>A request line and what the parser makes of it, for the witnesses.\<close>

definition rl_sample :: bytes where
  "rl_sample = str ''GET /a.b?c HTTP/1.1'' @ [CR, LF]"

definition rl_sample_result :: rl_request where
  "rl_sample_result = rl_fresh\<lparr>request_start := Some 0, method_end := Some 2,
     req_method := NGX_HTTP_GET, uri_start := Some 4, uri_end := Some 10, uri_ext := Some 7,
     args_start := Some 9, http_protocol := Some 11, request_end := Some 19,
     http_major := 1, http_minor := 1, http_version := 1001\<rparr>"

lemma rl_sample_run:
  "ngx_http_parse_request_line rl_fresh rl_sample 0 = (Rl_OK, rl_sample_result, 21)"
  by code_simp

theorem ngx_http_parse_request_line_flags_witness:
  "clean_path rl_sample 4 8"
  using ngx_http_parse_request_line_flags [OF _ rl_sample_run]
  by (simp add: rl_sample_result_def rl_fresh_def path_end_def)


theorem ngx_http_parse_request_line_resume_witness:
  "case ngx_http_parse_request_line rl_fresh (take 9 rl_sample) 0 of (rc1, r1, pos1) \<Rightarrow>
     rc1 = Rl_AGAIN \<and> pos1 = 9 \<and>
     ngx_http_parse_request_line r1 rl_sample pos1 = (Rl_OK, rl_sample_result, 21)"
proof -
  obtain rc1 r1 pos1 where
    one: "ngx_http_parse_request_line rl_fresh (take 9 rl_sample) 0 = (rc1, r1, pos1)"
    by (cases "ngx_http_parse_request_line rl_fresh (take 9 rl_sample) 0") auto
  have "fst (ngx_http_parse_request_line rl_fresh (take 9 rl_sample) 0) = Rl_AGAIN" by code_simp
  with one have "rc1 = Rl_AGAIN" by simp
  moreover have "length (take 9 rl_sample) = 9" by (simp add: rl_sample_def)
  ultimately show ?thesis
    using ngx_http_parse_request_line_resume [OF _ one, of "drop 9 rl_sample"] rl_sample_run one
    by (auto split: prod.splits)
qed

text \<open>
  The promise needs \<open>space_in_uri\<close>: behind an unescaped space the parser does not look at
  the next character, so the request line \<open>GET /a /../b HTTP/1.0\<close> is accepted with the URI
  \<open>/a /../b\<close>, dot segment included, and neither \<open>complex_uri\<close> nor \<open>quoted_uri\<close> is raised.
\<close>

theorem ngx_http_parse_request_line_space_bypass:
  "case ngx_http_parse_request_line rl_fresh (str ''GET /a /../b HTTP/1.0'' @ [CR, LF]) 0 of
     (rc, r, pos) \<Rightarrow> rc = Rl_OK \<and> uri_start r = Some 4 \<and> uri_end r = Some 12 \<and>
       \<not> complex_uri r \<and> \<not> quoted_uri r \<and>
       \<not> clean_path (str ''GET /a /../b HTTP/1.0'' @ [CR, LF]) 4 12"
proof -
  have "\<not> clean_path (str ''GET /a /../b HTTP/1.0'' @ [CR, LF]) 4 12"
    unfolding clean_path_def by (intro notI, erule allE [where x = 7]) simp
  moreover have "case ngx_http_parse_request_line rl_fresh
      (str ''GET /a /../b HTTP/1.0'' @ [CR, LF]) 0 of
     (rc, r, pos) \<Rightarrow> rc = Rl_OK \<and> uri_start r = Some 4 \<and> uri_end r = Some 12 \<and>
       \<not> complex_uri r \<and> \<not> quoted_uri r" by code_simp
  ultimately show ?thesis by (auto split: prod.splits)
qed

section \<open>Reading back a written request line\<close>

text \<open>The characters a URI may hold so that the request line is split where it was composed.\<close>

definition is_uri_char :: "u_char \<Rightarrow> bool" where
  "is_uri_char ch \<longleftrightarrow> ch \<notin> {0, LF, CR, c_space}"

definition http_request_line :: "bytes \<Rightarrow> bytes \<Rightarrow> u_char \<Rightarrow> u_char \<Rightarrow> bytes" where
  "http_request_line ms uri major minor =
     ms @ [c_space] @ uri @ [c_space] @ str ''HTTP/'' @ [major, c_dot, minor, CR, LF]"

definition rl_core :: "rl_request \<Rightarrow> nat option \<times> nat option \<times> ngx_uint_t \<times> nat option \<times> nat option" where
  "rl_core r = (request_start r, method_end r, req_method r, uri_start r, request_end r)"

lemma method_char_step:
  "is_method_char ch \<Longrightarrow> \<not> (ch = CR \<or> ch = LF) \<and> ch \<noteq> c_space \<and>
     \<not> ((ch < c_A \<or> ch > c_Z) \<and> ch \<noteq> c_underscore)"
  by (auto simp: is_method_char_def)

lemma scan_method:
  assumes "list_all is_method_char ms" and "ms \<noteq> []" and "rl_st r = sw_start"
  shows "scan rl_step buf p ms r = Exhausted (r\<lparr>request_start := Some p, rl_st := sw_method\<rparr>)"
proof -
  obtain c cs where ms: "ms = c # cs" using assms(2) by (cases ms) auto
  let ?r = "r\<lparr>request_start := Some p, rl_st := sw_method\<rparr>"
  have "rl_step buf p c r = Cont ?r"
    using assms(1,3) method_char_step [of c] by (simp add: ms rl_step_def rl_start_def Let_def)
  moreover have "scan rl_step buf (Suc p) cs ?r = Exhausted ?r"
  proof (rule scan_stay)
    fix i ch assume "i < length cs" "ch = cs ! i"
    then have "is_method_char ch" using assms(1) by (auto simp: ms list_all_length)
    then show "rl_step buf (Suc p + i) ch ?r = Cont ?r"
      using method_char_step [of ch] by (simp add: rl_step_def rl_in_method_def)
  qed
  ultimately show ?thesis by (simp add: ms)
qed

lemma uri_char_step:
  assumes "is_uri_char ch" and "rl_st r \<in> rl_in_uri"
  shows "\<exists>r'. rl_step buf p ch r = Cont r' \<and> rl_st r' \<in> rl_in_uri \<and> rl_core r' = rl_core r"
proof -
  consider "rl_st r = sw_after_slash_in_uri" | "rl_st r = sw_check_uri" | "rl_st r = sw_uri"
    using assms(2) by (auto simp: rl_in_uri_def)
  then show ?thesis
    using assms(1) by cases
      (auto simp: rl_step_def rl_after_slash_in_uri_def rl_check_uri_def rl_uri_def rl_in_uri_def
        rl_core_def is_uri_char_def)
qed

lemma scan_uri:
  "list_all is_uri_char us \<Longrightarrow> rl_st r \<in> rl_in_uri \<Longrightarrow>
   \<exists>r'. scan rl_step buf p us r = Exhausted r' \<and> rl_st r' \<in> rl_in_uri \<and> rl_core r' = rl_core r"
proof (induction us arbitrary: p r)
  case (Cons c us)
  then obtain r' where "rl_step buf p c r = Cont r'" "rl_st r' \<in> rl_in_uri" "rl_core r' = rl_core r"
    using uri_char_step [of c r buf p] by auto
  moreover from this Cons obtain r'' where
    "scan rl_step buf (Suc p) us r' = Exhausted r''" "rl_st r'' \<in> rl_in_uri" "rl_core r'' = rl_core r'"
    by fastforce
  ultimately show ?case by auto
qed simp

text \<open>The version and the end of the line, from the space behind the URI.\<close>

lemma scan_version:
  assumes "rl_st r \<in> rl_in_uri" and "c_1 \<le> major" "major \<le> c_9" and "is_digit minor"
  shows "\<exists>r'. scan rl_step buf p (c_space # str ''HTTP/'' @ [major, c_dot, minor, CR, LF] @ rest) r =
       Jumped () r' (p + 10) \<and>
     request_start r' = request_start r \<and> method_end r' = method_end r \<and>
     req_method r' = req_method r \<and> uri_start r' = uri_start r \<and>
     uri_end r' = Some p \<and> request_end r' = Some (p + 9) \<and>
     http_major r' = ucast major - 48 \<and> http_minor r' = ucast minor - 48"
proof -
  have "\<not> (major < c_1 \<or> major > c_9)" "\<not> (minor < c_0 \<or> minor > c_9)" "major \<noteq> c_dot"
    using assms by (auto simp: is_digit_def)
  moreover have "minor \<noteq> CR" "minor \<noteq> LF" "minor \<noteq> c_space"
    using assms by (auto simp: is_digit_def)
  moreover have "rl_st r = sw_after_slash_in_uri \<or> rl_st r = sw_check_uri \<or> rl_st r = sw_uri"
    using assms(1) by (auto simp: rl_in_uri_def)
  moreover have "\<not> is_usual c_space" by (simp add: is_usual_char)
  ultimately show ?thesis
    by (elim disjE)
      (simp_all add: rl_step_def rl_after_slash_in_uri_def rl_check_uri_def rl_uri_def
        rl_check_uri_http_09_def rl_http_09_def rl_expect_def rl_first_major_digit_def
        rl_major_digit_def rl_first_minor_digit_def rl_minor_digit_def rl_almost_done_def Let_def)
qed

text \<open>
  C7. Round trip: a request line composed of a method, a URI that starts with a slash and has
  no space, line end or zero byte, and a version \<open>HTTP/d.d\<close>, anywhere in a buffer, is accepted
  with the pointers at the boundaries it was composed at and with the version's number.
\<close>

theorem ngx_http_parse_request_line_roundtrip:
  assumes ms: "list_all is_method_char ms" "ms \<noteq> []"
    and us: "list_all is_uri_char us"
    and ver: "c_1 \<le> major" "major \<le> c_9" "is_digit minor"
    and line_def: "line = http_request_line ms (c_slash # us) major minor"
    and u_def: "u = length pre + length ms + 1"
  shows "\<exists>r. ngx_http_parse_request_line rl_fresh (pre @ line @ post) (length pre) =
       (Rl_OK, r, length pre + length line) \<and>
     request_start r = Some (length pre) \<and> method_end r = Some (length pre + length ms - 1) \<and>
     req_method r = rl_method (pre @ line @ post) (length pre) (length pre + length ms) NGX_HTTP_UNKNOWN \<and>
     uri_start r = Some u \<and> uri_end r = Some (u + Suc (length us)) \<and>
     request_end r = Some (length pre + length line - 2) \<and>
     http_version r = word_of_nat ((unat major - 48) * 1000 + (unat minor - 48))"
proof -
  let ?b = "pre @ line @ post" and ?p = "length pre"
  let ?v = "c_space # str ''HTTP/'' @ [major, c_dot, minor, CR, LF] @ post"
  define r1 where "r1 = rl_fresh\<lparr>request_start := Some ?p, rl_st := sw_method\<rparr>"
  define r2 where "r2 = r1\<lparr>method_end := Some (?p + length ms - 1),
    req_method := rl_method ?b ?p (?p + length ms) NGX_HTTP_UNKNOWN,
    rl_st := sw_after_slash_in_uri, uri_start := Some u\<rparr>"
  have s1: "scan rl_step ?b ?p ms rl_fresh = Exhausted r1"
    unfolding r1_def by (rule scan_method) (use ms in \<open>simp_all add: rl_fresh_def\<close>)
  have s2: "scan rl_step ?b (?p + length ms) (c_space # c_slash # us @ ?v) r1 =
      scan rl_step ?b (u + 1) (us @ ?v) r2"
    by (simp add: rl_step_def rl_in_method_def rl_spaces_before_uri_def r1_def r2_def u_def rl_fresh_def)
  have "rl_st r2 \<in> rl_in_uri" by (simp add: r2_def rl_in_uri_def)
  from scan_uri [OF us this] obtain r3 where
    s3: "scan rl_step ?b (u + 1) us r2 = Exhausted r3" "rl_st r3 \<in> rl_in_uri" "rl_core r3 = rl_core r2"
    by blast
  from scan_version [OF s3(2) ver] obtain r4 where
    s4: "scan rl_step ?b (u + 1 + length us) ?v r3 = Jumped () r4 (u + 1 + length us + 10)"
      "request_start r4 = request_start r3" "method_end r4 = method_end r3"
      "req_method r4 = req_method r3" "uri_start r4 = uri_start r3"
      "uri_end r4 = Some (u + 1 + length us)" "request_end r4 = Some (u + 1 + length us + 9)"
      "http_major r4 = ucast major - 48" "http_minor r4 = ucast minor - 48"
    by blast
  have run: "scan_buf rl_step ?b ?p rl_fresh = Jumped () r4 (u + length us + 11)"
    using s1 s2 s3 s4 by (simp add: scan_buf_def line_def http_request_line_def scan_append)
  have len: "?p + length line = u + length us + 12"
    by (simp add: line_def http_request_line_def u_def)
  have dig: "ucast (ucast c - 48 :: 16 word) = (word_of_nat (unat c - 48) :: 64 word)"
    if "c_0 \<le> c" for c :: u_char
  proof -
    have "unat (ucast c :: 16 word) = unat c"
      using unat_u_char_less [of c] by (simp add: unsigned_ucast_eq take_bit_nat_eq_self_iff)
    then have "unat (ucast c - 48 :: 16 word) = unat c - 48"
      using that by (subst unat_minus_le) (simp_all add: word_nat_simps)
    then show ?thesis by (metis of_nat_unat)
  qed
  have "c_0 \<le> major" "c_0 \<le> minor"
    using ver by (auto simp: is_digit_def word_nat_simps)
  then have ver4: "ucast (http_major r4) * 1000 + ucast (http_minor r4) =
      (word_of_nat ((unat major - 48) * 1000 + (unat minor - 48)) :: 64 word)"
    by (simp add: s4 dig)
  have "unat major - 48 \<le> 9 \<and> unat minor - 48 \<le> 9 \<and> 0 < unat major - 48"
    using ver by (auto simp: is_digit_def word_nat_simps)
  then have "(word_of_nat ((unat major - 48) * 1000 + (unat minor - 48)) :: 64 word) \<noteq> word_of_nat 9"
    by (subst word_of_nat_inj_less) auto
  with run ver4 s4 s3(3) len show ?thesis
    by (simp add: ngx_http_parse_request_line_def rl_done_def Let_def rl_core_def r2_def r1_def)
qed

theorem ngx_http_parse_request_line_roundtrip_witness:
  "\<exists>r. ngx_http_parse_request_line rl_fresh
       ([] @ http_request_line (str ''PUT'') (c_slash # str ''x/../%41?q'') c_1 c_1 @ [7]) 0 =
       (Rl_OK, r, 26) \<and> uri_start r = Some 4 \<and> uri_end r = Some 15 \<and> http_version r = 1001"
proof -
  let ?line = "http_request_line (str ''PUT'') (c_slash # str ''x/../%41?q'') c_1 c_1"
  have ms: "list_all is_method_char (str ''PUT'')" "str ''PUT'' \<noteq> []"
    by (simp_all add: is_method_char_def)
  have us: "list_all is_uri_char (str ''x/../%41?q'')" by (simp add: is_uri_char_def)
  have ver: "c_1 \<le> c_1" "c_1 \<le> c_9" "is_digit c_1" by (simp_all add: is_digit_def)
  have u: "4 = length ([] :: bytes) + length (str ''PUT'') + 1" by simp
  have len: "length ?line = 26" and us_len: "4 + Suc (length (str ''x/../%41?q'')) = 15"
    by (simp_all add: http_request_line_def)
  show ?thesis
    using ngx_http_parse_request_line_roundtrip [OF ms us ver refl u, of "[7]"]
    unfolding len us_len by auto
qed

text \<open>
  The major and minor version live in 16-bit fields and are not checked while they
  grow, so a version beyond \<open>65535\<close> is taken modulo \<open>2 ^ 16\<close>: \<open>HTTP/65537.1\<close> is accepted as
  \<open>HTTP/1.1\<close>.
\<close>

theorem ngx_http_parse_request_line_version_wraps:
  "case ngx_http_parse_request_line rl_fresh (str ''GET / HTTP/65537.1'' @ [CR, LF]) 0 of
     (rc, r, pos) \<Rightarrow> rc = Rl_OK \<and> http_major r = 1 \<and> http_minor r = 1 \<and> http_version r = 1001"
  by code_simp

end
