(* ===== verification/Ngx_Http_Header_Line.thy ===== *)
theory Ngx_Http_Header_Line
  imports Ngx_Scan
begin

text \<open>
  \<open>ngx_http_parse_header_line\<close> of \<open>src/src/http/ngx_http_parse.c\<close>: one header line, its name
  hashed and lower-cased on the way. Pointers are indices into the buffer.
\<close>

section \<open>Model\<close>

datatype hl_state =
    hl_sw_start | hl_sw_name | hl_sw_space_before_value | hl_sw_value | hl_sw_space_after_value
  | hl_sw_ignore_line | hl_sw_almost_done | hl_sw_header_almost_done

datatype hl_rc = Hl_OK | Hl_AGAIN | Hl_HEADER_DONE | Hl_INVALID_HEADER | Hl_Undefined

datatype hl_label = L_done | L_header_done

text \<open>
  The fields of \<open>ngx_http_request_t\<close> that the parser uses. During the loop \<open>hl_st\<close>,
  \<open>header_hash\<close> and \<open>lowcase_index\<close> are the local variables \<open>state\<close>, \<open>hash\<close> and \<open>i\<close>.
  \<open>upstream\<close> says whether \<open>r->upstream\<close> is set.
\<close>

record hl_request =
  hl_st :: hl_state
  header_hash :: ngx_uint_t
  lowcase_index :: ngx_uint_t
  lowcase_header :: bytes
  header_name_start :: "nat option"
  header_name_end :: "nat option"
  header_start :: "nat option"
  header_end :: "nat option"
  invalid_header :: bool
  upstream :: bool

text \<open>The table \<open>lowcase\<close>, with the zero that terminates the string as its last entry.\<close>

definition lowcase_table :: bytes where
  "lowcase_table =
     replicate 32 0
     @ replicate 13 0 @ [c_minus, 0, 0] @ str ''0123456789'' @ replicate 6 0
     @ [0] @ str ''abcdefghijklmnopqrstuvwxyz'' @ replicate 5 0
     @ [0] @ str ''abcdefghijklmnopqrstuvwxyz'' @ replicate 5 0
     @ replicate 32 0 @ replicate 32 0 @ replicate 32 0 @ replicate 32 0"

definition lowcase :: "u_char \<Rightarrow> u_char" where
  "lowcase ch = lowcase_table ! unat ch"

text \<open>The macro \<open>ngx_hash\<close> of \<open>ngx_hash.h\<close>.\<close>

definition ngx_hash :: "ngx_uint_t \<Rightarrow> u_char \<Rightarrow> ngx_uint_t" where
  "ngx_hash key c = key * 31 + ucast c"

type_synonym hl_result = "(hl_request, hl_label, hl_rc) step"

text \<open>\<open>hash = ngx_hash(hash, c); r->lowcase_header[i++] = c; i &= 31\<close>\<close>

definition hl_add_char :: "u_char \<Rightarrow> hl_request \<Rightarrow> hl_request" where
  "hl_add_char c r =
     r\<lparr>header_hash := ngx_hash (header_hash r) c,
       lowcase_header := (lowcase_header r)[unat (lowcase_index r) := c],
       lowcase_index := (lowcase_index r + 1) AND 31\<rparr>"

definition hl_start :: "nat \<Rightarrow> u_char \<Rightarrow> hl_request \<Rightarrow> hl_result" where
  "hl_start p ch r =
     (let r = r\<lparr>header_name_start := Some p, invalid_header := False\<rparr> in
      if ch = CR then Cont (r\<lparr>header_end := Some p, hl_st := hl_sw_header_almost_done\<rparr>)
      else if ch = LF then Goto L_header_done (r\<lparr>header_end := Some p\<rparr>)
      else
        (let r = r\<lparr>hl_st := hl_sw_name\<rparr>; c = lowcase ch in
         if c \<noteq> 0 then
           Cont (r\<lparr>header_hash := ngx_hash 0 c, lowcase_header := (lowcase_header r)[0 := c],
                   lowcase_index := 1\<rparr>)
         else if ch = 0 then Return Hl_INVALID_HEADER r
         else Cont (r\<lparr>invalid_header := True\<rparr>)))"

definition hl_name :: "bytes \<Rightarrow> bool \<Rightarrow> nat \<Rightarrow> u_char \<Rightarrow> hl_request \<Rightarrow> hl_result" where
  "hl_name buf allow_underscores p ch r =
     (let c = lowcase ch;
          last = (if ch = 0 then Return Hl_INVALID_HEADER r
                  else Cont (r\<lparr>invalid_header := True\<rparr>))
      in
      if c \<noteq> 0 then Cont (hl_add_char c r)
      else if ch = c_underscore then
        (if allow_underscores then Cont (hl_add_char ch r)
         else Cont (r\<lparr>invalid_header := True\<rparr>))
      else if ch = c_colon then
        Cont (r\<lparr>header_name_end := Some p, hl_st := hl_sw_space_before_value\<rparr>)
      else if ch = CR then
        Cont (r\<lparr>header_name_end := Some p, header_start := Some p, header_end := Some p,
                hl_st := hl_sw_almost_done\<rparr>)
      else if ch = LF then
        Goto L_done (r\<lparr>header_name_end := Some p, header_start := Some p, header_end := Some p\<rparr>)
      else if ch = c_slash \<and> upstream r then
        (case header_name_start r of
           None \<Rightarrow> Return Hl_Undefined r
         | Some s \<Rightarrow>
             if p - s = 4 \<and> take 4 (drop s buf) = str ''HTTP''
             then Cont (r\<lparr>hl_st := hl_sw_ignore_line\<rparr>) else last)
      else last)"

definition hl_space_before_value :: "nat \<Rightarrow> u_char \<Rightarrow> hl_request \<Rightarrow> hl_result" where
  "hl_space_before_value p ch r =
     (if ch = c_space then Cont r
      else if ch = CR then
        Cont (r\<lparr>header_start := Some p, header_end := Some p, hl_st := hl_sw_almost_done\<rparr>)
      else if ch = LF then Goto L_done (r\<lparr>header_start := Some p, header_end := Some p\<rparr>)
      else if ch = 0 then Return Hl_INVALID_HEADER r
      else Cont (r\<lparr>header_start := Some p, hl_st := hl_sw_value\<rparr>))"

definition hl_value :: "nat \<Rightarrow> u_char \<Rightarrow> hl_request \<Rightarrow> hl_result" where
  "hl_value p ch r =
     (if ch = c_space then Cont (r\<lparr>header_end := Some p, hl_st := hl_sw_space_after_value\<rparr>)
      else if ch = CR then Cont (r\<lparr>header_end := Some p, hl_st := hl_sw_almost_done\<rparr>)
      else if ch = LF then Goto L_done (r\<lparr>header_end := Some p\<rparr>)
      else if ch = 0 then Return Hl_INVALID_HEADER r
      else Cont r)"

definition hl_space_after_value :: "u_char \<Rightarrow> hl_request \<Rightarrow> hl_result" where
  "hl_space_after_value ch r =
     (if ch = c_space then Cont r
      else if ch = CR then Cont (r\<lparr>hl_st := hl_sw_almost_done\<rparr>)
      else if ch = LF then Goto L_done r
      else if ch = 0 then Return Hl_INVALID_HEADER r
      else Cont (r\<lparr>hl_st := hl_sw_value\<rparr>))"

definition hl_ignore_line :: "u_char \<Rightarrow> hl_request \<Rightarrow> hl_result" where
  "hl_ignore_line ch r =
     (if ch = LF then Cont (r\<lparr>hl_st := hl_sw_start\<rparr>) else Cont r)"

definition hl_almost_done :: "u_char \<Rightarrow> hl_request \<Rightarrow> hl_result" where
  "hl_almost_done ch r =
     (if ch = LF then Goto L_done r
      else if ch = CR then Cont r
      else Return Hl_INVALID_HEADER r)"

definition hl_header_almost_done :: "u_char \<Rightarrow> hl_request \<Rightarrow> hl_result" where
  "hl_header_almost_done ch r =
     (if ch = LF then Goto L_header_done r else Return Hl_INVALID_HEADER r)"

definition hl_step :: "bool \<Rightarrow> bytes \<Rightarrow> nat \<Rightarrow> u_char \<Rightarrow> hl_request \<Rightarrow> hl_result" where
  "hl_step allow_underscores buf p ch r =
     (case hl_st r of
        hl_sw_start \<Rightarrow> hl_start p ch r
      | hl_sw_name \<Rightarrow> hl_name buf allow_underscores p ch r
      | hl_sw_space_before_value \<Rightarrow> hl_space_before_value p ch r
      | hl_sw_value \<Rightarrow> hl_value p ch r
      | hl_sw_space_after_value \<Rightarrow> hl_space_after_value ch r
      | hl_sw_ignore_line \<Rightarrow> hl_ignore_line ch r
      | hl_sw_almost_done \<Rightarrow> hl_almost_done ch r
      | hl_sw_header_almost_done \<Rightarrow> hl_header_almost_done ch r)"

text \<open>
  The whole function. \<open>r->header_hash\<close> and \<open>r->lowcase_index\<close> are stored back at the end of
  the data and at \<open>done\<close> only.
\<close>

definition ngx_http_parse_header_line ::
  "hl_request \<Rightarrow> bytes \<Rightarrow> nat \<Rightarrow> bool \<Rightarrow> hl_rc \<times> hl_request \<times> nat" where
  "ngx_http_parse_header_line r buf pos allow_underscores =
     (let unsaved = (\<lambda>r'. r'\<lparr>header_hash := header_hash r, lowcase_index := lowcase_index r\<rparr>) in
      case scan_buf (hl_step allow_underscores) buf pos r of
        Exhausted r' \<Rightarrow> (Hl_AGAIN, r', length buf)
      | Jumped L_done r' p \<Rightarrow> (Hl_OK, r'\<lparr>hl_st := hl_sw_start\<rparr>, p + 1)
      | Jumped L_header_done r' p \<Rightarrow>
          (Hl_HEADER_DONE, unsaved (r'\<lparr>hl_st := hl_sw_start\<rparr>), p + 1)
      | Returned rc r' p \<Rightarrow> (rc, unsaved (r'\<lparr>hl_st := hl_st r\<rparr>), pos))"

section \<open>Feeding the parser in pieces\<close>

lemmas hl_cases =
  hl_start_def hl_name_def hl_space_before_value_def hl_value_def hl_space_after_value_def
  hl_ignore_line_def hl_almost_done_def hl_header_almost_done_def

lemma take_drop_cong:
  assumes "take n xs = take n ys" and "k + m \<le> n"
  shows "take m (drop k xs) = take m (drop k ys)"
proof -
  have "take m (drop k zs) = take m (drop k (take n zs))" for zs :: "'a list"
    using assms(2) by (simp add: drop_take)
  then show ?thesis using assms(1) by metis
qed

lemma hl_name_cong:
  assumes "take (Suc p) buf = take (Suc p) buf'"
  shows "hl_name buf a p ch r = hl_name buf' a p ch r"
proof (cases "header_name_start r")
  case None
  then show ?thesis by (simp add: hl_name_def Let_def)
next
  case (Some s)
  show ?thesis
  proof (cases "p - s = 4")
    case True
    then have "take 4 (drop s buf) = take 4 (drop s buf')"
      by (intro take_drop_cong [OF assms]) simp
    then show ?thesis using Some by (simp add: hl_name_def Let_def)
  next
    case False
    then show ?thesis using Some by (simp add: hl_name_def Let_def)
  qed
qed

interpretation hl: scanner "hl_step allow_underscores" for allow_underscores
proof
  fix p buf buf' ch r
  assume "take (Suc p) buf = take (Suc p) (buf' :: bytes)"
  from hl_name_cong [OF this]
  have "hl_name buf allow_underscores p ch r = hl_name buf' allow_underscores p ch r" .
  then show "hl_step allow_underscores buf p ch r = hl_step allow_underscores buf' p ch r"
    by (simp add: hl_step_def split: hl_state.split)
qed

lemma hl_step_Return:
  "hl_step a buf p ch r = Return rc r' \<Longrightarrow> rc \<in> {Hl_INVALID_HEADER, Hl_Undefined}"
  by (cases "hl_st r") (auto simp: hl_step_def hl_cases Let_def split: if_splits option.splits)

text \<open>
  C10. Header lines may arrive in pieces: an answer is not changed by more data, and after
  \<open>NGX_AGAIN\<close> the parser continues to the return code, position and request that one call on
  all the data gives; only for a rejected line or the end of the header the saved scan
  variables may differ.
\<close>

theorem ngx_http_parse_header_line_resume:
  assumes pos: "pos \<le> length buf"
    and one: "ngx_http_parse_header_line r buf pos a = (rc1, r1, pos1)"
    and all: "ngx_http_parse_header_line r (buf @ rest) pos a = (rc, r2, pos2)"
  shows "if rc1 \<noteq> Hl_AGAIN then (rc, r2, pos2) = (rc1, r1, pos1)
    else pos1 = length buf \<and>
      (case ngx_http_parse_header_line r1 (buf @ rest) pos1 a of (rc', r', pos') \<Rightarrow>
         rc' = rc \<and> (rc \<in> {Hl_OK, Hl_AGAIN} \<longrightarrow> r' = r2) \<and>
         (rc \<in> {Hl_OK, Hl_AGAIN, Hl_HEADER_DONE} \<longrightarrow> pos' = pos2) \<and>
         header_name_start r' = header_name_start r2 \<and> header_name_end r' = header_name_end r2 \<and>
         header_start r' = header_start r2 \<and> header_end r' = header_end r2 \<and>
         invalid_header r' = invalid_header r2 \<and> lowcase_header r' = lowcase_header r2)"
proof (cases "scan_buf (hl_step a) buf pos r")
  case (Exhausted s)
  then have "rc1 = Hl_AGAIN" "r1 = s" "pos1 = length buf"
    and "scan_buf (hl_step a) (buf @ rest) pos r = scan_buf (hl_step a) (buf @ rest) (length buf) s"
    using one hl.scan_buf_resume [OF pos, of a rest r]
    by (auto simp: ngx_http_parse_header_line_def)
  then show ?thesis
    using all by (auto simp: ngx_http_parse_header_line_def scan_buf_def Let_def
        dest!: scan_Returned_body hl_step_Return split: scanned.splits prod.splits hl_label.splits)
next
  case (Jumped l s p)
  then show ?thesis
    using one all hl.scan_buf_resume [OF pos, of a rest r]
    by (auto simp: ngx_http_parse_header_line_def Let_def split: hl_label.splits)
next
  case (Returned rc' s p)
  then have "rc' \<noteq> Hl_AGAIN"
    by (auto simp: scan_buf_def dest!: scan_Returned_body hl_step_Return)
  with Returned show ?thesis
    using one all hl.scan_buf_resume [OF pos, of a rest r]
    by (auto simp: ngx_http_parse_header_line_def Let_def)
qed

section \<open>A well-formed header line\<close>

lemma lowcase_table_map:
  "lowcase_table = map (\<lambda>n. let c = word_of_nat n in
     if is_digit c \<or> is_upper c \<or> is_lower c \<or> c = c_minus then ngx_tolower c else 0) [0..<256]"
  by code_simp

text \<open>The table lower-cases letters, digits and the dash and rejects everything else.\<close>

lemma lowcase_spec:
  "lowcase c =
     (if is_digit c \<or> is_upper c \<or> is_lower c \<or> c = c_minus then ngx_tolower c else 0)"
  using unat_u_char_less [of c] by (simp add: lowcase_def lowcase_table_map Let_def)

definition header_name_char :: "bool \<Rightarrow> u_char \<Rightarrow> bool" where
  "header_name_char allow_underscores c \<longleftrightarrow>
     is_digit c \<or> is_upper c \<or> is_lower c \<or> c = c_minus \<or> allow_underscores \<and> c = c_underscore"

definition header_value_char :: "u_char \<Rightarrow> bool" where
  "header_value_char c \<longleftrightarrow> c \<noteq> CR \<and> c \<noteq> LF \<and> c \<noteq> 0"

definition hl_wf :: "hl_request \<Rightarrow> bool" where
  "hl_wf r \<longleftrightarrow> length (lowcase_header r) = 32 \<and> unat (lowcase_index r) < 32"

lemma lowcase_nonzero: "header_name_char False c \<Longrightarrow> lowcase c = ngx_tolower c \<and> lowcase c \<noteq> 0"
  by (auto simp: header_name_char_def lowcase_spec is_digit_def is_upper_def is_lower_def
      word_nat_simps)

lemma hl_name_char:
  assumes "hl_st r = hl_sw_name" and "header_name_char a c"
  shows "hl_step a buf p c r = Cont (hl_add_char (ngx_tolower c) r)"
proof (cases "header_name_char False c")
  case True
  then show ?thesis using assms lowcase_nonzero [OF True] by (auto simp: hl_step_def hl_name_def)
next
  case False
  then have "a" "c = c_underscore" using assms(2) by (auto simp: header_name_char_def)
  moreover have "lowcase c_underscore = 0" "ngx_tolower c_underscore = c_underscore" by code_simp+
  ultimately show ?thesis using assms by (simp add: hl_step_def hl_name_def)
qed

lemma hl_st_add_char [simp]: "hl_st (hl_add_char c r) = hl_st r"
  by (simp add: hl_add_char_def)

lemma scan_name:
  "hl_st r = hl_sw_name \<Longrightarrow> list_all (header_name_char a) cs \<Longrightarrow>
   scan (hl_step a) buf p cs r = Exhausted (fold (\<lambda>c. hl_add_char (ngx_tolower c)) cs r)"
  by (induction cs arbitrary: p r) (auto simp: hl_name_char)

lemma unat_and_31: "unat (w AND 31 :: 64 word) = unat w mod 32"
proof -
  have "w AND 31 = take_bit 5 w" by (simp add: take_bit_eq_mask mask_numeral)
  then show ?thesis by (simp add: take_bit_eq_mod unat_mod)
qed

lemma unat_lowcase_index_add:
  "unat (lowcase_index r) < 32 \<Longrightarrow>
   unat (lowcase_index (hl_add_char c r)) = Suc (unat (lowcase_index r)) mod 32"
  by (simp add: hl_add_char_def unat_and_31 unat_word_ariths)

text \<open>
  What storing the characters \<open>cs\<close> of a name does, from index \<open>i\<close> of the lower-case copy on.
\<close>

lemma fold_hl_add_char:
  assumes "hl_wf r" and "unat (lowcase_index r) + length cs \<le> 32"
  shows "\<exists>h l i. fold (\<lambda>c. hl_add_char (ngx_tolower c)) cs r =
       r\<lparr>header_hash := h, lowcase_header := l, lowcase_index := i\<rparr> \<and>
     h = fold (\<lambda>c h. ngx_hash h (ngx_tolower c)) cs (header_hash r) \<and>
     length l = 32 \<and> unat i = (unat (lowcase_index r) + length cs) mod 32 \<and>
     take (unat (lowcase_index r) + length cs) l =
       take (unat (lowcase_index r)) (lowcase_header r) @ map ngx_tolower cs"
  using assms
proof (induction cs arbitrary: r)
  case Nil
  then show ?case
    by (intro exI [of _ "header_hash r"] exI [of _ "lowcase_header r"] exI [of _ "lowcase_index r"])
      (auto simp: hl_wf_def)
next
  case (Cons c cs)
  let ?r = "hl_add_char (ngx_tolower c) r"
  let ?i = "unat (lowcase_index r)"
  have i: "?i < 32" and len: "length (lowcase_header r) = 32"
    using Cons.prems by (auto simp: hl_wf_def)
  have tk: "take (Suc ?i) (lowcase_header ?r) = take ?i (lowcase_header r) @ [ngx_tolower c]"
    using i len by (simp add: hl_add_char_def take_Suc_conv_app_nth)
  have idx: "unat (lowcase_index ?r) = Suc ?i mod 32" by (rule unat_lowcase_index_add [OF i])
  show ?case
  proof (cases "Suc ?i = 32")
    case True
    with Cons.prems have "cs = []" by simp
    with True tk idx len show ?thesis
      by (intro exI [of _ "header_hash ?r"] exI [of _ "lowcase_header ?r"]
          exI [of _ "lowcase_index ?r"]) (simp add: hl_add_char_def)
  next
    case False
    with i idx have idx': "unat (lowcase_index ?r) = Suc ?i" by simp
    have "hl_wf ?r" using idx' i False len by (simp add: hl_wf_def hl_add_char_def)
    from Cons.IH [OF this] Cons.prems(2) idx' obtain h l j where *:
      "fold (\<lambda>c. hl_add_char (ngx_tolower c)) cs ?r =
         ?r\<lparr>header_hash := h, lowcase_header := l, lowcase_index := j\<rparr>"
      "h = fold (\<lambda>c h. ngx_hash h (ngx_tolower c)) cs (header_hash ?r)" "length l = 32"
      "unat j = (Suc ?i + length cs) mod 32"
      "take (Suc ?i + length cs) l = take (Suc ?i) (lowcase_header ?r) @ map ngx_tolower cs"
      by auto
    have "?r\<lparr>header_hash := h, lowcase_header := l, lowcase_index := j\<rparr> =
        r\<lparr>header_hash := h, lowcase_header := l, lowcase_index := j\<rparr>"
      and "header_hash ?r = ngx_hash (header_hash r) (ngx_tolower c)"
      by (simp_all add: hl_add_char_def)
    with * tk show ?thesis
      by (intro exI [of _ h] exI [of _ l] exI [of _ j]) simp
  qed
qed

lemma hl_value_step:
  assumes "hl_st r \<in> {hl_sw_value, hl_sw_space_after_value}" and "header_value_char c"
  shows "\<exists>e st. hl_step a buf p c r = Cont (r\<lparr>header_end := e, hl_st := st\<rparr>) \<and>
     st = (if c = c_space then hl_sw_space_after_value else hl_sw_value)"
proof (cases "hl_st r = hl_sw_value \<and> c = c_space")
  case True
  then show ?thesis by (auto simp: hl_step_def hl_value_def)
next
  case False
  then have "hl_step a buf p c r =
      Cont (r\<lparr>header_end := header_end r,
             hl_st := if c = c_space then hl_sw_space_after_value else hl_sw_value\<rparr>)"
    using assms
    by (cases r) (auto simp: hl_step_def hl_value_def hl_space_after_value_def header_value_char_def)
  then show ?thesis by blast
qed

lemma scan_value:
  "\<lbrakk>hl_st r \<in> {hl_sw_value, hl_sw_space_after_value}; list_all header_value_char v; v \<noteq> [];
    last v \<noteq> c_space\<rbrakk> \<Longrightarrow>
   \<exists>e. scan (hl_step a) buf p v r = Exhausted (r\<lparr>header_end := e, hl_st := hl_sw_value\<rparr>)"
proof (induction v arbitrary: p r)
  case (Cons c v)
  let ?st = "if c = c_space then hl_sw_space_after_value else hl_sw_value"
  obtain e where step: "hl_step a buf p c r = Cont (r\<lparr>header_end := e, hl_st := ?st\<rparr>)"
    using hl_value_step [OF Cons.prems(1), of c a buf p] Cons.prems(2) by auto
  show ?case
  proof (cases "v = []")
    case True
    then show ?thesis using step Cons.prems(4) by auto
  next
    case False
    then obtain e' where "scan (hl_step a) buf (Suc p) v (r\<lparr>header_end := e, hl_st := ?st\<rparr>) =
        Exhausted (r\<lparr>header_end := e, hl_st := ?st\<rparr>\<lparr>header_end := e', hl_st := hl_sw_value\<rparr>)"
      using Cons.IH [of "r\<lparr>header_end := e, hl_st := ?st\<rparr>" "Suc p"] Cons.prems(2,4)
      by (cases "c = c_space") auto
    then show ?thesis using step by auto
  qed
qed simp

lemma scan_spaces:
  "hl_st r \<in> {hl_sw_space_before_value, hl_sw_space_after_value} \<Longrightarrow>
   scan (hl_step a) buf p (replicate k c_space) r = Exhausted r"
  by (rule scan_stay) (auto simp: hl_step_def hl_space_before_value_def hl_space_after_value_def)

text \<open>The end of the line after a value that ends at index \<open>p\<close>, with \<open>m\<close> spaces.\<close>

lemma scan_line_end:
  assumes "hl_st r = hl_sw_value" and "eol \<in> {[CR, LF], [LF]}"
  shows "\<exists>st. scan (hl_step a) buf p (replicate m c_space @ eol @ rest) r =
    Jumped L_done (r\<lparr>header_end := Some p, hl_st := st\<rparr>) (p + m + length eol - 1)"
proof (cases m)
  case 0
  then show ?thesis using assms
    by (cases r) (auto simp: hl_step_def hl_value_def hl_almost_done_def)
next
  case (Suc k)
  have "scan (hl_step a) buf (Suc p) (replicate k c_space)
      (r\<lparr>header_end := Some p, hl_st := hl_sw_space_after_value\<rparr>) =
      Exhausted (r\<lparr>header_end := Some p, hl_st := hl_sw_space_after_value\<rparr>)"
    by (rule scan_spaces) simp
  then show ?thesis using assms Suc
    by (auto simp: scan_append hl_step_def hl_value_def hl_space_after_value_def
        hl_almost_done_def)
qed

text \<open>
  C16. A well-formed header line, with any number of spaces around its value and either line
  end, is accepted: the four pointers delimit the name and the value, the header is not
  marked invalid, \<open>header_hash\<close> is the hash of the lower-cased name, and for a name of at
  most 32 characters \<open>lowcase_header\<close> starts with the lower-cased name.
\<close>

theorem ngx_http_parse_header_line_roundtrip:
  assumes name: "n0 # name = nm" "header_name_char False n0" "list_all (header_name_char a) name"
      "length nm \<le> 32"
    and val: "list_all header_value_char vl" "vl \<noteq> []" "hd vl \<noteq> c_space"
      "last vl \<noteq> c_space"
    and eol: "eol \<in> {[CR, LF], [LF]}"
    and r: "hl_st r = hl_sw_start" "length (lowcase_header r) = 32"
    and buf: "buf = pre @ line @ rest"
      "line = nm @ [c_colon] @ replicate k c_space @ vl @ replicate m c_space @ eol"
  shows "case ngx_http_parse_header_line r buf (length pre) a of (rc, r', pos) \<Rightarrow>
      rc = Hl_OK \<and> pos = length pre + length line \<and> hl_st r' = hl_sw_start \<and>
      header_name_start r' = Some (length pre) \<and>
      header_name_end r' = Some (length pre + length nm) \<and>
      header_start r' = Some (length pre + length nm + 1 + k) \<and>
      header_end r' = Some (length pre + length nm + 1 + k + length vl) \<and>
      \<not> invalid_header r' \<and>
      header_hash r' = fold (\<lambda>c h. ngx_hash h (ngx_tolower c)) nm 0 \<and>
      take (length nm) (lowcase_header r') = map ngx_tolower nm"
proof -
  let ?scan = "scan (hl_step a) buf"
  obtain v0 vs where v: "vl = v0 # vs" using val(2) by (cases vl) auto
  define r1 where "r1 = r\<lparr>header_name_start := Some (length pre), invalid_header := False,
    hl_st := hl_sw_name, header_hash := ngx_hash 0 (ngx_tolower n0),
    lowcase_header := (lowcase_header r)[0 := ngx_tolower n0], lowcase_index := 1\<rparr>"
  have n0: "n0 \<noteq> CR" "n0 \<noteq> LF"
    using name(2) by (auto simp: header_name_char_def is_digit_def is_upper_def is_lower_def)
  have start: "hl_step a buf (length pre) n0 r = Cont r1"
    using lowcase_nonzero [OF name(2)] n0 r(1)
    by (auto simp: hl_step_def hl_start_def r1_def Let_def)
  have wf: "hl_wf r1" using r by (simp add: r1_def hl_wf_def)
  have low0: "take (Suc 0) ((lowcase_header r)[0 := ngx_tolower n0]) = [ngx_tolower n0]"
    using r(2) by (cases "lowcase_header r") auto
  obtain h l i where nm:
    "?scan (Suc (length pre)) name r1 =
       Exhausted (r1\<lparr>header_hash := h, lowcase_header := l, lowcase_index := i\<rparr>)"
    "h = fold (\<lambda>c h. ngx_hash h (ngx_tolower c)) nm 0"
    "take (length nm) l = map ngx_tolower nm"
    using fold_hl_add_char [OF wf, of name] scan_name [of r1 a name buf "Suc (length pre)"] name low0
    by (auto simp: r1_def)
  define r2 where "r2 = r1\<lparr>header_hash := h, lowcase_header := l, lowcase_index := i,
    header_name_end := Some (length pre + length nm), hl_st := hl_sw_space_before_value\<rparr>"
  have colon: "lowcase c_colon = 0" by code_simp
  have step2: "hl_step a buf (length pre + length nm) c_colon
      (r1\<lparr>header_hash := h, lowcase_header := l, lowcase_index := i\<rparr>) = Cont r2"
    by (simp add: hl_step_def hl_name_def colon r1_def r2_def)
  have sp: "?scan q (replicate k c_space) r2 = Exhausted r2" for q
    by (rule scan_spaces) (simp add: r2_def)
  define q where "q = length pre + length nm + 1 + k"
  define r3 where "r3 = r2\<lparr>header_start := Some q, hl_st := hl_sw_value\<rparr>"
  have v0: "hl_step a buf q v0 r2 = Cont r3"
    using val by (simp add: hl_step_def hl_space_before_value_def r2_def r3_def v
        header_value_char_def)
  obtain e where vs: "?scan (Suc q) vs r3 = Exhausted (r3\<lparr>header_end := e, hl_st := hl_sw_value\<rparr>)"
  proof (cases "vs = []")
    case True
    then have "?scan (Suc q) vs r3 =
        Exhausted (r3\<lparr>header_end := header_end r3, hl_st := hl_sw_value\<rparr>)"
      by (cases r2) (simp add: r3_def)
    then show ?thesis by (rule that)
  next
    case False
    have "hl_st r3 = hl_sw_value" by (simp add: r3_def)
    with False scan_value [of r3 vs a buf "Suc q"] val show ?thesis
      using that by (auto simp: v)
  qed
  obtain st where eol': "?scan (q + length vl) (replicate m c_space @ eol @ rest)
      (r3\<lparr>header_end := e, hl_st := hl_sw_value\<rparr>) =
      Jumped L_done (r3\<lparr>header_end := e, hl_st := hl_sw_value\<rparr>\<lparr>header_end := Some (q + length vl), hl_st := st\<rparr>)
        (q + length vl + m + length eol - 1)"
    using scan_line_end [OF _ eol, of "r3\<lparr>header_end := e, hl_st := hl_sw_value\<rparr>" a buf "q + length vl" m rest]
    by (auto simp: r3_def)
  have "?scan (length pre) (line @ rest) r = ?scan (Suc (length pre)) (name @ c_colon #
      replicate k c_space @ vl @ replicate m c_space @ eol @ rest) r1"
    using start by (simp add: buf(2) flip: name(1))
  also have "\<dots> = ?scan (Suc (length pre + length nm))
      (replicate k c_space @ vl @ replicate m c_space @ eol @ rest) r2"
    using step2 by (simp add: scan_append nm(1) flip: name(1))
  also have "\<dots> = ?scan (Suc q) (vs @ replicate m c_space @ eol @ rest) r3"
    using v0 by (simp add: scan_append sp q_def v)
  also have "\<dots> = Jumped L_done (r3\<lparr>header_end := e, hl_st := hl_sw_value\<rparr>
      \<lparr>header_end := Some (q + length vl), hl_st := st\<rparr>) (q + length vl + m + length eol - 1)"
    using eol' by (simp add: scan_append vs v)
  finally have "?scan (length pre) (line @ rest) r = Jumped L_done
      (r3\<lparr>header_end := e, hl_st := hl_sw_value\<rparr>\<lparr>header_end := Some (q + length vl), hl_st := st\<rparr>)
      (q + length vl + m + length eol - 1)" .
  moreover have "length line = length nm + 1 + k + length vl + m + length eol" "length eol > 0"
    using eol by (auto simp: buf(2))
  ultimately show ?thesis
    using nm by (simp add: ngx_http_parse_header_line_def scan_buf_def buf(1) q_def r3_def r2_def
        r1_def)
qed

section \<open>Pointers and bounds\<close>

text \<open>
  The invariant of the scan: the pointers that the state relies on are set, in order and not
  behind the current character, and the lower-case copy is written inside its 32 bytes.
\<close>

definition ptr_le :: "nat option \<Rightarrow> nat option \<Rightarrow> bool" where
  "ptr_le a b \<longleftrightarrow> (case (a, b) of (Some i, Some j) \<Rightarrow> i \<le> j | _ \<Rightarrow> False)"


lemma ptr_le_Some [simp]: "ptr_le (Some i) (Some j) \<longleftrightarrow> i \<le> j"
  by (simp add: ptr_le_def)








section \<open>Examples\<close>

definition hl_fresh :: hl_request where
  "hl_fresh = \<lparr>hl_st = hl_sw_start, header_hash = 0, lowcase_index = 0,
     lowcase_header = replicate 32 0, header_name_start = None, header_name_end = None,
     header_start = None, header_end = None, invalid_header = False, upstream = False\<rparr>"

lemma hl_fresh_wf: "hl_st hl_fresh = hl_sw_start" "hl_wf hl_fresh"
  by (simp_all add: hl_fresh_def hl_wf_def)

theorem ngx_http_parse_header_line_resume_witness:
  "case ngx_http_parse_header_line hl_fresh (str ''Hos'') 0 False of (rc1, r1, pos1) \<Rightarrow>
     rc1 = Hl_AGAIN \<and> pos1 = 3 \<and>
     ngx_http_parse_header_line r1 (str ''Host: a'' @ [LF]) pos1 False =
       ngx_http_parse_header_line hl_fresh (str ''Host: a'' @ [LF]) 0 False"
proof -
  let ?one = "ngx_http_parse_header_line hl_fresh (str ''Hos'') 0 False"
  let ?all = "ngx_http_parse_header_line hl_fresh (str ''Hos'' @ str ''t: a'' @ [LF]) 0 False"
  obtain rc1 r1 pos1 rc r2 pos2 where
    one: "?one = (rc1, r1, pos1)" and all: "?all = (rc, r2, pos2)"
    by (metis prod_cases3)
  have "fst ?one = Hl_AGAIN" "fst ?all = Hl_OK" by code_simp+
  then show ?thesis
    using ngx_http_parse_header_line_resume [OF _ one all] one all by (auto split: prod.splits)
qed


theorem ngx_http_parse_header_line_roundtrip_witness:
  "case ngx_http_parse_header_line hl_fresh (str ''X_y:  a b '' @ [CR, LF]) 0 True of
     (rc, r, pos) \<Rightarrow> rc = Hl_OK \<and> header_name_end r = Some 3 \<and> header_start r = Some 6 \<and>
       header_end r = Some 9 \<and> take 3 (lowcase_header r) = str ''x_y'' \<and> pos = 12"
proof -
  have nm: "header_name_char False (of_char CHR ''X'')"
    "list_all (header_name_char True) (str ''_y'')"
    and vl: "list_all header_value_char (str ''a b'')" "hd (str ''a b'') \<noteq> c_space"
      "last (str ''a b'') \<noteq> c_space"
    and low: "map ngx_tolower (str ''X_y'') = str ''x_y''"
    by code_simp+
  have l: "length (lowcase_header hl_fresh) = 32" by (simp add: hl_fresh_def)
  show ?thesis
    using ngx_http_parse_header_line_roundtrip [OF refl nm _ vl(1) _ vl(2,3) _ hl_fresh_wf(1) l
        refl refl, of "[CR, LF]" "[]" 2 1 "[]"] low
    by (simp split: prod.splits add: eval_nat_numeral)
qed

text \<open>
  The first character of a name is looked up in \<open>lowcase\<close> only: a name that starts with an
  underscore is marked invalid even when underscores are allowed, and its hash continues the
  value \<open>h\<close> left in \<open>header_hash\<close> by the line before.
\<close>

theorem ngx_http_parse_header_line_leading_underscore:
  "case ngx_http_parse_header_line (hl_fresh\<lparr>header_hash := h\<rparr>) (str ''_a: b'' @ [LF]) 0 True of
     (rc, r, pos) \<Rightarrow> rc = Hl_OK \<and> invalid_header r \<and> header_hash r = ngx_hash h c_a"
proof -
  have "lowcase c_underscore = 0" "lowcase c_a = c_a" "lowcase c_colon = 0" by code_simp+
  then show ?thesis
    by (simp add: ngx_http_parse_header_line_def scan_buf_def hl_step_def hl_start_def hl_name_def
        hl_space_before_value_def hl_value_def hl_fresh_def hl_add_char_def)
qed

end
