(* ===== verification/Ngx_Http_Complex_Uri.thy ===== *)
theory Ngx_Http_Complex_Uri
  imports Ngx_Scan Ngx_Http_Chars "HOL-Library.Sublist"
begin

text \<open>
  \<open>ngx_http_parse_complex_uri\<close> of \<open>src/src/http/ngx_http_parse.c\<close>: unescapes the path of a
  request and removes dot segments and, on demand, repeated slashes. It reads the request
  buffer from \<open>uri_start\<close> on and writes the path to the memory \<open>r->uri.data\<close>; pointers are
  indices into the one or the other. An access outside a memory makes the model return
  \<open>None\<close>. The branches for \<open>NGX_WIN32\<close> are left out.
\<close>

section \<open>Model\<close>

datatype cu_state =
    cu_sw_usual | cu_sw_slash | cu_sw_dot | cu_sw_dot_dot | cu_sw_quoted | cu_sw_quoted_second

datatype cu_rc = Cu_OK | Cu_INVALID_REQUEST

datatype cu_label = Cu_args | Cu_done

text \<open>The local variables and the fields of the request that the function uses.\<close>

record cu_request =
  cu_st :: cu_state
  cu_quoted_state :: cu_state
  cu_decoded :: u_char
  cu_ch :: u_char
  cu_p :: nat
  cu_u :: nat
  uri_data :: bytes
  cu_uri_ext :: "nat option"
  cu_args_start :: "nat option"
  cu_plus_in_uri :: bool
  cu_quoted_uri :: bool
  uri_len :: nat
  exten :: "(nat \<times> nat) option"
  cu_args :: "(nat \<times> nat) option"

type_synonym cu_result = "(cu_request, cu_label, cu_rc) step option"

text \<open>\<open>ch = *p++\<close> and \<open>*u++ = c\<close>\<close>

definition cu_next :: "bytes \<Rightarrow> cu_request \<Rightarrow> cu_result" where
  "cu_next buf s = do {
     ch \<leftarrow> rd buf (cu_p s);
     Some (Cont (s\<lparr>cu_ch := ch, cu_p := cu_p s + 1\<rparr>)) }"

definition cu_put :: "u_char \<Rightarrow> cu_request \<Rightarrow> cu_request option" where
  "cu_put c s =
     (if cu_u s < length (uri_data s)
      then Some (s\<lparr>uri_data := (uri_data s)[cu_u s := c], cu_u := cu_u s + 1\<rparr>) else None)"

text \<open>\<open>*u++ = ch; ch = *p++\<close>\<close>

definition cu_put_next :: "bytes \<Rightarrow> cu_request \<Rightarrow> cu_result" where
  "cu_put_next buf s = do { s' \<leftarrow> cu_put (cu_ch s) s; cu_next buf s' }"

definition cu_usual :: "bytes \<Rightarrow> cu_request \<Rightarrow> cu_result" where
  "cu_usual buf s =
     (let ch = cu_ch s in
      if is_usual ch then cu_put_next buf s
      else if ch = c_slash then cu_put_next buf (s\<lparr>cu_uri_ext := None, cu_st := cu_sw_slash\<rparr>)
      else if ch = c_percent then
        cu_next buf (s\<lparr>cu_quoted_state := cu_st s, cu_st := cu_sw_quoted\<rparr>)
      else if ch = c_quest then Some (Goto Cu_args (s\<lparr>cu_args_start := Some (cu_p s)\<rparr>))
      else if ch = c_hash then Some (Goto Cu_done s)
      else if ch = c_dot then cu_put_next buf (s\<lparr>cu_uri_ext := Some (cu_u s + 1)\<rparr>)
      else if ch = c_plus then cu_put_next buf (s\<lparr>cu_plus_in_uri := True\<rparr>)
      else cu_put_next buf s)"

definition cu_slash :: "bytes \<Rightarrow> bool \<Rightarrow> cu_request \<Rightarrow> cu_result" where
  "cu_slash buf merge_slashes s =
     (let ch = cu_ch s in
      if is_usual ch then cu_put_next buf (s\<lparr>cu_st := cu_sw_usual\<rparr>)
      else if ch = c_slash then
        (if \<not> merge_slashes then cu_put_next buf s else cu_next buf s)
      else if ch = c_dot then cu_put_next buf (s\<lparr>cu_st := cu_sw_dot\<rparr>)
      else if ch = c_percent then
        cu_next buf (s\<lparr>cu_quoted_state := cu_st s, cu_st := cu_sw_quoted\<rparr>)
      else if ch = c_quest then Some (Goto Cu_args (s\<lparr>cu_args_start := Some (cu_p s)\<rparr>))
      else if ch = c_hash then Some (Goto Cu_done s)
      else if ch = c_plus then
        cu_put_next buf (s\<lparr>cu_plus_in_uri := True, cu_st := cu_sw_usual\<rparr>)
      else cu_put_next buf (s\<lparr>cu_st := cu_sw_usual\<rparr>))"

definition cu_dot :: "bytes \<Rightarrow> cu_request \<Rightarrow> cu_result" where
  "cu_dot buf s =
     (let ch = cu_ch s in
      if is_usual ch then cu_put_next buf (s\<lparr>cu_st := cu_sw_usual\<rparr>)
      else if ch = c_slash then cu_next buf (s\<lparr>cu_st := cu_sw_slash, cu_u := cu_u s - 1\<rparr>)
      else if ch = c_dot then cu_put_next buf (s\<lparr>cu_st := cu_sw_dot_dot\<rparr>)
      else if ch = c_percent then
        cu_next buf (s\<lparr>cu_quoted_state := cu_st s, cu_st := cu_sw_quoted\<rparr>)
      else if ch = c_quest then Some (Goto Cu_args (s\<lparr>cu_args_start := Some (cu_p s)\<rparr>))
      else if ch = c_hash then Some (Goto Cu_done s)
      else if ch = c_plus then
        cu_put_next buf (s\<lparr>cu_plus_in_uri := True, cu_st := cu_sw_usual\<rparr>)
      else cu_put_next buf (s\<lparr>cu_st := cu_sw_usual\<rparr>))"

text \<open>
  The loop that goes back to the slash in front of the segment to remove: \<open>Some None\<close> when
  it runs out of the path, otherwise the new \<open>u\<close>.
\<close>

function cu_back :: "bytes \<Rightarrow> int \<Rightarrow> nat option option" where
  "cu_back d u =
     (if u < 0 then Some None
      else do {
        c \<leftarrow> rd d (nat u);
        if c = c_slash then Some (Some (nat u + 1)) else cu_back d (u - 1) })"
  by pat_completeness auto

termination
  by (relation "measure (\<lambda>(d, u). nat (u + 1))") auto

declare cu_back.simps [simp del]

definition cu_dot_dot :: "bytes \<Rightarrow> cu_request \<Rightarrow> cu_result" where
  "cu_dot_dot buf s =
     (let ch = cu_ch s in
      if is_usual ch then cu_put_next buf (s\<lparr>cu_st := cu_sw_usual\<rparr>)
      else if ch = c_slash then do {
        b \<leftarrow> cu_back (uri_data s) (int (cu_u s) - 5);
        case b of
          None \<Rightarrow> Some (Return Cu_INVALID_REQUEST s)
        | Some u \<Rightarrow> cu_next buf (s\<lparr>cu_st := cu_sw_slash, cu_u := u\<rparr>) }
      else if ch = c_percent then
        cu_next buf (s\<lparr>cu_quoted_state := cu_st s, cu_st := cu_sw_quoted\<rparr>)
      else if ch = c_quest then Some (Goto Cu_args (s\<lparr>cu_args_start := Some (cu_p s)\<rparr>))
      else if ch = c_hash then Some (Goto Cu_done s)
      else if ch = c_plus then
        cu_put_next buf (s\<lparr>cu_plus_in_uri := True, cu_st := cu_sw_usual\<rparr>)
      else cu_put_next buf (s\<lparr>cu_st := cu_sw_usual\<rparr>))"

definition cu_quoted :: "bytes \<Rightarrow> cu_request \<Rightarrow> cu_result" where
  "cu_quoted buf s =
     (let s = s\<lparr>cu_quoted_uri := True\<rparr>; ch = cu_ch s; c = ch OR 0x20 in
      if c_0 \<le> ch \<and> ch \<le> c_9 then
        cu_next buf (s\<lparr>cu_decoded := ch - c_0, cu_st := cu_sw_quoted_second\<rparr>)
      else if c_a \<le> c \<and> c \<le> c_f then
        cu_next buf (s\<lparr>cu_decoded := c - c_a + 10, cu_st := cu_sw_quoted_second\<rparr>)
      else Some (Return Cu_INVALID_REQUEST s))"

definition cu_quoted_second :: "bytes \<Rightarrow> cu_request \<Rightarrow> cu_result" where
  "cu_quoted_second buf s =
     (let ch = cu_ch s; c = ch OR 0x20 in
      if c_0 \<le> ch \<and> ch \<le> c_9 then
        (let ch = push_bit 4 (cu_decoded s) + ch - c_0; s = s\<lparr>cu_ch := ch\<rparr> in
         if ch = c_percent \<or> ch = c_hash then cu_put_next buf (s\<lparr>cu_st := cu_sw_usual\<rparr>)
         else if ch = 0 then Some (Return Cu_INVALID_REQUEST s)
         else Some (Cont (s\<lparr>cu_st := cu_quoted_state s\<rparr>)))
      else if c_a \<le> c \<and> c \<le> c_f then
        (let ch = push_bit 4 (cu_decoded s) + c - c_a + 10; s = s\<lparr>cu_ch := ch\<rparr> in
         if ch = c_quest then cu_put_next buf (s\<lparr>cu_st := cu_sw_usual\<rparr>)
         else if ch = c_plus then
           Some (Cont (s\<lparr>cu_plus_in_uri := True, cu_st := cu_quoted_state s\<rparr>))
         else Some (Cont (s\<lparr>cu_st := cu_quoted_state s\<rparr>)))
      else Some (Return Cu_INVALID_REQUEST s))"

definition cu_step :: "bytes \<Rightarrow> bool \<Rightarrow> cu_request \<Rightarrow> cu_result" where
  "cu_step buf merge_slashes s =
     (case cu_st s of
        cu_sw_usual \<Rightarrow> cu_usual buf s
      | cu_sw_slash \<Rightarrow> cu_slash buf merge_slashes s
      | cu_sw_dot \<Rightarrow> cu_dot buf s
      | cu_sw_dot_dot \<Rightarrow> cu_dot_dot buf s
      | cu_sw_quoted \<Rightarrow> cu_quoted buf s
      | cu_sw_quoted_second \<Rightarrow> cu_quoted_second buf s)"

text \<open>\<open>while (p <= r->uri_end)\<close>. A loop that does not end is \<open>None\<close> as well.\<close>

partial_function (option) cu_loop :: "bytes \<Rightarrow> nat \<Rightarrow> bool \<Rightarrow> cu_request \<Rightarrow> cu_result" where
  "cu_loop buf uri_end' merge_slashes s =
     (if cu_p s \<le> uri_end' then do {
        r \<leftarrow> cu_step buf merge_slashes s;
        case r of
          Cont s' \<Rightarrow> cu_loop buf uri_end' merge_slashes s'
        | Goto l s' \<Rightarrow> Some (Goto l s')
        | Return rc s' \<Rightarrow> Some (Return rc s') }
      else Some (Goto Cu_done s))"

declare cu_loop.simps [code]

text \<open>The loop behind \<open>args\<close>: the arguments end at a fragment.\<close>

function cu_scan_args :: "bytes \<Rightarrow> nat \<Rightarrow> nat \<Rightarrow> cu_request \<Rightarrow> cu_request option" where
  "cu_scan_args buf uri_end' p s =
     (if p < uri_end' then do {
        c \<leftarrow> rd buf p;
        if c \<noteq> c_hash then cu_scan_args buf uri_end' (p + 1) s
        else
          (case cu_args_start s of
             None \<Rightarrow> None
           | Some a \<Rightarrow> Some (s\<lparr>cu_args := Some (a, p + 1 - 1 - a), cu_args_start := None\<rparr>)) }
      else Some s)"
  by pat_completeness auto

termination
  by (relation "measure (\<lambda>(buf, uri_end', p, s). uri_end' - p)") auto

declare cu_scan_args.simps [simp del]

text \<open>\<open>r->uri.len = u - r->uri.data\<close> and the extension.\<close>

definition cu_finish :: "cu_request \<Rightarrow> cu_request" where
  "cu_finish s =
     s\<lparr>uri_len := cu_u s,
       exten := (case cu_uri_ext s of None \<Rightarrow> exten s | Some e \<Rightarrow> Some (e, cu_u s - e)),
       cu_uri_ext := None\<rparr>"

definition ngx_http_parse_complex_uri ::
  "cu_request \<Rightarrow> bytes \<Rightarrow> nat \<Rightarrow> nat \<Rightarrow> bool \<Rightarrow> (cu_rc \<times> cu_request) option" where
  "ngx_http_parse_complex_uri r buf uri_start' uri_end' merge_slashes = do {
     ch \<leftarrow> rd buf uri_start';
     e \<leftarrow> cu_loop buf uri_end' merge_slashes
            (r\<lparr>cu_st := cu_sw_usual, cu_p := uri_start' + 1, cu_u := 0, cu_uri_ext := None,
               cu_args_start := None, cu_ch := ch\<rparr>);
     case e of
       Return rc s \<Rightarrow> Some (rc, s)
     | Goto Cu_done s \<Rightarrow> Some (Cu_OK, cu_finish s)
     | Goto Cu_args s \<Rightarrow> do { s' \<leftarrow> cu_scan_args buf uri_end' (cu_p s) s; Some (Cu_OK, cu_finish s') }
     | Cont s \<Rightarrow> None }"

text \<open>The path as a string.\<close>

definition uri :: "cu_request \<Rightarrow> bytes" where
  "uri r = take (uri_len r) (uri_data r)"

section \<open>The path that has been written\<close>

definition cu_out :: "cu_request \<Rightarrow> bytes" where
  "cu_out s = take (cu_u s) (uri_data s)"

text \<open>No dot segment in front of a slash and, if slashes are merged, no empty segment.\<close>

definition cu_clean :: "bool \<Rightarrow> bytes \<Rightarrow> bool" where
  "cu_clean m xs \<longleftrightarrow> \<not> sublist (str ''/./'') xs \<and> \<not> sublist (str ''/../'') xs \<and>
     (m \<longrightarrow> \<not> sublist (str ''//'') xs)"

text \<open>What each state knows of the end of the path.\<close>

fun cu_tail :: "cu_state \<Rightarrow> bytes \<Rightarrow> bool" where
  "cu_tail cu_sw_usual xs \<longleftrightarrow>
     \<not> suffix (str ''/'') xs \<and> \<not> suffix (str ''/.'') xs \<and> \<not> suffix (str ''/..'') xs"
| "cu_tail cu_sw_slash xs \<longleftrightarrow> suffix (str ''/'') xs"
| "cu_tail cu_sw_dot xs \<longleftrightarrow> suffix (str ''/.'') xs"
| "cu_tail cu_sw_dot_dot xs \<longleftrightarrow> suffix (str ''/..'') xs"
| "cu_tail _ xs \<longleftrightarrow> False"

text \<open>The state behind an escape.\<close>

definition cu_eff :: "cu_request \<Rightarrow> cu_state" where
  "cu_eff s = (if cu_st s \<in> {cu_sw_quoted, cu_sw_quoted_second} then cu_quoted_state s else cu_st s)"

lemma sublist_snoc_iff:
  "sublist (xs @ [x]) (ys @ [y]) \<longleftrightarrow> sublist (xs @ [x]) ys \<or> (x = y \<and> suffix xs ys)"
  by (auto simp: sublist_snoc)

lemma suffix_1: "suffix [a] (xs @ [x]) \<longleftrightarrow> x = a"
  by (metis append_Nil snoc_suffix_snoc suffix_bot.extremum)

lemma suffix_2: "suffix [a, b] (xs @ [x]) \<longleftrightarrow> x = b \<and> suffix [a] xs"
  using snoc_suffix_snoc [of "[a]" b xs x] by auto

lemma suffix_3: "suffix [a, b, c] (xs @ [x]) \<longleftrightarrow> x = c \<and> suffix [a, b] xs"
  using snoc_suffix_snoc [of "[a, b]" c xs x] by auto

lemma cu_clean_snoc:
  "cu_clean m (xs @ [c]) \<longleftrightarrow> cu_clean m xs \<and>
     (c = c_slash \<longrightarrow> \<not> suffix (str ''/.'') xs \<and> \<not> suffix (str ''/..'') xs \<and>
        (m \<longrightarrow> \<not> suffix (str ''/'') xs))"
  using sublist_snoc_iff [of "[c_slash]" c_slash xs c]
    sublist_snoc_iff [of "[c_slash, c_dot]" c_slash xs c]
    sublist_snoc_iff [of "[c_slash, c_dot, c_dot]" c_slash xs c]
  by (auto simp: cu_clean_def)

lemma cu_clean_take: "cu_clean m xs \<Longrightarrow> cu_clean m (take k xs)"
  unfolding cu_clean_def by (meson sublist_order.order_trans sublist_take)

lemma cu_tail_snoc:
  "cu_tail cu_sw_usual (xs @ [c]) \<longleftrightarrow> c \<noteq> c_slash \<and> (c = c_dot \<longrightarrow> \<not> suffix (str ''/'') xs \<and> \<not> suffix (str ''/.'') xs)"
  "cu_tail cu_sw_slash (xs @ [c]) \<longleftrightarrow> c = c_slash"
  "cu_tail cu_sw_dot (xs @ [c]) \<longleftrightarrow> c = c_dot \<and> suffix (str ''/'') xs"
  "cu_tail cu_sw_dot_dot (xs @ [c]) \<longleftrightarrow> c = c_dot \<and> suffix (str ''/.'') xs"
  by (auto simp: suffix_1 suffix_2 suffix_3)

lemma suffix_not_both:
  "suffix (str ''/.'') xs \<Longrightarrow> \<not> suffix (str ''/'') xs"
  "suffix (str ''/..'') xs \<Longrightarrow> \<not> suffix (str ''/'') xs"
  "suffix (str ''/..'') xs \<Longrightarrow> \<not> suffix (str ''/.'') xs"
  by (auto simp: suffix_def append_eq_append_conv2 Cons_eq_append_conv append_eq_Cons_conv)

section \<open>The invariant of the loop\<close>

definition cu_base :: "nat \<Rightarrow> nat \<Rightarrow> nat \<Rightarrow> bool \<Rightarrow> cu_request \<Rightarrow> bool" where
  "cu_base us ue n m s \<longleftrightarrow>
     cu_u s + us + 1 \<le> cu_p s \<and> cu_p s \<le> ue + 1 \<and> length (uri_data s) = n \<and>
     cu_clean m (cu_out s) \<and> (0 < cu_u s \<longrightarrow> uri_data s ! 0 = c_slash) \<and>
     (\<forall>e. cu_uri_ext s = Some e \<longrightarrow> e \<le> cu_u s) \<and> exten s = None"

definition cu_inv :: "nat \<Rightarrow> nat \<Rightarrow> nat \<Rightarrow> bool \<Rightarrow> cu_request \<Rightarrow> bool" where
  "cu_inv us ue n m s \<longleftrightarrow>
     cu_base us ue n m s \<and> cu_tail (cu_eff s) (cu_out s) \<and>
     (cu_eff s \<noteq> cu_sw_usual \<longrightarrow> cu_uri_ext s = None) \<and>
     (cu_u s = 0 \<longrightarrow> cu_st s = cu_sw_usual \<and> cu_ch s = c_slash \<and> cu_p s = us + 1)"

definition cu_measure :: "nat \<Rightarrow> cu_request \<Rightarrow> nat" where
  "cu_measure ue s = 2 * (ue + 1 - cu_p s) + (if cu_st s = cu_sw_quoted_second then 1 else 0)"

text \<open>
  One iteration is good if it makes no bad access, keeps the invariant and comes closer to
  the end, or leaves the loop with a path inside its memory.
\<close>

definition cu_good :: "nat \<Rightarrow> nat \<Rightarrow> nat \<Rightarrow> bool \<Rightarrow> cu_request \<Rightarrow> cu_result \<Rightarrow> bool" where
  "cu_good us ue n m s x \<longleftrightarrow>
     (case x of
        None \<Rightarrow> False
      | Some (Cont s') \<Rightarrow> cu_inv us ue n m s' \<and> cu_measure ue s' < cu_measure ue s
      | Some (Goto l s') \<Rightarrow> cu_base us ue n m s' \<and> 0 < cu_u s' \<and>
          (l = Cu_args \<longrightarrow> cu_args_start s' = Some (cu_p s'))
      | Some (Return rc s') \<Rightarrow> rc = Cu_INVALID_REQUEST)"

lemma take_Suc_update: "u < length d \<Longrightarrow> take (Suc u) (d[u := c]) = take u d @ [c]"
  by (simp add: take_Suc_conv_app_nth)

lemma cu_good_put_next:
  assumes "cu_base us ue n m s" "cu_p s \<le> ue" "ue < length buf" "ue - us \<le> n"
    and "cu_st s \<notin> {cu_sw_quoted, cu_sw_quoted_second}"
    and "cu_clean m (cu_out s @ [cu_ch s])" "cu_tail (cu_st s) (cu_out s @ [cu_ch s])"
    and "cu_u s = 0 \<Longrightarrow> cu_ch s = c_slash" "cu_st s \<noteq> cu_sw_usual \<Longrightarrow> cu_uri_ext s = None"
    and "cu_measure ue s \<le> cu_measure ue t"
  shows "cu_good us ue n m t (cu_put_next buf s)"
proof -
  let ?u = "cu_u s"
  have u: "?u < length (uri_data s)" and p: "cu_p s < length buf"
    using assms(1-4) by (auto simp: cu_base_def)
  have "0 < ?u \<Longrightarrow> (uri_data s)[?u := cu_ch s] ! 0 = uri_data s ! 0" by simp
  moreover have "?u = 0 \<Longrightarrow> (uri_data s)[?u := cu_ch s] ! 0 = c_slash"
    using u assms(8) by simp
  ultimately show ?thesis
    using assms u p
    by (cases "?u = 0")
      (auto simp: cu_good_def cu_put_next_def cu_put_def cu_next_def cu_inv_def cu_base_def
        cu_eff_def cu_out_def take_Suc_update cu_measure_def le_Suc_eq)
qed

lemma cu_good_next:
  assumes "cu_inv us ue n m s" "cu_p s \<le> ue" "ue < length buf"
    and "cu_measure ue s \<le> Suc (cu_measure ue t)" "0 < cu_u s"
  shows "cu_good us ue n m t (cu_next buf s)"
  using assms
  by (auto simp: cu_good_def cu_next_def cu_inv_def cu_base_def cu_eff_def cu_out_def
      cu_measure_def)

text \<open>Fields that do not matter for the path.\<close>

lemma cu_base_frame [simp]:
  "cu_base us ue n m (s\<lparr>cu_st := st\<rparr>) = cu_base us ue n m s"
  "cu_base us ue n m (s\<lparr>cu_plus_in_uri := b\<rparr>) = cu_base us ue n m s"
  "cu_base us ue n m (s\<lparr>cu_quoted_uri := b\<rparr>) = cu_base us ue n m s"
  "cu_base us ue n m (s\<lparr>cu_quoted_state := st\<rparr>) = cu_base us ue n m s"
  "cu_base us ue n m (s\<lparr>cu_decoded := c\<rparr>) = cu_base us ue n m s"
  "cu_base us ue n m (s\<lparr>cu_ch := c\<rparr>) = cu_base us ue n m s"
  "cu_base us ue n m (s\<lparr>cu_args_start := a\<rparr>) = cu_base us ue n m s"
  by (simp_all add: cu_base_def cu_out_def)

lemma cu_out_frame [simp]:
  "cu_out (s\<lparr>cu_st := st\<rparr>) = cu_out s"
  "cu_out (s\<lparr>cu_plus_in_uri := b\<rparr>) = cu_out s"
  "cu_out (s\<lparr>cu_quoted_uri := b\<rparr>) = cu_out s"
  "cu_out (s\<lparr>cu_quoted_state := st\<rparr>) = cu_out s"
  "cu_out (s\<lparr>cu_decoded := c\<rparr>) = cu_out s"
  "cu_out (s\<lparr>cu_ch := c\<rparr>) = cu_out s"
  "cu_out (s\<lparr>cu_uri_ext := e\<rparr>) = cu_out s"
  "cu_out (s\<lparr>cu_args_start := a\<rparr>) = cu_out s"
  by (simp_all add: cu_out_def)

lemma cu_base_ext:
  "cu_base us ue n m s \<Longrightarrow> cu_base us ue n m (s\<lparr>cu_uri_ext := None\<rparr>)"
  by (simp add: cu_base_def)

lemma cu_base_clean: "cu_base us ue n m s \<Longrightarrow> cu_clean m (cu_out s)"
  by (simp add: cu_base_def)

lemma cu_good_Goto:
  "cu_base us ue n m s \<Longrightarrow> 0 < cu_u s \<Longrightarrow>
   cu_good us ue n m t (Some (Goto Cu_args (s\<lparr>cu_args_start := Some (cu_p s)\<rparr>)))"
  "cu_base us ue n m s \<Longrightarrow> 0 < cu_u s \<Longrightarrow> cu_good us ue n m t (Some (Goto Cu_done s))"
  by (simp_all add: cu_good_def)

lemma is_usual_not:
  "is_usual ch \<Longrightarrow> ch \<noteq> c_slash \<and> ch \<noteq> c_dot"
  by (auto simp: is_usual_char)

lemma cu_ext_put:
  assumes "cu_base us ue n m s" "cu_p s \<le> ue" "ue < length buf" "ue - us \<le> n" "cu_ch s = c_dot"
    "cu_st s = cu_sw_usual" "cu_tail cu_sw_usual (cu_out s)" "0 < cu_u s"
  shows "cu_good us ue n m s (cu_put_next buf (s\<lparr>cu_uri_ext := Some (cu_u s + 1)\<rparr>))"
proof -
  have "cu_u s < length (uri_data s)" "cu_p s < length buf" using assms by (auto simp: cu_base_def)
  then show ?thesis
    using assms
    by (auto simp: cu_good_def cu_put_next_def cu_put_def cu_next_def cu_inv_def cu_base_def
        cu_eff_def cu_out_def take_Suc_update cu_measure_def cu_clean_snoc cu_tail_snoc
        simp del: cu_tail.simps) auto
qed

lemma cu_good_usual:
  assumes "cu_inv us ue n m s" "cu_st s = cu_sw_usual" "cu_p s \<le> ue" "ue < length buf" "ue - us \<le> n"
  shows "cu_good us ue n m s (cu_usual buf s)"
proof -
  have b: "cu_base us ue n m s" "cu_tail cu_sw_usual (cu_out s)"
    and ch: "cu_u s = 0 \<Longrightarrow> cu_ch s = c_slash" "cu_ch s \<noteq> c_slash \<Longrightarrow> 0 < cu_u s"
    using assms(1,2) by (auto simp: cu_inv_def cu_eff_def)
  have put: "cu_good us ue n m s (cu_put_next buf s)"
    "cu_good us ue n m s (cu_put_next buf (s\<lparr>cu_plus_in_uri := True\<rparr>))"
    if "cu_ch s \<noteq> c_slash" "cu_ch s \<noteq> c_dot"
    by (rule cu_good_put_next;
        use assms b ch that in \<open>simp add: cu_clean_snoc cu_tail_snoc cu_base_clean cu_measure_def\<close>)+
  have slash: "cu_good us ue n m s (cu_put_next buf (s\<lparr>cu_uri_ext := None, cu_st := cu_sw_slash\<rparr>))"
    if "cu_ch s = c_slash"
    by (rule cu_good_put_next;
        use assms b ch that cu_base_ext in \<open>simp add: cu_clean_snoc cu_tail_snoc cu_base_clean cu_measure_def\<close>)
  have q: "cu_good us ue n m s
      (cu_next buf (s\<lparr>cu_quoted_state := cu_st s, cu_st := cu_sw_quoted\<rparr>))"
    if "cu_ch s \<noteq> c_slash"
    by (rule cu_good_next)
      (use assms b ch that in \<open>auto simp: cu_inv_def cu_eff_def cu_measure_def\<close>)
  show ?thesis
    using put slash q cu_ext_put [OF b(1) assms(3-5)] b assms(2) ch is_usual_not [of "cu_ch s"]
      cu_good_Goto [OF b(1)]
    by (auto simp: cu_usual_def Let_def)
qed


text \<open>In the other states of the path something has been written.\<close>

lemma cu_inv_behind_slash:
  assumes "cu_inv us ue n m s" "cu_st s \<in> {cu_sw_slash, cu_sw_dot, cu_sw_dot_dot}"
  shows "cu_base us ue n m s" "cu_tail (cu_st s) (cu_out s)" "cu_uri_ext s = None" "0 < cu_u s"
  using assms by (auto simp: cu_inv_def cu_eff_def)

text \<open>An ordinary character behind them starts an ordinary segment.\<close>

lemma cu_good_to_usual:
  assumes "cu_inv us ue n m s" "cu_st s \<in> {cu_sw_slash, cu_sw_dot, cu_sw_dot_dot}"
    and "cu_p s \<le> ue" "ue < length buf" "ue - us \<le> n"
    and "cu_ch s \<noteq> c_slash" "cu_ch s = c_dot \<Longrightarrow> cu_st s = cu_sw_dot_dot"
  shows "cu_good us ue n m s (cu_put_next buf (s\<lparr>cu_st := cu_sw_usual\<rparr>))"
    "cu_good us ue n m s (cu_put_next buf (s\<lparr>cu_plus_in_uri := True, cu_st := cu_sw_usual\<rparr>))"
proof -
  note b = cu_inv_behind_slash [OF assms(1,2)]
  have "cu_tail cu_sw_usual (cu_out s @ [cu_ch s])"
    using assms(6,7) b(2) suffix_not_both [of "cu_out s"] by (auto simp: cu_tail_snoc simp del: cu_tail.simps(1))
  then show "cu_good us ue n m s (cu_put_next buf (s\<lparr>cu_st := cu_sw_usual\<rparr>))"
    "cu_good us ue n m s (cu_put_next buf (s\<lparr>cu_plus_in_uri := True, cu_st := cu_sw_usual\<rparr>))"
    by (auto intro!: cu_good_put_next simp del: cu_tail.simps)
      (use assms b in \<open>auto simp: cu_clean_snoc cu_base_clean cu_measure_def\<close>)
qed

lemma cu_good_escape:
  assumes "cu_inv us ue n m s" "cu_st s \<in> {cu_sw_slash, cu_sw_dot, cu_sw_dot_dot}"
    and "cu_p s \<le> ue" "ue < length buf"
  shows "cu_good us ue n m s (cu_next buf (s\<lparr>cu_quoted_state := cu_st s, cu_st := cu_sw_quoted\<rparr>))"
  by (rule cu_good_next)
    (use assms cu_inv_behind_slash [OF assms(1,2)] in
      \<open>auto simp: cu_inv_def cu_eff_def cu_measure_def\<close>)

lemma cu_good_slash:
  assumes "cu_inv us ue n m s" "cu_st s = cu_sw_slash" "cu_p s \<le> ue" "ue < length buf" "ue - us \<le> n"
  shows "cu_good us ue n m s (cu_slash buf m s)"
proof -
  have st: "cu_st s \<in> {cu_sw_slash, cu_sw_dot, cu_sw_dot_dot}" using assms(2) by simp
  note b = cu_inv_behind_slash [OF assms(1) st]
  note tail = b(2) [unfolded assms(2) cu_tail.simps]
  have again: "cu_good us ue n m s (cu_put_next buf s)" if "cu_ch s = c_slash" "\<not> m"
    by (rule cu_good_put_next;
        use assms b that suffix_not_both [of "cu_out s"] in
          \<open>auto simp: cu_clean_snoc cu_tail_snoc cu_base_clean cu_measure_def\<close>)
  have merge: "cu_good us ue n m s (cu_next buf s)"
    by (rule cu_good_next) (use assms b in auto)
  have dot: "cu_good us ue n m s (cu_put_next buf (s\<lparr>cu_st := cu_sw_dot\<rparr>))" if "cu_ch s = c_dot"
    by (rule cu_good_put_next;
        use assms b that tail in
          \<open>auto simp: cu_clean_snoc cu_tail_snoc cu_base_clean cu_measure_def simp del: cu_tail.simps\<close>)
  show ?thesis
    using again merge dot cu_good_to_usual [OF assms(1) st assms(3-5)]
      cu_good_escape [OF assms(1) st assms(3,4)] cu_good_Goto [OF b(1,4)] is_usual_not [of "cu_ch s"]
    by (auto simp: cu_slash_def Let_def)
qed

lemma suffix_take_Suc: "k < length d \<Longrightarrow> d ! k = c \<Longrightarrow> suffix [c] (take (Suc k) d)"
  by (simp add: take_Suc_conv_app_nth suffix_1)

lemma cu_good_dot:
  assumes "cu_inv us ue n m s" "cu_st s = cu_sw_dot" "cu_p s \<le> ue" "ue < length buf" "ue - us \<le> n"
  shows "cu_good us ue n m s (cu_dot buf s)"
proof -
  have st: "cu_st s \<in> {cu_sw_slash, cu_sw_dot, cu_sw_dot_dot}" using assms(2) by simp
  note b = cu_inv_behind_slash [OF assms(1) st]
  note tail = b(2) [unfolded assms(2) cu_tail.simps]
  obtain xs where xs: "cu_out s = xs @ [c_slash, c_dot]" using tail by (auto simp: suffix_def)
  have len: "length (cu_out s) = cu_u s"
    using b(1) assms(3,5) by (auto simp: cu_out_def cu_base_def)
  define s1 where "s1 = s\<lparr>cu_st := cu_sw_slash, cu_u := cu_u s - 1\<rparr>"
  have out1: "cu_out s1 = xs @ [c_slash]"
  proof -
    have "cu_out s1 = take (cu_u s - 1) (cu_out s)" by (simp add: s1_def cu_out_def)
    moreover have "cu_u s = Suc (Suc (length xs))" using xs len by simp
    ultimately show ?thesis using xs by simp
  qed
  have "cu_base us ue n m s1"
  proof -
    have "cu_clean m (xs @ [c_slash])"
      using cu_base_clean [OF b(1)] cu_clean_snoc [of m "xs @ [c_slash]" c_dot] xs by simp
    then show ?thesis using b(1,3) out1 by (auto simp: cu_base_def s1_def)
  qed
  moreover have "0 < cu_u s1" using xs len by (simp add: s1_def)
  ultimately have bk: "cu_good us ue n m s (cu_next buf s1)"
    using assms(2-4) b out1
    by (intro cu_good_next) (auto simp: cu_inv_def cu_eff_def suffix_1 cu_measure_def s1_def)
  have dot: "cu_good us ue n m s (cu_put_next buf (s\<lparr>cu_st := cu_sw_dot_dot\<rparr>))" if "cu_ch s = c_dot"
    by (rule cu_good_put_next;
        use assms b that tail in
          \<open>auto simp: cu_clean_snoc cu_tail_snoc cu_base_clean cu_measure_def simp del: cu_tail.simps\<close>)
  show ?thesis
    using bk dot cu_good_to_usual [OF assms(1) st assms(3-5)]
      cu_good_escape [OF assms(1) st assms(3,4)] cu_good_Goto [OF b(1,4)] is_usual_not [of "cu_ch s"]
    by (auto simp: cu_dot_def s1_def Let_def)
qed


lemma cu_back_cases:
  assumes "u < int (length d)"
  shows "cu_back d u = Some None \<or>
    (\<exists>k. cu_back d u = Some (Some (Suc k)) \<and> int k \<le> u \<and> d ! k = c_slash)"
  using assms
proof (induction d u rule: cu_back.induct)
  case (1 d u)
  show ?case
  proof (cases "u < 0 \<or> d ! nat u = c_slash")
    case True
    with 1(2) show ?thesis by (auto simp: cu_back.simps [of d u])
  next
    case False
    with 1 have "cu_back d u = cu_back d (u - 1)"
      by (subst cu_back.simps) auto
    moreover have "cu_back d (u - 1) = Some None \<or>
        (\<exists>k. cu_back d (u - 1) = Some (Some (Suc k)) \<and> int k \<le> u - 1 \<and> d ! k = c_slash)"
      using False 1(2) by (intro 1(1) [of "d ! nat u"]) auto
    ultimately show ?thesis by fastforce
  qed
qed

lemma cu_good_dot_dot:
  assumes "cu_inv us ue n m s" "cu_st s = cu_sw_dot_dot" "cu_p s \<le> ue" "ue < length buf"
    "ue - us \<le> n"
  shows "cu_good us ue n m s (cu_dot_dot buf s)"
proof -
  have st: "cu_st s \<in> {cu_sw_slash, cu_sw_dot, cu_sw_dot_dot}" using assms(2) by simp
  note b = cu_inv_behind_slash [OF assms(1) st]
  have u: "cu_u s \<le> length (uri_data s)" using b(1) assms(3,5) by (auto simp: cu_base_def)
  have bk: "cu_good us ue n m s (cu_next buf (s\<lparr>cu_st := cu_sw_slash, cu_u := Suc k\<rparr>))"
    if k: "int k \<le> int (cu_u s) - 5" "uri_data s ! k = c_slash" for k
  proof -
    let ?s = "s\<lparr>cu_st := cu_sw_slash, cu_u := Suc k\<rparr>"
    have "cu_out ?s = take (Suc k) (cu_out s)" using k by (simp add: cu_out_def min_def)
    then have "cu_clean m (cu_out ?s)" using cu_clean_take [OF cu_base_clean [OF b(1)]] by simp
    moreover have "suffix [c_slash] (cu_out ?s)"
      using suffix_take_Suc [of k "uri_data s"] k u by (simp add: cu_out_def)
    ultimately have "cu_inv us ue n m ?s"
      using b k by (auto simp: cu_inv_def cu_eff_def cu_base_def)
    then show ?thesis
      using assms by (intro cu_good_next) (auto simp: cu_measure_def)
  qed
  have slash: "cu_good us ue n m s (cu_dot_dot buf s)" if "cu_ch s = c_slash"
    using cu_back_cases [of "int (cu_u s) - 5" "uri_data s"] u bk that is_usual_not [of "cu_ch s"]
    by (auto simp: cu_dot_dot_def cu_good_def)
  show ?thesis
    using slash cu_good_to_usual [OF assms(1) st assms(3-5)] assms(2)
      cu_good_escape [OF assms(1) st assms(3,4)] cu_good_Goto [OF b(1,4)] is_usual_not [of "cu_ch s"]
    by (cases "cu_ch s = c_slash") (auto simp: cu_dot_dot_def Let_def)
qed

lemma cu_inv_quoted:
  assumes "cu_inv us ue n m s" "cu_st s \<in> {cu_sw_quoted, cu_sw_quoted_second}"
  shows "cu_base us ue n m s" "0 < cu_u s" "cu_tail (cu_quoted_state s) (cu_out s)"
    "cu_quoted_state s \<notin> {cu_sw_quoted, cu_sw_quoted_second}"
    "cu_quoted_state s \<noteq> cu_sw_usual \<Longrightarrow> cu_uri_ext s = None"
  using assms by (auto simp: cu_inv_def cu_eff_def)

lemma cu_good_quoted:
  assumes "cu_inv us ue n m s" "cu_st s = cu_sw_quoted" "cu_p s \<le> ue" "ue < length buf"
  shows "cu_good us ue n m s (cu_quoted buf s)"
proof -
  have "cu_good us ue n m s (cu_next buf
      (s\<lparr>cu_quoted_uri := True, cu_decoded := c, cu_st := cu_sw_quoted_second\<rparr>))" for c
    by (rule cu_good_next)
      (use assms cu_inv_quoted [OF assms(1)] in \<open>auto simp: cu_inv_def cu_eff_def cu_measure_def\<close>)
  then show ?thesis by (simp add: cu_quoted_def Let_def) (simp add: cu_good_def)
qed

lemma cu_good_quoted_second:
  assumes "cu_inv us ue n m s" "cu_st s = cu_sw_quoted_second" "cu_p s \<le> ue" "ue < length buf"
    "ue - us \<le> n"
  shows "cu_good us ue n m s (cu_quoted_second buf s)"
proof -
  have st: "cu_st s \<in> {cu_sw_quoted, cu_sw_quoted_second}" using assms(2) by simp
  note q = cu_inv_quoted [OF assms(1) st]
  have put: "cu_good us ue n m s (cu_put_next buf (s\<lparr>cu_ch := c, cu_st := cu_sw_usual\<rparr>))"
    if "c \<noteq> c_slash" "c \<noteq> c_dot" for c
    by (rule cu_good_put_next;
        use assms q that in \<open>simp add: cu_clean_snoc cu_tail_snoc cu_base_clean cu_measure_def\<close>)
  have redo: "cu_good us ue n m s (Some (Cont (s\<lparr>cu_ch := c, cu_st := cu_quoted_state s\<rparr>)))"
    "cu_good us ue n m s
      (Some (Cont (s\<lparr>cu_ch := c, cu_plus_in_uri := True, cu_st := cu_quoted_state s\<rparr>)))" for c
    using assms(2) q by (auto simp: cu_good_def cu_inv_def cu_eff_def cu_measure_def)
  have bad: "cu_good us ue n m s (Some (Return Cu_INVALID_REQUEST t))" for t
    by (simp add: cu_good_def)
  show ?thesis
    by (simp add: cu_quoted_second_def Let_def put redo bad)
qed

lemma cu_good_step:
  assumes "cu_inv us ue n m s" "cu_p s \<le> ue" "ue < length buf" "ue - us \<le> n"
  shows "cu_good us ue n m s (cu_step buf m s)"
  using assms cu_good_usual cu_good_slash cu_good_dot cu_good_dot_dot cu_good_quoted
    cu_good_quoted_second
  by (cases "cu_st s") (simp_all add: cu_step_def)

text \<open>The loop ends, in one of the ways \<open>cu_good\<close> allows.\<close>

lemma cu_loop_total:
  assumes "cu_inv us ue n m s" "ue < length buf" "ue - us \<le> n" "us < ue"
  shows "\<exists>s'. cu_loop buf ue m s = Some (Return Cu_INVALID_REQUEST s') \<or>
    (cu_base us ue n m s' \<and> 0 < cu_u s' \<and>
      (cu_loop buf ue m s = Some (Goto Cu_done s') \<or>
       cu_loop buf ue m s = Some (Goto Cu_args s') \<and> cu_args_start s' = Some (cu_p s')))"
  using assms(1)
proof (induction "cu_measure ue s" arbitrary: s rule: less_induct)
  case less
  note good = cu_good_step [OF less.prems _ assms(2,3)]
  show ?case
  proof (cases "cu_p s \<le> ue")
    case False
    with less.prems assms(4) have "0 < cu_u s" "cu_base us ue n m s"
      by (auto simp: cu_inv_def cu_base_def)
    with False show ?thesis by (subst cu_loop.simps) (auto simp: cu_loop.simps)
  next
    case True
    then obtain x where x: "cu_step buf m s = Some x"
      using good by (cases "cu_step buf m s") (auto simp: cu_good_def)
    note loop = cu_loop.simps [of buf ue m s]
    show ?thesis
    proof (cases x)
      case (Cont s')
      then have "cu_loop buf ue m s = cu_loop buf ue m s'" using loop True x by simp
      moreover have "cu_inv us ue n m s'" "cu_measure ue s' < cu_measure ue s"
        using good [OF True] x Cont by (auto simp: cu_good_def)
      ultimately show ?thesis using less.hyps by simp
    next
      case (Goto l s')
      then show ?thesis
        using good [OF True] x loop True by (cases l) (auto simp: cu_good_def)
    next
      case (Return rc s')
      then show ?thesis using good [OF True] x loop True by (auto simp: cu_good_def)
    qed
  qed
qed

lemma cu_scan_args_total:
  "\<lbrakk>ue < length buf; cu_args_start s = Some a\<rbrakk> \<Longrightarrow>
   \<exists>s'. cu_scan_args buf ue p s = Some s' \<and>
     (s' = s \<or> (\<exists>v. s' = s\<lparr>cu_args := v, cu_args_start := None\<rparr>))"
proof (induction buf ue p s rule: cu_scan_args.induct)
  case (1 buf ue p s)
  show ?case
  proof (cases "p < ue \<and> buf ! p \<noteq> c_hash")
    case True
    with 1 show ?thesis by (subst cu_scan_args.simps) simp
  next
    case False
    with 1(2,3) show ?thesis by (subst cu_scan_args.simps) auto
  qed
qed

lemma cu_base_finish:
  assumes "cu_base us ue n m s" "0 < cu_u s" "t = cu_finish s" "us < ue" "ue - us \<le> n"
  shows "0 < uri_len t" "uri_len t \<le> ue - us" "length (uri_data t) = n" "hd (uri t) = c_slash"
    "cu_clean m (uri t)" "\<forall>e k. exten t = Some (e, k) \<longrightarrow> e + k = uri_len t"
proof -
  have "uri t = cu_out s" using assms(3) by (simp add: uri_def cu_finish_def cu_out_def)
  moreover have "uri_data s \<noteq> []" using assms by (auto simp: cu_base_def)
  then have "hd (cu_out s) = uri_data s ! 0" using assms by (simp add: cu_out_def hd_conv_nth)
  ultimately show "hd (uri t) = c_slash" "cu_clean m (uri t)" using assms by (auto simp: cu_base_def)
qed (use assms in \<open>auto simp: cu_base_def cu_finish_def split: option.splits\<close>)

text \<open>
  C1. For a request whose URI starts with a slash and whose output memory is as long as the
  URI, the function ends, reads nothing behind the character that follows the URI and writes
  only into its memory. A path it accepts starts with a slash, is not longer than the URI, has
  no dot segment in front of a slash and, when slashes are merged, no empty segment; the
  extension lies inside the path.
\<close>

theorem ngx_http_parse_complex_uri_normalised:
  assumes "us < ue" "ue < length buf" "buf ! us = c_slash" "ue - us \<le> length (uri_data r)"
    and "exten r = None"
  shows "\<exists>rc r'. ngx_http_parse_complex_uri r buf us ue m = Some (rc, r') \<and>
    (rc = Cu_OK \<longrightarrow>
       0 < uri_len r' \<and> uri_len r' \<le> ue - us \<and> length (uri_data r') = length (uri_data r) \<and>
       hd (uri r') = c_slash \<and>
       \<not> sublist (str ''/./'') (uri r') \<and> \<not> sublist (str ''/../'') (uri r') \<and>
       (m \<longrightarrow> \<not> sublist (str ''//'') (uri r')) \<and>
       (\<forall>e n. exten r' = Some (e, n) \<longrightarrow> e + n = uri_len r'))"
proof -
  let ?n = "length (uri_data r)"
  let ?s = "r\<lparr>cu_st := cu_sw_usual, cu_p := us + 1, cu_u := 0, cu_uri_ext := None,
    cu_args_start := None, cu_ch := c_slash\<rparr>"
  have "cu_inv us ue ?n m ?s"
    using assms by (auto simp: cu_inv_def cu_base_def cu_eff_def cu_out_def cu_clean_def)
  from cu_loop_total [OF this assms(2,4,1)] obtain s' where loop:
    "cu_loop buf ue m ?s = Some (Return Cu_INVALID_REQUEST s') \<or>
     (cu_base us ue ?n m s' \<and> 0 < cu_u s' \<and>
       (cu_loop buf ue m ?s = Some (Goto Cu_done s') \<or>
        cu_loop buf ue m ?s = Some (Goto Cu_args s') \<and> cu_args_start s' = Some (cu_p s')))" ..
  then obtain rc r' where r': "ngx_http_parse_complex_uri r buf us ue m = Some (rc, r')"
    and ok: "rc = Cu_OK \<Longrightarrow> \<exists>t. r' = cu_finish t \<and> cu_base us ue ?n m t \<and> 0 < cu_u t"
  proof (elim disjE conjE)
    assume "cu_loop buf ue m ?s = Some (Return Cu_INVALID_REQUEST s')"
    then show thesis using assms by (intro that) (auto simp: ngx_http_parse_complex_uri_def)
  next
    assume "cu_loop buf ue m ?s = Some (Goto Cu_done s')" "cu_base us ue ?n m s'" "0 < cu_u s'"
    then show thesis using assms by (intro that) (auto simp: ngx_http_parse_complex_uri_def)
  next
    assume *: "cu_loop buf ue m ?s = Some (Goto Cu_args s')" "cu_base us ue ?n m s'" "0 < cu_u s'"
      "cu_args_start s' = Some (cu_p s')"
    obtain t where t: "cu_scan_args buf ue (cu_p s') s' = Some t"
      "t = s' \<or> (\<exists>v. t = s'\<lparr>cu_args := v, cu_args_start := None\<rparr>)"
      using cu_scan_args_total [OF assms(2) *(4)] by blast
    then have "cu_base us ue ?n m t" "0 < cu_u t" using * by (auto simp: cu_base_def cu_out_def)
    then show thesis using assms * t by (intro that) (auto simp: ngx_http_parse_complex_uri_def)
  qed
  then show ?thesis
    using cu_base_finish [OF _ _ _ assms(1,4)] unfolding cu_clean_def by (metis (no_types))
qed

definition cu_fresh :: "nat \<Rightarrow> cu_request" where
  "cu_fresh n = \<lparr>cu_st = cu_sw_usual, cu_quoted_state = cu_sw_usual, cu_decoded = 0, cu_ch = 0,
     cu_p = 0, cu_u = 0, uri_data = replicate n 0, cu_uri_ext = None, cu_args_start = None,
     cu_plus_in_uri = False, cu_quoted_uri = False, uri_len = 0, exten = None, cu_args = None\<rparr>"

text \<open>The return code and the path for a URI that a space follows.\<close>

definition cu_run :: "string \<Rightarrow> (cu_rc \<times> bytes) option" where
  "cu_run u = map_option (\<lambda>(rc, r). (rc, uri r))
     (ngx_http_parse_complex_uri (cu_fresh (length u)) (str u @ [c_space]) 0 (length u) True)"

theorem ngx_http_parse_complex_uri_normalised_witness:
  "(\<exists>rc r. ngx_http_parse_complex_uri (cu_fresh 20) (str ''/a//%2e/b/../c.htm?x '') 0 20 True =
      Some (rc, r) \<and> (rc = Cu_OK \<longrightarrow> \<not> sublist (str ''/../'') (uri r))) \<and>
   cu_run ''/a//%2e/b/../c.htm?x'' = Some (Cu_OK, str ''/a/c.htm'')"
proof
  show "\<exists>rc r. ngx_http_parse_complex_uri (cu_fresh 20) (str ''/a//%2e/b/../c.htm?x '') 0 20 True =
      Some (rc, r) \<and> (rc = Cu_OK \<longrightarrow> \<not> sublist (str ''/../'') (uri r))"
    using ngx_http_parse_complex_uri_normalised [of 0 20 "str ''/a//%2e/b/../c.htm?x ''" "cu_fresh 20" True]
    by (auto simp: cu_fresh_def)
  show "cu_run ''/a//%2e/b/../c.htm?x'' = Some (Cu_OK, str ''/a/c.htm'')" by code_simp
qed

text \<open>
  Dot segments are removed when the slash behind them is read, so one at the end of the path
  stays: \<open>/a/..\<close> and \<open>/a/.\<close> are accepted and keep their last segment.
\<close>

theorem ngx_http_parse_complex_uri_trailing_dots:
  "cu_run ''/a/..'' = Some (Cu_OK, str ''/a/..'') \<and> cu_run ''/a/.'' = Some (Cu_OK, str ''/a/.'') \<and>
   cu_run ''/..?x'' = Some (Cu_OK, str ''/..'')"
  by code_simp

text \<open>
  An escape that the end of the URI cuts off is dropped in silence: \<open>/a%\<close> and \<open>/a%2\<close> give the
  path \<open>/a\<close>, whereas \<open>/a%2x\<close> is rejected.
\<close>

theorem ngx_http_parse_complex_uri_cut_escape:
  "cu_run ''/a%'' = Some (Cu_OK, str ''/a'') \<and> cu_run ''/a%2'' = Some (Cu_OK, str ''/a'') \<and>
   map_option fst (cu_run ''/a%2x'') = Some Cu_INVALID_REQUEST"
  by code_simp

end
