(* ===== verification/Ngx_Http_Parse_Rest.thy ===== *)
theory Ngx_Http_Parse_Rest
  imports Ngx_Scan Ngx_Http_Chars Ngx_String_Search
begin

text \<open>
  The smaller parsers of \<open>src/src/http/ngx_http_parse.c\<close>: the status line of an upstream
  server, the check of URIs from unsafe sources, values in repeated headers such as cookies,
  one argument of the query string, and the split of a URI from its arguments.
\<close>

section \<open>Model\<close>

subsection \<open>The status line\<close>

datatype sl_state =
    sl_sw_start | sl_sw_H | sl_sw_HT | sl_sw_HTT | sl_sw_HTTP | sl_sw_first_major_digit
  | sl_sw_major_digit | sl_sw_first_minor_digit | sl_sw_minor_digit | sl_sw_status
  | sl_sw_space_after_status | sl_sw_status_text | sl_sw_almost_done

datatype sl_rc = Sl_OK | Sl_AGAIN | Sl_ERROR

text \<open>\<open>r->state\<close> and the fields of \<open>ngx_http_status_t\<close>.\<close>

record sl_status =
  sl_st :: sl_state
  sl_code :: ngx_uint_t
  sl_count :: ngx_uint_t
  sl_start :: "nat option"
  sl_end :: "nat option"

type_synonym sl_result = "(sl_status, unit, sl_rc) step"

definition sl_expect :: "u_char \<Rightarrow> sl_state \<Rightarrow> u_char \<Rightarrow> sl_status \<Rightarrow> sl_result" where
  "sl_expect c st ch s = (if ch = c then Cont (s\<lparr>sl_st := st\<rparr>) else Return Sl_ERROR s)"

definition sl_digit :: "u_char \<Rightarrow> bool" where
  "sl_digit ch \<longleftrightarrow> \<not> (ch < c_0 \<or> ch > c_9)"

definition sl_status_code :: "nat \<Rightarrow> u_char \<Rightarrow> sl_status \<Rightarrow> sl_result" where
  "sl_status_code p ch s =
     (if ch = c_space then Cont s
      else if \<not> sl_digit ch then Return Sl_ERROR s
      else
        (let s = s\<lparr>sl_code := sl_code s * 10 + ucast ch - 48, sl_count := sl_count s + 1\<rparr> in
         if sl_count s = 3
         then Cont (s\<lparr>sl_st := sl_sw_space_after_status, sl_start := Some (p - 2)\<rparr>)
         else Cont s))"

definition sl_step :: "bytes \<Rightarrow> nat \<Rightarrow> u_char \<Rightarrow> sl_status \<Rightarrow> sl_result" where
  "sl_step buf p ch s =
     (case sl_st s of
        sl_sw_start \<Rightarrow> sl_expect c_H sl_sw_H ch s
      | sl_sw_H \<Rightarrow> sl_expect c_T sl_sw_HT ch s
      | sl_sw_HT \<Rightarrow> sl_expect c_T sl_sw_HTT ch s
      | sl_sw_HTT \<Rightarrow> sl_expect c_P sl_sw_HTTP ch s
      | sl_sw_HTTP \<Rightarrow> sl_expect c_slash sl_sw_first_major_digit ch s
      | sl_sw_first_major_digit \<Rightarrow>
          (if ch < c_1 \<or> ch > c_9 then Return Sl_ERROR s
           else Cont (s\<lparr>sl_st := sl_sw_major_digit\<rparr>))
      | sl_sw_major_digit \<Rightarrow>
          (if ch = c_dot then Cont (s\<lparr>sl_st := sl_sw_first_minor_digit\<rparr>)
           else if \<not> sl_digit ch then Return Sl_ERROR s else Cont s)
      | sl_sw_first_minor_digit \<Rightarrow>
          (if \<not> sl_digit ch then Return Sl_ERROR s else Cont (s\<lparr>sl_st := sl_sw_minor_digit\<rparr>))
      | sl_sw_minor_digit \<Rightarrow>
          (if ch = c_space then Cont (s\<lparr>sl_st := sl_sw_status\<rparr>)
           else if \<not> sl_digit ch then Return Sl_ERROR s else Cont s)
      | sl_sw_status \<Rightarrow> sl_status_code p ch s
      | sl_sw_space_after_status \<Rightarrow>
          (if ch = c_space \<or> ch = c_dot then Cont (s\<lparr>sl_st := sl_sw_status_text\<rparr>)
           else if ch = CR then Cont (s\<lparr>sl_st := sl_sw_almost_done\<rparr>)
           else if ch = LF then Goto () s
           else Return Sl_ERROR s)
      | sl_sw_status_text \<Rightarrow>
          (if ch = CR then Cont (s\<lparr>sl_st := sl_sw_almost_done\<rparr>)
           else if ch = LF then Goto () s else Cont s)
      | sl_sw_almost_done \<Rightarrow>
          (let s = s\<lparr>sl_end := Some (p - 1)\<rparr> in
           if ch = LF then Goto () s else Return Sl_ERROR s))"

definition ngx_http_parse_status_line :: "sl_status \<Rightarrow> bytes \<Rightarrow> nat \<Rightarrow> sl_rc \<times> sl_status \<times> nat" where
  "ngx_http_parse_status_line s buf pos =
     (case scan_buf sl_step buf pos s of
        Exhausted s' \<Rightarrow> (Sl_AGAIN, s', length buf)
      | Jumped _ s' p \<Rightarrow>
          (Sl_OK, s'\<lparr>sl_end := (if sl_end s' = None then Some p else sl_end s'),
                     sl_st := sl_sw_start\<rparr>, p + 1)
      | Returned rc s' p \<Rightarrow> (rc, s'\<lparr>sl_st := sl_st s\<rparr>, pos))"

subsection \<open>Unsafe URIs\<close>

text \<open>
  \<open>ngx_http_parse_unsafe_uri\<close> on the \<open>n\<close> bytes at the start of the memory \<open>m\<close>: \<open>NGX_ERROR\<close> for an
  unsafe URI, otherwise the new \<open>uri->len\<close> and the index and length of the arguments, if there
  are any. \<open>ngx_path_separator\<close> is the slash. The recursion counts \<open>len\<close> down.
\<close>

datatype unsafe_result = Unsafe | Safe nat "(nat \<times> nat) option"

fun unsafe_uri_loop :: "bytes \<Rightarrow> nat \<Rightarrow> nat \<Rightarrow> nat \<Rightarrow> unsafe_result option" where
  "unsafe_uri_loop m n p 0 = Some (Safe n None)"
| "unsafe_uri_loop m n p (Suc k) = do {
     ch \<leftarrow> rd m p;
     let p = p + 1;
     if is_usual ch then unsafe_uri_loop m n p k
     else if ch = c_quest then Some (Safe (n - Suc k) (Some (p, k)))
     else if ch = 0 then Some Unsafe
     else if ch = c_slash \<and> Suc k > 2 then do {
       p0 \<leftarrow> rd m p;
       if p0 \<noteq> c_dot then unsafe_uri_loop m n p k
       else do {
         p1 \<leftarrow> rd m (p + 1);
         if p1 \<noteq> c_dot then unsafe_uri_loop m n p k
         else do {
           p2 \<leftarrow> rd m (p + 2);
           if p2 = c_slash then Some Unsafe else unsafe_uri_loop m n p k } } }
     else unsafe_uri_loop m n p k }"

definition ngx_http_parse_unsafe_uri :: "bytes \<Rightarrow> nat \<Rightarrow> unsafe_result option" where
  "ngx_http_parse_unsafe_uri m n =
     (if n = 0 then Some Unsafe
      else do {
        p0 \<leftarrow> rd m 0;
        if p0 = c_quest then Some Unsafe
        else if p0 = c_dot \<and> n = 3 then do {
          p1 \<leftarrow> rd m 1;
          p2 \<leftarrow> rd m 2;
          if p1 = c_dot \<and> p2 = c_slash then Some Unsafe else unsafe_uri_loop m n 0 n }
        else unsafe_uri_loop m n 0 n })"

subsection \<open>Values in repeated headers\<close>









subsection \<open>An argument of the query string\<close>

lemma strlcasestrn_loop_ge:
  "strlcasestrn_loop m s1 stop c2 m2 s2 n = Some (Some i) \<Longrightarrow> s1 \<le> i"
proof (induction m s1 stop c2 m2 s2 n rule: strlcasestrn_loop.induct)
  case (1 m s1 stop c2 m2 s2 n)
  from 1(3) show ?case
    by (subst (asm) strlcasestrn_loop.simps)
      (auto split: if_splits bind_splits dest: 1(1,2))
qed

lemma ngx_strlcasestrn_ge: "ngx_strlcasestrn m s1 p_last m2 s2 n = Some (Some i) \<Longrightarrow> s1 \<le> i"
  by (auto simp: ngx_strlcasestrn_def dest: strlcasestrn_loop_ge split: bind_splits)

text \<open>
  The loop of \<open>ngx_http_arg\<close> over the \<open>n\<close> bytes of the arguments at the start of \<open>m\<close>: the index
  and length of the value, or \<open>Some None\<close> for \<open>NGX_DECLINED\<close>.
\<close>

function http_arg_loop :: "bytes \<Rightarrow> nat \<Rightarrow> bytes \<Rightarrow> nat \<Rightarrow> (nat \<times> nat) option option" where
  "http_arg_loop m n name p =
     (if p < n then do {
        r \<leftarrow> ngx_strlcasestrn m p (n - 1) name 0 (length name - 1);
        case r of
          None \<Rightarrow> Some None
        | Some p \<Rightarrow> do {
            before \<leftarrow> (if p = 0 then Some True else map_option (\<lambda>c. c = c_amp) (rd m (p - 1)));
            behind \<leftarrow> (if before then map_option (\<lambda>c. c = c_eq) (rd m (p + length name))
                       else Some False);
            if behind then do {
              let data = p + length name + 1;
              q \<leftarrow> ngx_strlchr m p n c_amp;
              let stop = (case q of None \<Rightarrow> n | Some q \<Rightarrow> q);
              if stop < data then None else Some (Some (data, stop - data)) }
            else http_arg_loop m n name (p + 1) } }
      else Some None)"
  by pat_completeness auto

termination
proof (relation "measure (\<lambda>(m, n, name, p). n - p)", goal_cases)
  case (2 m n name p r p' before behind)
  then show ?case using ngx_strlcasestrn_ge [of m p "n - 1" name 0 "length name - 1" p'] by force
qed simp

declare http_arg_loop.simps [simp del]

definition ngx_http_arg :: "bytes \<Rightarrow> nat \<Rightarrow> bytes \<Rightarrow> (nat \<times> nat) option option" where
  "ngx_http_arg m n name = (if n = 0 then Some None else http_arg_loop m n name 0)"

subsection \<open>The URI and its arguments\<close>

text \<open>The new \<open>uri->len\<close> and the index and length of the arguments, \<open>args->len = 0\<close> if none.\<close>

definition ngx_http_split_args :: "bytes \<Rightarrow> nat \<Rightarrow> (nat \<times> (nat \<times> nat) option) option" where
  "ngx_http_split_args m n = do {
     r \<leftarrow> ngx_strlchr m 0 n c_quest;
     case r of
       None \<Rightarrow> Some (n, None)
     | Some p \<Rightarrow> Some (p, Some (p + 1, n - (p + 1))) }"

section \<open>Unsafe URIs\<close>

text \<open>What the loop has checked when it is at \<open>p\<close>.\<close>

definition no_parent :: "bytes \<Rightarrow> nat \<Rightarrow> bool" where
  "no_parent m e \<longleftrightarrow>
     (\<forall>i. i + 3 < e \<longrightarrow> take 4 (drop i m) \<noteq> str ''/../'') \<and> (\<forall>i < e. m ! i \<noteq> 0)"

definition checked :: "bytes \<Rightarrow> nat \<Rightarrow> nat \<Rightarrow> bool" where
  "checked m n p \<longleftrightarrow>
     (\<forall>i < p. i + 3 < n \<longrightarrow> take 4 (drop i m) \<noteq> str ''/../'') \<and> (\<forall>i < p. m ! i \<noteq> 0)"

lemma take_4_drop:
  "i + 3 < length m \<Longrightarrow> take 4 (drop i m) = [m ! i, m ! (i + 1), m ! (i + 2), m ! (i + 3)]"
  by (simp add: eval_nat_numeral take_Suc_conv_app_nth)

lemma checked_Suc:
  assumes "checked m n p" "m ! p \<noteq> 0" "p + 3 < n \<Longrightarrow> take 4 (drop p m) \<noteq> str ''/../''"
  shows "checked m n (p + 1)"
  using assms by (auto simp: checked_def less_Suc_eq)

lemma unsafe_uri_loop_spec:
  assumes "n < length m" "p + k = n" "checked m n p"
  shows "\<exists>r. unsafe_uri_loop m n p k = Some r \<and>
    (case r of
       Unsafe \<Rightarrow> True
     | Safe e args \<Rightarrow> e \<le> n \<and> no_parent m e \<and>
         (case args of None \<Rightarrow> e = n | Some (a, l) \<Rightarrow> m ! e = c_quest \<and> a = e + 1 \<and> a + l = n))"
  using assms(2,3)
proof (induction k arbitrary: p)
  case 0
  then show ?case by (auto simp: checked_def no_parent_def)
next
  case (Suc k)
  let ?goal = "\<lambda>x. \<exists>r. x = Some r \<and>
    (case r of
       Unsafe \<Rightarrow> True
     | Safe e args \<Rightarrow> e \<le> n \<and> no_parent m e \<and>
         (case args of None \<Rightarrow> e = n | Some (a, l) \<Rightarrow> m ! e = c_quest \<and> a = e + 1 \<and> a + l = n))"
  have p: "p < length m" "p < n" using Suc.prems(1) assms(1) by auto
  have IH: "?goal (unsafe_uri_loop m n (p + 1) k)"
    if "m ! p \<noteq> 0" "p + 3 < n \<Longrightarrow> take 4 (drop p m) \<noteq> str ''/../''"
    using Suc.prems that by (intro Suc.IH checked_Suc) auto
  have here: "take 4 (drop p m) = [m ! p, m ! (p + 1), m ! (p + 2), m ! (p + 3)]" if "p + 3 < n"
    using that assms(1) by (intro take_4_drop) simp
  consider "is_usual (m ! p)" | "m ! p = c_quest" | "m ! p = 0" | "m ! p = c_slash" "2 < Suc k"
    | "\<not> is_usual (m ! p)" "m ! p \<notin> {c_quest, 0}" "m ! p = c_slash \<longrightarrow> Suc k \<le> 2" by fastforce
  then show ?case
  proof cases
    case 1
    then have "m ! p \<noteq> 0" "m ! p \<noteq> c_slash" by (auto simp: is_usual_char)
    with IH here 1 p show ?thesis by auto
  next
    case 2
    have "no_parent m p" using Suc.prems(2) p by (auto simp: checked_def no_parent_def)
    moreover have "\<not> is_usual c_quest" by (simp add: is_usual_char)
    ultimately show ?thesis using 2 p Suc.prems(1) by auto
  next
    case 3
    have "\<not> is_usual 0" by (simp add: is_usual_char)
    with 3 p show ?thesis by auto
  next
    case 4
    have len: "p + 3 < length m" using 4(2) Suc.prems(1) assms(1) by linarith
    have ix: "p + 3 = Suc (Suc (Suc p))" "Suc p + 2 = Suc (Suc (Suc p))" by simp_all
    have nu: "\<not> is_usual c_slash" by (simp add: is_usual_char)
    show ?thesis
    proof (cases "m ! (p + 1) = c_dot \<and> m ! (p + 2) = c_dot \<and> m ! (p + 3) = c_slash")
      case True
      then show ?thesis
        using 4 nu p len by (simp add: ix)
    next
      case False
      then have "?goal (unsafe_uri_loop m n (p + 1) k)" using IH here 4(1) by auto
      then show ?thesis
        using False 4 nu p len by (auto simp: ix)
    qed
  next
    case 5
    have "take 4 (drop p m) \<noteq> str ''/../''" if "p + 3 < n"
      using 5(3) that here Suc.prems(1) by auto
    then have "?goal (unsafe_uri_loop m n (p + 1) k)" using IH 5 by auto
    then show ?thesis using 5 p by auto
  qed
qed

text \<open>
  C23. The check reads at most one byte behind the URI. A URI that it lets pass is not empty, and
  its path, which ends at the first question mark, has no zero byte and no segment \<open>..\<close>
  between two slashes.
\<close>

theorem ngx_http_parse_unsafe_uri_safe:
  assumes "n < length m"
  shows "\<exists>r. ngx_http_parse_unsafe_uri m n = Some r \<and>
    (\<forall>e args. r = Safe e args \<longrightarrow> 0 < n \<and> e \<le> n \<and>
       (\<forall>i. i + 3 < e \<longrightarrow> take 4 (drop i m) \<noteq> str ''/../'') \<and> (\<forall>i < e. m ! i \<noteq> 0) \<and>
       (case args of None \<Rightarrow> e = n | Some (a, l) \<Rightarrow> m ! e = c_quest \<and> a = e + 1 \<and> a + l = n))"
proof -
  have "checked m n 0" by (simp add: checked_def)
  from unsafe_uri_loop_spec [OF assms _ this, of n] obtain r where
    r: "unsafe_uri_loop m n 0 n = Some r"
    "case r of Unsafe \<Rightarrow> True
     | Safe e args \<Rightarrow> e \<le> n \<and> no_parent m e \<and>
         (case args of None \<Rightarrow> e = n | Some (a, l) \<Rightarrow> m ! e = c_quest \<and> a = e + 1 \<and> a + l = n)"
    by auto
  have "m \<noteq> []" using assms by auto
  show ?thesis
  proof (cases "ngx_http_parse_unsafe_uri m n = Some Unsafe")
    case False
    then have "ngx_http_parse_unsafe_uri m n = Some r \<and> 0 < n"
      using r(1) assms \<open>m \<noteq> []\<close>
      by (auto simp: ngx_http_parse_unsafe_uri_def split: if_splits)
    with r(2) show ?thesis by (auto simp: no_parent_def)
  qed auto
qed

theorem ngx_http_parse_unsafe_uri_safe_witness:
  "\<exists>r. ngx_http_parse_unsafe_uri (str ''/a?b '') 4 = Some r \<and> r = Safe 2 (Some (3, 1))"
proof -
  have "ngx_http_parse_unsafe_uri (str ''/a?b '') 4 = Some (Safe 2 (Some (3, 1)))" by code_simp
  then show ?thesis using ngx_http_parse_unsafe_uri_safe [of 4 "str ''/a?b ''"] by auto
qed

text \<open>
  What the check misses: a leading \<open>..\<close> is refused only in a URI of exactly three bytes, so
  \<open>../x\<close> passes; and the test of a \<open>..\<close> at the very end reads the byte behind the URI.
\<close>

theorem ngx_http_parse_unsafe_uri_misses:
  "ngx_http_parse_unsafe_uri (str ''../x'') 4 = Some (Safe 4 None) \<and>
   ngx_http_parse_unsafe_uri (str ''../'') 3 = Some Unsafe \<and>
   ngx_http_parse_unsafe_uri (str ''/a/..'') 5 = None \<and>
   ngx_http_parse_unsafe_uri (str ''/a/.. '') 5 = Some (Safe 5 None)"
  by code_simp

section \<open>An argument of the query string\<close>

lemma ngx_strlchr_spec:
  "p_last \<le> length m \<Longrightarrow> \<exists>r. ngx_strlchr m p p_last c = Some r \<and>
    (case r of None \<Rightarrow> (\<forall>i. p \<le> i \<and> i < p_last \<longrightarrow> m ! i \<noteq> c)
     | Some q \<Rightarrow> p \<le> q \<and> q < p_last \<and> m ! q = c \<and> (\<forall>i. p \<le> i \<and> i < q \<longrightarrow> m ! i \<noteq> c))"
proof (induction "p_last - p" arbitrary: p)
  case 0
  then show ?case by (subst ngx_strlchr.simps) auto
next
  case (Suc k)
  show ?case
  proof (cases "m ! p = c")
    case True
    then show ?thesis using Suc by (subst ngx_strlchr.simps) auto
  next
    case False
    have "k = p_last - (p + 1)" using Suc.hyps(2) by simp
    from Suc.hyps(1) [OF this Suc.prems] obtain r where r: "ngx_strlchr m (p + 1) p_last c = Some r"
      "case r of None \<Rightarrow> (\<forall>i. p + 1 \<le> i \<and> i < p_last \<longrightarrow> m ! i \<noteq> c)
       | Some q \<Rightarrow> p + 1 \<le> q \<and> q < p_last \<and> m ! q = c \<and> (\<forall>i. p + 1 \<le> i \<and> i < q \<longrightarrow> m ! i \<noteq> c)"
      by blast
    have "ngx_strlchr m p p_last c = Some r"
      using False Suc r(1) by (subst ngx_strlchr.simps) auto
    moreover have "p + 1 \<le> i \<longleftrightarrow> p \<le> i \<and> i \<noteq> p" for i by auto
    ultimately show ?thesis
      using r(2) False by (cases r) auto
  qed
qed

lemma tolower_amp: "ngx_tolower c = ngx_tolower c' \<Longrightarrow> c = c_amp \<longleftrightarrow> c' = c_amp"
proof -
  assume eq: "ngx_tolower c = ngx_tolower c'"
  have "x = c_amp \<longleftrightarrow> unat (ngx_tolower x) = 38" for x
    by (auto simp: unat_ngx_tolower word_unat_eq_iff)
  with eq show ?thesis by metis
qed

text \<open>The argument \<open>name\<close> starts at index \<open>i\<close> of the arguments.\<close>

definition arg_at :: "bytes \<Rightarrow> nat \<Rightarrow> bytes \<Rightarrow> nat \<Rightarrow> bool" where
  "arg_at m n name i \<longleftrightarrow> i + length name < n \<and> same_nocase m i name 0 (length name) \<and>
     (i = 0 \<or> m ! (i - 1) = c_amp) \<and> m ! (i + length name) = c_eq"

lemma http_arg_loop_spec:
  assumes n: "n \<le> length m" and name: "name \<noteq> []" "0 \<notin> set name" "c_amp \<notin> set name"
  shows "\<exists>r. http_arg_loop m n name p = Some r \<and>
    (case r of
       None \<Rightarrow> (\<forall>i \<ge> p. \<not> arg_at m n name i)
     | Some (a, l) \<Rightarrow> \<exists>i \<ge> p. arg_at m n name i \<and> (\<forall>j. p \<le> j \<and> j < i \<longrightarrow> \<not> arg_at m n name j) \<and>
         a = i + length name + 1 \<and> a + l \<le> n \<and> (\<forall>k. a \<le> k \<and> k < a + l \<longrightarrow> m ! k \<noteq> c_amp) \<and>
         (a + l < n \<longrightarrow> m ! (a + l) = c_amp))"
proof (induction "n - p" arbitrary: p rule: less_induct)
  case less
  show ?case
  proof (cases "p < n")
    case False
    then have "\<not> arg_at m n name i" if "p \<le> i" for i using that by (auto simp: arg_at_def)
    with False show ?thesis by (subst http_arg_loop.simps) auto
  next
    case True
    have nz: "\<forall>i \<le> length name - 1. name ! (0 + i) \<noteq> 0"
    proof (intro allI impI)
      fix i assume "i \<le> length name - 1"
      then have "i < length name" using name(1) by (cases name) auto
      then show "name ! (0 + i) \<noteq> 0" using name(2) by (metis add_0 nth_mem)
    qed
    have len: "Suc (length name - 1) = length name" using name(1) by (cases name) auto
    have range: "i + (length name - 1) < n - 1 \<longleftrightarrow> i + length name < n" for i using name(1) len by linarith
    obtain r where r: "ngx_strlcasestrn m p (n - 1) name 0 (length name - 1) = Some r"
      and first: "case r of
         None \<Rightarrow> (\<forall>i. p \<le> i \<and> i + length name < n \<longrightarrow> \<not> same_nocase m i name 0 (length name))
       | Some i \<Rightarrow> p \<le> i \<and> i + length name < n \<and> same_nocase m i name 0 (length name) \<and>
           (\<forall>j. p \<le> j \<and> j < i \<longrightarrow> \<not> same_nocase m j name 0 (length name))"
    proof -
      have "n - 1 \<le> length m" "0 + (length name - 1) < length name" using n name(1) by auto
      from strlcasestrn_spec [OF this nz, of p, unfolded len range] show ?thesis
        using that by blast
    qed
    show ?thesis
    proof (cases r)
      case None
      then have "\<not> arg_at m n name i" if "p \<le> i" for i
        using first that by (auto simp: arg_at_def)
      with None r True show ?thesis by (subst http_arg_loop.simps) auto
    next
      case (Some i)
      with first have i: "p \<le> i" "i + length name < n" "same_nocase m i name 0 (length name)"
        by auto
      have none: "\<not> arg_at m n name j" if "p \<le> j" "j < i" for j
        using that first Some by (auto simp: arg_at_def)
      show ?thesis
      proof (cases "arg_at m n name i")
        case at: True
        let ?d = "i + length name + 1"
        have noamp: "m ! k \<noteq> c_amp" if "i \<le> k" "k < ?d" for k
        proof (cases "k = i + length name")
          case True
          then show ?thesis using at by (simp add: arg_at_def)
        next
          case False
          then have "ngx_tolower (m ! k) = ngx_tolower (name ! (k - i))" "k - i < length name"
            using i(3) that by (auto simp: same_nocase_def dest: spec [of _ "k - i"])
          then show ?thesis
            using name(3) by (metis nth_mem tolower_amp)
        qed
        obtain q where q: "ngx_strlchr m i n c_amp = Some q"
          and qs: "case q of None \<Rightarrow> (\<forall>k. i \<le> k \<and> k < n \<longrightarrow> m ! k \<noteq> c_amp)
            | Some q \<Rightarrow> i \<le> q \<and> q < n \<and> m ! q = c_amp \<and> (\<forall>k. i \<le> k \<and> k < q \<longrightarrow> m ! k \<noteq> c_amp)"
          using ngx_strlchr_spec [OF n] by blast
        define stop where "stop = (case q of None \<Rightarrow> n | Some q \<Rightarrow> q)"
        have stop: "?d \<le> stop" "stop \<le> n" "\<forall>k. ?d \<le> k \<and> k < stop \<longrightarrow> m ! k \<noteq> c_amp"
          "stop < n \<longrightarrow> m ! stop = c_amp"
          using qs noamp i(2) by (auto simp: stop_def not_less [symmetric] split: option.splits)
        have "http_arg_loop m n name p = Some (Some (?d, stop - ?d))"
          using True r Some at n i(2) q stop(1)
          by (subst http_arg_loop.simps) (auto simp: arg_at_def stop_def)
        with stop i(1) at none show ?thesis by auto
      next
        case nat: False
        have "http_arg_loop m n name p = http_arg_loop m n name (i + 1)"
          using True r Some nat n i(2,3) by (subst http_arg_loop.simps) (auto simp: arg_at_def)
        moreover obtain x where x: "http_arg_loop m n name (i + 1) = Some x"
          "case x of
             None \<Rightarrow> (\<forall>j \<ge> i + 1. \<not> arg_at m n name j)
           | Some (a, l) \<Rightarrow> \<exists>j \<ge> i + 1. arg_at m n name j \<and>
               (\<forall>k. i + 1 \<le> k \<and> k < j \<longrightarrow> \<not> arg_at m n name k) \<and>
               a = j + length name + 1 \<and> a + l \<le> n \<and> (\<forall>k. a \<le> k \<and> k < a + l \<longrightarrow> m ! k \<noteq> c_amp) \<and>
               (a + l < n \<longrightarrow> m ! (a + l) = c_amp)"
        proof -
          have "n - (i + 1) < n - p" using True i(1) by linarith
          from less.hyps [OF this] show ?thesis using that by blast
        qed
        have upto: "\<not> arg_at m n name j" if "p \<le> j" "j < i + 1" for j
          using none nat that by (cases "j = i") auto
        show ?thesis
        proof (cases x)
          case None
          then have "\<not> arg_at m n name j" if "p \<le> j" for j
            using x(2) upto that by (cases "j < i + 1") auto
          with None x(1) calculation show ?thesis by auto
        next
          case (Some al)
          obtain a l where al: "al = (a, l)" by (cases al)
          with Some x(2) obtain j where j: "i + 1 \<le> j" "arg_at m n name j"
            "\<forall>k. i + 1 \<le> k \<and> k < j \<longrightarrow> \<not> arg_at m n name k" and rest:
            "a = j + length name + 1" "a + l \<le> n" "\<forall>k. a \<le> k \<and> k < a + l \<longrightarrow> m ! k \<noteq> c_amp"
            "a + l < n \<longrightarrow> m ! (a + l) = c_amp" by auto
          have "\<not> arg_at m n name k" if "p \<le> k" "k < j" for k
            using j(3) upto that by (cases "k < i + 1") auto
          with Some al x(1) calculation j rest i(1) show ?thesis by auto
        qed
      qed
    qed
  qed
qed

text \<open>
  C25. \<open>ngx_http_arg\<close> finds an argument of the query string by its name, in any case: it reads
  only the arguments, and the value it returns is that of the first place where the name
  starts an argument and an equals sign follows, up to the next ampersand or the end;
  \<open>NGX_DECLINED\<close> means that there is no such place.
\<close>

theorem ngx_http_arg_spec:
  assumes "n \<le> length m" "name \<noteq> []" "0 \<notin> set name" "c_amp \<notin> set name"
  shows "\<exists>r. ngx_http_arg m n name = Some r \<and>
    (case r of
       None \<Rightarrow> (\<forall>i. \<not> arg_at m n name i)
     | Some (a, l) \<Rightarrow> \<exists>i. arg_at m n name i \<and> (\<forall>j < i. \<not> arg_at m n name j) \<and>
         a = i + length name + 1 \<and> a + l \<le> n \<and> (\<forall>k. a \<le> k \<and> k < a + l \<longrightarrow> m ! k \<noteq> c_amp) \<and>
         (a + l < n \<longrightarrow> m ! (a + l) = c_amp))"
proof (cases "n = 0")
  case True
  then show ?thesis by (simp add: ngx_http_arg_def arg_at_def)
next
  case False
  have ge: "(\<exists>i \<ge> 0. P i) = (\<exists>i. P i)" "(\<forall>i \<ge> 0. P i) = (\<forall>i. P i)" for P :: "nat \<Rightarrow> bool" by auto
  have "0 \<le> j \<and> j < i \<longleftrightarrow> j < i" for i j :: nat by simp
  then show ?thesis
    using http_arg_loop_spec [OF assms, of 0] False unfolding ngx_http_arg_def ge
    by (simp only: if_False)
qed

theorem ngx_http_arg_spec_witness:
  "\<exists>r. ngx_http_arg (str ''xa=1&A=23&b'') 11 (str ''a'') = Some r \<and> r = Some (7, 2) \<and>
     \<not> arg_at (str ''xa=1&A=23&b'') 11 (str ''a'') 1"
proof -
  have "ngx_http_arg (str ''xa=1&A=23&b'') 11 (str ''a'') = Some (Some (7, 2))" by code_simp
  then show ?thesis
    using ngx_http_arg_spec [of 11 "str ''xa=1&A=23&b''" "str ''a''"]
    by (auto simp: arg_at_def)
qed

section \<open>Values in repeated headers\<close>









section \<open>The status line\<close>

interpretation sl: scanner sl_step
  by unfold_locales (simp add: sl_step_def)

lemma sl_step_Return: "sl_step buf p ch s = Return rc s' \<Longrightarrow> rc = Sl_ERROR"
  by (cases "sl_st s") (auto simp: sl_step_def sl_expect_def sl_status_code_def Let_def split: if_splits)

text \<open>
  C22. A status line may arrive in pieces: parsing the rest from where the first call answered
  \<open>NGX_AGAIN\<close> gives the answer of one call on all the data, and the same status and position
  unless the line is bad.
\<close>

theorem ngx_http_parse_status_line_resume:
  assumes "pos \<le> length buf" "ngx_http_parse_status_line s buf pos = (Sl_AGAIN, s', q)"
  shows "let all = ngx_http_parse_status_line s (buf @ rest) pos;
             part = ngx_http_parse_status_line s' (buf @ rest) q
         in fst all = fst part \<and> (fst all \<noteq> Sl_ERROR \<longrightarrow> all = part)"
proof -
  have "scan_buf sl_step buf pos s = Exhausted s' \<and> q = length buf"
    using assms(2) by (auto simp: ngx_http_parse_status_line_def scan_buf_def
        split: scanned.splits dest!: scan_Returned_body sl_step_Return)
  with sl.scan_buf_resume [OF assms(1), of rest s]
  have "scan_buf sl_step (buf @ rest) pos s = scan_buf sl_step (buf @ rest) q s'" by simp
  then show ?thesis
    by (auto simp: ngx_http_parse_status_line_def scan_buf_def Let_def split: scanned.splits
        dest!: scan_Returned_body sl_step_Return)
qed

definition sl_init :: sl_status where
  "sl_init = \<lparr>sl_st = sl_sw_start, sl_code = 0, sl_count = 0, sl_start = None, sl_end = None\<rparr>"

theorem ngx_http_parse_status_line_resume_witness:
  "let part = ngx_http_parse_status_line
       \<lparr>sl_st = sl_sw_status, sl_code = 2, sl_count = 1, sl_start = None, sl_end = None\<rparr>
       (str ''HTTP/1.1 2'' @ str ''00 OK'' @ [CR, LF]) 10
   in ngx_http_parse_status_line sl_init (str ''HTTP/1.1 2'' @ str ''00 OK'' @ [CR, LF]) 0 = part \<and>
      fst part = Sl_OK"
proof -
  have "ngx_http_parse_status_line sl_init (str ''HTTP/1.1 2'') 0 =
    (Sl_AGAIN, \<lparr>sl_st = sl_sw_status, sl_code = 2, sl_count = 1, sl_start = None, sl_end = None\<rparr>, 10)"
    by code_simp
  moreover have "fst (ngx_http_parse_status_line sl_init (str ''HTTP/1.1 2'' @ str ''00 OK'' @ [CR, LF]) 0)
    = Sl_OK" by code_simp
  ultimately show ?thesis
    using ngx_http_parse_status_line_resume [of 0 "str ''HTTP/1.1 2''" sl_init _ _ "str ''00 OK'' @ [CR, LF]"]
    by (simp add: Let_def)
qed

lemma scan_two_parts:
  assumes "scan body (pre @ xs @ ys @ zs) (length pre) xs s = Exhausted t"
    "scan body (pre @ xs @ ys @ zs) (length pre + length xs) ys t = Exhausted u"
  shows "scan_buf body (pre @ xs @ ys @ zs) (length pre) s =
    scan body (pre @ xs @ ys @ zs) (length pre + length xs + length ys) zs u"
  using assms by (simp add: scan_buf_def scan_append)

text \<open>
  A well-formed status line is split into its parts: the status code is the number of its
  three digits, and the text from the code to the end of the line is what \<open>start\<close> and \<open>end\<close>
  delimit.
\<close>

theorem ngx_http_parse_status_line_code:
  assumes "sl_digit a" "sl_digit b" "sl_digit c" "sl_digit minor" "CR \<notin> set txt" "LF \<notin> set txt"
  shows "ngx_http_parse_status_line sl_init
      (pre @ str ''HTTP/1.'' @ [minor] @ str '' '' @ [a, b, c] @ str '' '' @ txt @ [CR, LF] @ rest) (length pre) =
    (Sl_OK, \<lparr>sl_st = sl_sw_start,
       sl_code = (ucast a - 48) * 100 + (ucast b - 48) * 10 + (ucast c - 48), sl_count = 3,
       sl_start = Some (length pre + 9), sl_end = Some (length pre + 13 + length txt)\<rparr>,
     length pre + 15 + length txt)"
proof -
  let ?buf = "pre @ str ''HTTP/1.'' @ [minor] @ str '' '' @ [a, b, c] @ str '' '' @ txt @ [CR, LF] @ rest"
  let ?head = "str ''HTTP/1.'' @ [minor] @ str '' '' @ [a, b, c] @ str '' ''"
  let ?s = "\<lparr>sl_st = sl_sw_status_text,
       sl_code = (ucast a - 48) * 100 + (ucast b - 48) * 10 + (ucast c - 48), sl_count = 3,
       sl_start = Some (length pre + 9), sl_end = None\<rparr>"
  have nsp: "x \<noteq> c_space" "x \<noteq> c_dot" if "sl_digit x" for x
    using that by (auto simp: sl_digit_def)
  have "scan sl_step ?buf (length pre + 13) txt ?s = Exhausted ?s"
    using assms(5,6) by (intro scan_stay) (auto simp: sl_step_def in_set_conv_nth)
  moreover have "\<not> (49 :: u_char) < 49" "\<not> (57 :: u_char) < 49" by simp_all
  moreover have "scan sl_step ?buf (length pre) ?head sl_init = Exhausted ?s"
    using assms(1-4) nsp calculation(2,3)
    by (simp add: sl_step_def sl_init_def sl_expect_def sl_status_code_def sl_digit_def algebra_simps)
  moreover have "length ?head = 13" by simp
  ultimately have "scan_buf sl_step ?buf (length pre) sl_init =
    scan sl_step ?buf (length pre + 13 + length txt) ([CR, LF] @ rest) ?s"
    using scan_two_parts [of sl_step pre ?head "txt" "[CR, LF] @ rest" sl_init ?s ?s]
    by (simp only: append_assoc simp_thms)
  then show ?thesis
    by (simp add: ngx_http_parse_status_line_def sl_step_def)
qed

theorem ngx_http_parse_status_line_code_witness:
  "sl_code (fst (snd (ngx_http_parse_status_line sl_init
     ([] @ str ''HTTP/1.'' @ [c_1] @ str '' '' @ [50, 48, 52] @ str '' '' @ str ''No'' @ [CR, LF] @ []) (length [])))) = 204"
  using ngx_http_parse_status_line_code [of 50 48 52 c_1 "str ''No''" "[]" "[]"]
  by (simp add: sl_digit_def)

text \<open>
  Spaces between the digits of the code are skipped, and the start of the status text is then
  two bytes before the last digit, which is not the first digit.
\<close>

theorem ngx_http_parse_status_line_spaces:
  "ngx_http_parse_status_line sl_init (str ''HTTP/1.0 2 0 0'' @ [LF]) 0 =
     (Sl_OK, \<lparr>sl_st = sl_sw_start, sl_code = 200, sl_count = 3, sl_start = Some 11, sl_end = Some 14\<rparr>, 15)"
  by code_simp

end
