(* ===== verification/Ngx_Mail_Session.thy ===== *)
theory Ngx_Mail_Session
  imports Ngx_Scan
begin

text \<open>
  What the three command parsers of \<open>src/src/mail/ngx_mail_parse.c\<close> share: the fields of
  \<open>ngx_mail_session_t\<close> they use, the array of arguments and the end of a command.

  The buffer \<open>s->buffer\<close> holds the bytes from \<open>start\<close> to \<open>last\<close>; pointers are indices. The
  array \<open>s->args\<close> is the list of its strings, each the index of its first byte and its
  length. \<open>ngx_array_push\<close> may fail to allocate: \<open>can_push n\<close> says whether pushing to an
  array of \<open>n\<close> elements succeeds. \<open>Ml_Undefined\<close> stands for the use of a pointer that is not
  set and for a negative length. The sources are taken as compiled with \<open>NGX_MAIL_SSL\<close>.
\<close>

section \<open>Model\<close>

datatype ml_rc =
  Ml_OK | Ml_AGAIN | Ml_ERROR | Ml_INVALID_COMMAND | Ml_IMAP_NEXT | Ml_Undefined

datatype ml_label = Ml_done | Ml_invalid

text \<open>The type of the states differs between the protocols.\<close>

record 'st mail_session =
  ml_state :: 'st
  ml_pos :: nat
  ml_command :: ngx_uint_t
  ml_args :: "(nat \<times> nat) list"
  cmd_start :: "nat option"
  arg_start :: "nat option"
  arg_end :: "nat option"
  ml_tag :: "nat \<times> nat"
  quoted :: bool
  backslash :: bool
  no_sync_literal :: bool
  literal_len :: ngx_uint_t

type_synonym 'st ml_result = "('st mail_session, ml_label, ml_rc) step"

text \<open>\<open>ch\<close> is a letter.\<close>

definition ml_alpha :: "u_char \<Rightarrow> bool" where
  "ml_alpha ch \<longleftrightarrow> \<not> ((ch < c_A \<or> ch > c_Z) \<and> (ch < c_a \<or> ch > c_z))"

text \<open>
  \<open>arg = ngx_array_push(&s->args); arg->len = stop - s->arg_start; arg->data = s->arg_start;
  s->arg_start = NULL\<close>, as a sum: an error code or the session to go on with.
\<close>

definition ml_push ::
  "(nat \<Rightarrow> bool) \<Rightarrow> nat \<Rightarrow> 'st mail_session \<Rightarrow> ml_rc + 'st mail_session" where
  "ml_push can_push stop s =
     (if \<not> can_push (length (ml_args s)) then Inl Ml_ERROR
      else
        (case arg_start s of
           None \<Rightarrow> Inl Ml_Undefined
         | Some a \<Rightarrow>
             if stop < a then Inl Ml_Undefined
             else Inr (s\<lparr>ml_args := ml_args s @ [(a, stop - a)], arg_start := None\<rparr>)))"

text \<open>
  The code behind the loop. \<open>st0\<close> is the value \<open>s->state\<close> has while the loop runs with its
  local copy; it is overwritten at the end of the data, at \<open>done\<close> and at \<open>invalid\<close>, and by the
  two parsers that return from the loop, which then store it themselves.
\<close>

definition ml_done ::
  "(nat \<Rightarrow> bool) \<Rightarrow> 'st \<Rightarrow> ('st mail_session \<Rightarrow> 'st mail_session) \<Rightarrow>
   ('st mail_session \<Rightarrow> 'st) \<Rightarrow> 'st mail_session \<Rightarrow> nat \<Rightarrow> ml_rc \<times> 'st mail_session" where
  "ml_done can_push st0 reset next_state s p =
     (let s = s\<lparr>ml_pos := p + 1\<rparr> in
      case arg_start s of
        None \<Rightarrow> (Ml_OK, s\<lparr>ml_state := next_state s\<rparr>)
      | Some _ \<Rightarrow>
          (case arg_end s of
             None \<Rightarrow> (Ml_Undefined, s\<lparr>ml_state := st0\<rparr>)
           | Some e \<Rightarrow>
               (case ml_push can_push e s of
                  Inl rc \<Rightarrow> (rc, s\<lparr>ml_state := st0\<rparr>)
                | Inr s' \<Rightarrow> (Ml_OK, (reset s')\<lparr>ml_state := next_state s'\<rparr>))))"

definition ml_finish ::
  "(nat \<Rightarrow> bool) \<Rightarrow> 'st \<Rightarrow> ('st mail_session \<Rightarrow> 'st mail_session) \<Rightarrow>
   ('st mail_session \<Rightarrow> 'st) \<Rightarrow> ('st mail_session \<Rightarrow> 'st mail_session) \<Rightarrow> nat \<Rightarrow>
   ('st mail_session, ml_label, ml_rc) scanned \<Rightarrow> ml_rc \<times> 'st mail_session" where
  "ml_finish can_push st0 reset next_state invalid len r =
     (case r of
        Exhausted s \<Rightarrow> (Ml_AGAIN, s\<lparr>ml_pos := len\<rparr>)
      | Jumped Ml_done s p \<Rightarrow> ml_done can_push st0 reset next_state s p
      | Jumped Ml_invalid s p \<Rightarrow> (Ml_INVALID_COMMAND, invalid s)
      | Returned rc s p \<Rightarrow>
          (rc, if rc \<in> {Ml_ERROR, Ml_Undefined} then s\<lparr>ml_state := st0\<rparr> else s))"

definition ml_parse ::
  "('st mail_session, ml_label, ml_rc) scan_body \<Rightarrow> (nat \<Rightarrow> bool) \<Rightarrow>
   ('st mail_session \<Rightarrow> 'st mail_session) \<Rightarrow> ('st mail_session \<Rightarrow> 'st) \<Rightarrow>
   ('st mail_session \<Rightarrow> 'st mail_session) \<Rightarrow> bytes \<Rightarrow> 'st mail_session \<Rightarrow>
   ml_rc \<times> 'st mail_session" where
  "ml_parse body can_push reset next_state invalid buf s =
     ml_finish can_push (ml_state s) reset next_state invalid (length buf)
       (scan_buf body buf (ml_pos s) s)"

section \<open>Feeding a parser in pieces\<close>

text \<open>The session up to the position and the stored state.\<close>

definition ml_strip :: "'st mail_session \<Rightarrow> 'st mail_session" where
  "ml_strip s = s\<lparr>ml_pos := 0\<rparr>"

definition ml_same :: "ml_rc \<times> 'st mail_session \<Rightarrow> ml_rc \<times> 'st mail_session \<Rightarrow> bool" where
  "ml_same x y \<longleftrightarrow> fst x = fst y \<and>
     (let s = snd x; t = snd y in
      (fst x \<in> {Ml_OK, Ml_AGAIN} \<longrightarrow> s = t) \<and>
      (fst x \<in> {Ml_INVALID_COMMAND, Ml_IMAP_NEXT} \<longrightarrow> ml_strip s = ml_strip t) \<and>
      ml_strip (s\<lparr>ml_state := ml_state t\<rparr>) = ml_strip t)"

text \<open>
  The contract of a command parser: its body looks only at what has been read, passes the
  position on, and returns from the loop with a final answer only; what it does behind the
  loop does not look at the position either.
\<close>

locale mail_parser = scanner_upto body ml_strip
  for body :: "('st mail_session, ml_label, ml_rc) scan_body" +
  fixes can_push :: "nat \<Rightarrow> bool"
    and reset :: "'st mail_session \<Rightarrow> 'st mail_session"
    and next_state :: "'st mail_session \<Rightarrow> 'st"
    and invalid :: "'st mail_session \<Rightarrow> 'st mail_session"
  assumes body_Return: "body buf p ch s = Return rc s' \<Longrightarrow> rc \<notin> {Ml_OK, Ml_AGAIN}"
    and reset_pos: "reset (s\<lparr>ml_pos := n\<rparr>) = (reset s)\<lparr>ml_pos := n\<rparr>"
    and next_state_pos: "next_state (s\<lparr>ml_pos := n\<rparr>) = next_state s"
    and invalid_pos: "invalid (s\<lparr>ml_pos := n\<rparr>) = (invalid s)\<lparr>ml_pos := n\<rparr>"
begin

lemma ml_strip_eqD: "ml_strip s = ml_strip t \<Longrightarrow> t = s\<lparr>ml_pos := ml_pos t\<rparr>"
  by (cases s; cases t) (simp add: ml_strip_def)

lemma ml_strip_pos: "ml_strip s = ml_strip t \<Longrightarrow> s\<lparr>ml_pos := n\<rparr> = t\<lparr>ml_pos := n\<rparr>"
  by (cases s; cases t) (simp add: ml_strip_def)

lemma ml_done_strip:
  assumes "ml_strip s = ml_strip t"
  shows "ml_same (ml_done can_push st0 reset next_state s p) (ml_done can_push st1 reset next_state t p)"
proof -
  show ?thesis
    using ml_strip_pos [OF assms, of "p + 1"]
    by (auto simp: ml_done_def ml_same_def ml_strip_def Let_def ml_push_def
        split: option.splits sum.splits if_splits)
qed

lemma ml_finish_strip:
  assumes "map_scanned ml_strip id id r1 = map_scanned ml_strip id id r2"
    and "\<And>rc s q. r1 = Returned rc s q \<Longrightarrow> rc \<notin> {Ml_OK, Ml_AGAIN}"
  shows "ml_same (ml_finish can_push st0 reset next_state invalid len r1)
    (ml_finish can_push st1 reset next_state invalid len r2)"
proof (cases r1)
  case (Exhausted s)
  then obtain t where "r2 = Exhausted t" "ml_strip s = ml_strip t"
    using assms(1) by (cases r2) auto
  then show ?thesis
    using Exhausted ml_strip_pos [of s t len]
    by (simp add: ml_finish_def ml_same_def)
next
  case (Jumped l s p)
  then obtain t where r2: "r2 = Jumped l t p" and st: "ml_strip s = ml_strip t"
    using assms(1) by (cases r2) auto
  show ?thesis
  proof (cases l)
    case Ml_done
    then show ?thesis using Jumped r2 ml_done_strip [OF st] by (simp add: ml_finish_def)
  next
    case Ml_invalid
    have "invalid t = (invalid s)\<lparr>ml_pos := ml_pos t\<rparr>"
      using ml_strip_eqD [OF st] invalid_pos by metis
    then show ?thesis
      using Ml_invalid Jumped r2 by (simp add: ml_finish_def ml_same_def ml_strip_def)
  qed
next
  case (Returned rc s p)
  then obtain t where r2: "r2 = Returned rc t p" and st: "ml_strip s = ml_strip t"
    using assms(1) by (cases r2) auto
  have "t = s\<lparr>ml_pos := ml_pos t\<rparr>" using ml_strip_eqD [OF st] .
  then show ?thesis
    using Returned r2 assms(2) [OF Returned] st
    by (cases s; cases t) (auto simp: ml_finish_def ml_same_def ml_strip_def)
qed

lemma ml_finish_Returned:
  assumes "scan_buf body buf pos s = Returned rc s' q"
  shows "rc \<notin> {Ml_OK, Ml_AGAIN}"
  using assms scan_Returned_body body_Return unfolding scan_buf_def by metis

lemma parse_resume:
  assumes pos: "ml_pos s \<le> length buf"
    and one: "ml_parse body can_push reset next_state invalid buf s = (rc1, s1)"
  shows "if rc1 \<noteq> Ml_AGAIN
    then ml_parse body can_push reset next_state invalid (buf @ rest) s = (rc1, s1)
    else ml_pos s1 = length buf \<and>
      ml_same (ml_parse body can_push reset next_state invalid (buf @ rest) s)
        (ml_parse body can_push reset next_state invalid (buf @ rest) s1)"
proof (cases "scan_buf body buf (ml_pos s) s")
  case (Exhausted s')
  then have s1: "rc1 = Ml_AGAIN" "s1 = s'\<lparr>ml_pos := length buf\<rparr>"
    using one by (auto simp: ml_parse_def ml_finish_def)
  then have "ml_strip s1 = ml_strip s'" by (simp add: ml_strip_def)
  note eq = scan_buf_resume_strip [OF pos Exhausted this, of rest]
  have "ml_pos s1 = length buf" using s1 by simp
  moreover have "ml_same (ml_parse body can_push reset next_state invalid (buf @ rest) s)
      (ml_parse body can_push reset next_state invalid (buf @ rest) s1)"
    unfolding ml_parse_def \<open>ml_pos s1 = length buf\<close>
    by (rule ml_finish_strip [OF eq]) (rule ml_finish_Returned)
  ultimately show ?thesis using s1(1) by simp
next
  case (Jumped l s' p)
  then show ?thesis
    using one scan_buf_resume [OF pos, of rest s]
    by (auto simp: ml_parse_def ml_finish_def ml_done_def ml_push_def Let_def
        split: ml_label.splits option.splits if_splits)
next
  case (Returned rc s' p)
  then show ?thesis
    using one scan_buf_resume [OF pos, of rest s] ml_finish_Returned [OF Returned]
    by (auto simp: ml_parse_def ml_finish_def)
qed

end

section \<open>Arguments in the buffer\<close>

text \<open>The arguments follow each other, with at least one byte between them, in front of \<open>p\<close>.\<close>

definition ml_ordered :: "(nat \<times> nat) list \<Rightarrow> bool" where
  "ml_ordered args \<longleftrightarrow> sorted_wrt (\<lambda>(a, n) (b, _). a + n < b) args"

definition ml_before :: "nat \<Rightarrow> (nat \<times> nat) list \<Rightarrow> bool" where
  "ml_before p args \<longleftrightarrow> (\<forall>(a, n) \<in> set args. a + n < p)"

lemma ml_before_mono: "ml_before p args \<Longrightarrow> p \<le> q \<Longrightarrow> ml_before q args"
  by (fastforce simp: ml_before_def)

lemma ml_ordered_snoc:
  "ml_ordered args \<Longrightarrow> ml_before a args \<Longrightarrow> ml_ordered (args @ [(a, n)])"
  by (auto simp: ml_ordered_def ml_before_def sorted_wrt_append)

end
