(* ===== verification/Ngx_Mail_Pop3_Smtp.thy ===== *)
theory Ngx_Mail_Pop3_Smtp
  imports Ngx_Mail_Session
begin

text \<open>
  The parsers of POP3 and SMTP commands, \<open>ngx_mail_pop3_parse_command\<close> and
  \<open>ngx_mail_smtp_parse_command\<close> of \<open>src/src/mail/ngx_mail_parse.c\<close>. Both have the same four
  states; they differ in their commands, in the number of arguments and in the treatment of
  spaces in POP3 user names and passwords.
\<close>

section \<open>Model\<close>

datatype mc_state = mc_sw_start | mc_sw_spaces_before_argument | mc_sw_argument | mc_sw_almost_done

definition NGX_POP3_USER :: ngx_uint_t where "NGX_POP3_USER = 1"
definition NGX_POP3_PASS :: ngx_uint_t where "NGX_POP3_PASS = 2"
definition NGX_POP3_AUTH :: ngx_uint_t where "NGX_POP3_AUTH = 8"
definition NGX_SMTP_AUTH :: ngx_uint_t where "NGX_SMTP_AUTH = 3"

text \<open>The command in front of index \<open>p\<close>, in either case.\<close>

definition pop3_command :: "bytes \<Rightarrow> nat \<Rightarrow> ngx_uint_t option" where
  "pop3_command buf p =
     (if p = 4 then
        (let c = map ngx_toupper (take 4 buf) in
         if c = str ''USER'' then Some NGX_POP3_USER
         else if c = str ''PASS'' then Some NGX_POP3_PASS
         else if c = str ''APOP'' then Some 7
         else if c = str ''QUIT'' then Some 4
         else if c = str ''CAPA'' then Some 3
         else if c = str ''AUTH'' then Some NGX_POP3_AUTH
         else if c = str ''NOOP'' then Some 5
         else if c = str ''STLS'' then Some 6
         else None)
      else None)"

definition smtp_command :: "bytes \<Rightarrow> nat \<Rightarrow> ngx_uint_t option" where
  "smtp_command buf p =
     (if p = 4 then
        (let c = map ngx_toupper (take 4 buf) in
         if c = str ''HELO'' then Some 1
         else if c = str ''EHLO'' then Some 2
         else if c = str ''QUIT'' then Some 4
         else if c = str ''AUTH'' then Some NGX_SMTP_AUTH
         else if c = str ''NOOP'' then Some 5
         else if c = str ''MAIL'' then Some 6
         else if c = str ''RSET'' then Some 7
         else if c = str ''RCPT'' then Some 8
         else if c = str ''VRFY'' then Some 10
         else if c = str ''EXPN'' then Some 11
         else if c = str ''HELP'' then Some 12
         else None)
      else if p = 8 then
        (if map ngx_toupper (take 8 buf) = str ''STARTTLS'' then Some 13 else None)
      else None)"

text \<open>\<open>switch (ch)\<close> behind a command or an argument; \<open>ch\<close> is a space, CR or LF.\<close>

definition mc_word_end :: "u_char \<Rightarrow> mc_state mail_session \<Rightarrow> mc_state ml_result" where
  "mc_word_end ch s =
     (if ch = c_space then Cont (s\<lparr>ml_state := mc_sw_spaces_before_argument\<rparr>)
      else if ch = CR then Cont (s\<lparr>ml_state := mc_sw_almost_done\<rparr>)
      else if ch = LF then Goto Ml_done s
      else Cont s)"

definition mc_start ::
  "(bytes \<Rightarrow> nat \<Rightarrow> ngx_uint_t option) \<Rightarrow> bytes \<Rightarrow> nat \<Rightarrow> u_char \<Rightarrow> mc_state mail_session \<Rightarrow>
   mc_state ml_result" where
  "mc_start command buf p ch s =
     (if ch = c_space \<or> ch = CR \<or> ch = LF then
        (case command buf p of
           None \<Rightarrow> Goto Ml_invalid s
         | Some c \<Rightarrow> mc_word_end ch (s\<lparr>ml_command := c\<rparr>))
      else if \<not> ml_alpha ch then Goto Ml_invalid s
      else Cont s)"

definition mc_spaces_before_argument ::
  "nat \<Rightarrow> nat \<Rightarrow> u_char \<Rightarrow> mc_state mail_session \<Rightarrow> mc_state ml_result" where
  "mc_spaces_before_argument limit p ch s =
     (if ch = c_space then Cont s
      else if ch = CR then Cont (s\<lparr>ml_state := mc_sw_almost_done, arg_end := Some p\<rparr>)
      else if ch = LF then Goto Ml_done (s\<lparr>arg_end := Some p\<rparr>)
      else if length (ml_args s) \<le> limit then
        Cont (s\<lparr>ml_state := mc_sw_argument, arg_start := Some p\<rparr>)
      else Goto Ml_invalid s)"

text \<open>\<open>spaces\<close> says whether a space belongs to the argument.\<close>

definition mc_argument ::
  "(nat \<Rightarrow> bool) \<Rightarrow> bool \<Rightarrow> nat \<Rightarrow> u_char \<Rightarrow> mc_state mail_session \<Rightarrow> mc_state ml_result" where
  "mc_argument can_push spaces p ch s =
     (if ch = c_space \<and> spaces then Cont s
      else if ch = c_space \<or> ch = CR \<or> ch = LF then
        (case ml_push can_push p s of
           Inl rc \<Rightarrow> Return rc s
         | Inr s' \<Rightarrow> mc_word_end ch s')
      else Cont s)"

definition mc_almost_done :: "u_char \<Rightarrow> mc_state mail_session \<Rightarrow> mc_state ml_result" where
  "mc_almost_done ch s = (if ch = LF then Goto Ml_done s else Goto Ml_invalid s)"

definition mc_invalid :: "mc_state mail_session \<Rightarrow> mc_state mail_session" where
  "mc_invalid s = s\<lparr>ml_state := mc_sw_start, arg_start := None\<rparr>"

definition pop3_step ::
  "(nat \<Rightarrow> bool) \<Rightarrow> bytes \<Rightarrow> nat \<Rightarrow> u_char \<Rightarrow> mc_state mail_session \<Rightarrow> mc_state ml_result" where
  "pop3_step can_push buf p ch s =
     (case ml_state s of
        mc_sw_start \<Rightarrow> mc_start pop3_command buf p ch s
      | mc_sw_spaces_before_argument \<Rightarrow> mc_spaces_before_argument 2 p ch s
      | mc_sw_argument \<Rightarrow>
          mc_argument can_push (ml_command s = NGX_POP3_USER \<or> ml_command s = NGX_POP3_PASS) p ch s
      | mc_sw_almost_done \<Rightarrow> mc_almost_done ch s)"

definition smtp_step ::
  "(nat \<Rightarrow> bool) \<Rightarrow> bytes \<Rightarrow> nat \<Rightarrow> u_char \<Rightarrow> mc_state mail_session \<Rightarrow> mc_state ml_result" where
  "smtp_step can_push buf p ch s =
     (case ml_state s of
        mc_sw_start \<Rightarrow> mc_start smtp_command buf p ch s
      | mc_sw_spaces_before_argument \<Rightarrow> mc_spaces_before_argument 10 p ch s
      | mc_sw_argument \<Rightarrow> mc_argument can_push False p ch s
      | mc_sw_almost_done \<Rightarrow> mc_almost_done ch s)"

definition pop3_next_state :: "mc_state mail_session \<Rightarrow> mc_state" where
  "pop3_next_state s = (if ml_command s \<noteq> NGX_POP3_AUTH then mc_sw_start else mc_sw_argument)"

definition smtp_next_state :: "mc_state mail_session \<Rightarrow> mc_state" where
  "smtp_next_state s = (if ml_command s \<noteq> NGX_SMTP_AUTH then mc_sw_start else mc_sw_argument)"

definition ngx_mail_pop3_parse_command ::
  "(nat \<Rightarrow> bool) \<Rightarrow> bytes \<Rightarrow> mc_state mail_session \<Rightarrow> ml_rc \<times> mc_state mail_session" where
  "ngx_mail_pop3_parse_command can_push buf s =
     ml_parse (pop3_step can_push) can_push (\<lambda>s. s) pop3_next_state mc_invalid buf s"

definition ngx_mail_smtp_parse_command ::
  "(nat \<Rightarrow> bool) \<Rightarrow> bytes \<Rightarrow> mc_state mail_session \<Rightarrow> ml_rc \<times> mc_state mail_session" where
  "ngx_mail_smtp_parse_command can_push buf s =
     ml_parse (smtp_step can_push) can_push (\<lambda>s. s) smtp_next_state mc_invalid buf s"

section \<open>Feeding the parsers in pieces\<close>

lemma take_le_cong:
  assumes "take n xs = take n ys" "m \<le> n"
  shows "take m xs = take m ys"
  using assms by (metis min_absorb1 take_take)

lemma pop3_command_cong: "take (Suc p) b = take (Suc p) b' \<Longrightarrow> pop3_command b p = pop3_command b' p"
  using take_le_cong [of "Suc p" b b' 4] by (auto simp: pop3_command_def)

lemma smtp_command_cong: "take (Suc p) b = take (Suc p) b' \<Longrightarrow> smtp_command b p = smtp_command b' p"
  using take_le_cong [of "Suc p" b b' 4] take_le_cong [of "Suc p" b b' 8]
  by (auto simp: smtp_command_def)

lemma mc_start_cong:
  "command b p = command b' p \<Longrightarrow> mc_start command b p ch s = mc_start command b' p ch s"
  by (simp add: mc_start_def)

lemmas mc_step_defs =
  mc_start_def mc_spaces_before_argument_def mc_argument_def mc_almost_done_def mc_word_end_def
  ml_push_def

text \<open>The position is passed on.\<close>

definition mc_pos :: "nat \<Rightarrow> mc_state ml_result \<Rightarrow> mc_state ml_result" where
  "mc_pos n x = map_step (\<lambda>s. s\<lparr>ml_pos := n\<rparr>) id id x"

lemma mc_start_pos: "mc_start command b p ch (s\<lparr>ml_pos := n\<rparr>) = mc_pos n (mc_start command b p ch s)"
  by (cases "command b p") (simp_all add: mc_start_def mc_word_end_def mc_pos_def)

lemma mc_spaces_pos:
  "mc_spaces_before_argument k p ch (s\<lparr>ml_pos := n\<rparr>) = mc_pos n (mc_spaces_before_argument k p ch s)"
  by (simp add: mc_spaces_before_argument_def mc_pos_def)

lemma mc_argument_pos: "mc_argument f b p ch (s\<lparr>ml_pos := n\<rparr>) = mc_pos n (mc_argument f b p ch s)"
  by (cases "arg_start s") (simp_all add: mc_argument_def ml_push_def mc_word_end_def mc_pos_def)

lemma mc_almost_done_pos: "mc_almost_done ch (s\<lparr>ml_pos := n\<rparr>) = mc_pos n (mc_almost_done ch s)"
  by (simp add: mc_almost_done_def mc_pos_def)

lemmas mc_step_pos = mc_start_pos mc_spaces_pos mc_argument_pos mc_almost_done_pos

lemma pop3_step_pos: "pop3_step f b p ch (s\<lparr>ml_pos := n\<rparr>) = mc_pos n (pop3_step f b p ch s)"
  by (simp add: pop3_step_def mc_step_pos split: mc_state.split)

lemma smtp_step_pos: "smtp_step f b p ch (s\<lparr>ml_pos := n\<rparr>) = mc_pos n (smtp_step f b p ch s)"
  by (simp add: smtp_step_def mc_step_pos split: mc_state.split)

lemma map_step_strip_pos:
  assumes "\<And>s n. f (s\<lparr>ml_pos := n\<rparr>) = mc_pos n (f s)" and "ml_strip s = ml_strip t"
  shows "map_step ml_strip id id (f s) = map_step ml_strip id id (f t)"
proof -
  have *: "map_step ml_strip id id (f u) = f (ml_strip u)" for u
    using assms(1) [where s = u and n = 0] by (simp add: mc_pos_def ml_strip_def [abs_def])
  show ?thesis unfolding * assms(2) ..
qed

lemma mc_step_Return:
  "pop3_step f b p ch s = Return rc s' \<Longrightarrow> rc \<in> {Ml_ERROR, Ml_Undefined}"
  "smtp_step f b p ch s = Return rc s' \<Longrightarrow> rc \<in> {Ml_ERROR, Ml_Undefined}"
  by (cases "ml_state s";
      auto simp: pop3_step_def smtp_step_def mc_step_defs split: if_splits option.splits)+

interpretation pop3: mail_parser "pop3_step can_push" can_push "\<lambda>s. s" pop3_next_state mc_invalid
  for can_push
proof
  fix p buf buf' ch s
  assume "take (Suc p) buf = take (Suc p) (buf' :: bytes)"
  from mc_start_cong [where command = pop3_command, OF pop3_command_cong [OF this]]
  show "pop3_step can_push buf p ch s = pop3_step can_push buf' p ch s"
    by (simp add: pop3_step_def split: mc_state.split)
next
  show "ml_strip s = ml_strip t \<Longrightarrow> map_step ml_strip id id (pop3_step can_push buf p ch s) =
      map_step ml_strip id id (pop3_step can_push buf p ch t)" for s t buf p ch
    by (rule map_step_strip_pos [OF pop3_step_pos])
next
  show "pop3_step can_push buf p ch s = Return rc s' \<Longrightarrow> rc \<notin> {Ml_OK, Ml_AGAIN}" for buf p ch s rc s'
    by (drule mc_step_Return) auto
qed (simp_all add: pop3_next_state_def mc_invalid_def)

interpretation smtp: mail_parser "smtp_step can_push" can_push "\<lambda>s. s" smtp_next_state mc_invalid
  for can_push
proof
  fix p buf buf' ch s
  assume "take (Suc p) buf = take (Suc p) (buf' :: bytes)"
  from mc_start_cong [where command = smtp_command, OF smtp_command_cong [OF this]]
  show "smtp_step can_push buf p ch s = smtp_step can_push buf' p ch s"
    by (simp add: smtp_step_def split: mc_state.split)
next
  show "ml_strip s = ml_strip t \<Longrightarrow> map_step ml_strip id id (smtp_step can_push buf p ch s) =
      map_step ml_strip id id (smtp_step can_push buf p ch t)" for s t buf p ch
    by (rule map_step_strip_pos [OF smtp_step_pos])
next
  show "smtp_step can_push buf p ch s = Return rc s' \<Longrightarrow> rc \<notin> {Ml_OK, Ml_AGAIN}" for buf p ch s rc s'
    by (drule mc_step_Return) auto
qed (simp_all add: smtp_next_state_def mc_invalid_def)

text \<open>
  C26. POP3 and SMTP commands may arrive in pieces: an answer is not changed by more data, and
  after \<open>NGX_AGAIN\<close> the parser continues to the answer, command and arguments that one call on
  all the data gives; only the position and the stored state may differ after an error.
\<close>

theorem ngx_mail_parse_command_resume:
  assumes "ml_pos s \<le> length buf"
    and "parse \<in> {ngx_mail_pop3_parse_command can_push, ngx_mail_smtp_parse_command can_push}"
    and "parse buf s = (rc1, s1)"
  shows "if rc1 \<noteq> Ml_AGAIN then parse (buf @ rest) s = (rc1, s1)
    else ml_pos s1 = length buf \<and> ml_same (parse (buf @ rest) s) (parse (buf @ rest) s1)"
  using assms(2)
proof (elim insertE emptyE)
  assume p: "parse = ngx_mail_pop3_parse_command can_push"
  show ?thesis
    using pop3.parse_resume [OF assms(1), of can_push rc1 s1 rest] assms(3)
    by (simp add: p ngx_mail_pop3_parse_command_def)
next
  assume p: "parse = ngx_mail_smtp_parse_command can_push"
  show ?thesis
    using smtp.parse_resume [OF assms(1), of can_push rc1 s1 rest] assms(3)
    by (simp add: p ngx_mail_smtp_parse_command_def)
qed

section \<open>The arguments\<close>

text \<open>
  The invariant of both parsers at index \<open>p\<close>: the arguments follow each other in the part of
  the buffer that has been read, at most \<open>limit\<close> and one of them, and \<open>arg_start\<close> is set while
  an argument is read and only then.
\<close>

definition mc_inv :: "nat \<Rightarrow> nat \<Rightarrow> mc_state mail_session \<Rightarrow> bool" where
  "mc_inv limit p s \<longleftrightarrow> ml_ordered (ml_args s) \<and>
     (if ml_state s = mc_sw_argument
      then \<exists>a. arg_start s = Some a \<and> a \<le> p \<and> ml_before a (ml_args s) \<and> length (ml_args s) \<le> limit
      else arg_start s = None \<and> ml_before p (ml_args s) \<and> length (ml_args s) \<le> Suc limit)"

text \<open>What a step leads to from a state with the invariant.\<close>

definition mc_good :: "nat \<Rightarrow> nat \<Rightarrow> mc_state ml_result \<Rightarrow> bool" where
  "mc_good limit p x \<longleftrightarrow>
     (case x of
        Cont s \<Rightarrow> mc_inv limit (Suc p) s
      | Goto Ml_done s \<Rightarrow> arg_start s = None \<and> ml_ordered (ml_args s) \<and> ml_before (Suc p) (ml_args s) \<and>
          length (ml_args s) \<le> Suc limit
      | Goto Ml_invalid s \<Rightarrow> True
      | Return rc s \<Rightarrow> rc = Ml_ERROR)"

lemma mc_good_word_end:
  assumes "ml_ordered (ml_args s)" "ml_before (Suc p) (ml_args s)" "length (ml_args s) \<le> Suc limit"
    "arg_start s = None" "ch \<in> {c_space, CR, LF}"
  shows "mc_good limit p (mc_word_end ch s)"
  using assms by (auto simp: mc_word_end_def mc_good_def mc_inv_def)

lemma mc_good_start:
  assumes "mc_inv limit p s" "ml_state s = mc_sw_start"
  shows "mc_good limit p (mc_start command buf p ch s)"
proof -
  have *: "ml_ordered (ml_args s)" "ml_before (Suc p) (ml_args s)" "length (ml_args s) \<le> Suc limit"
    "arg_start s = None"
    using assms by (auto simp: mc_inv_def intro: ml_before_mono)
  have "mc_good limit p (mc_word_end ch (s\<lparr>ml_command := c\<rparr>))" if "ch \<in> {c_space, CR, LF}" for c
    by (rule mc_good_word_end) (use * that in auto)
  moreover have "mc_good limit p (Cont s)" using assms(2) * by (simp add: mc_good_def mc_inv_def)
  moreover have "mc_good limit p (Goto Ml_invalid t)" for t by (simp add: mc_good_def)
  ultimately show ?thesis by (auto simp: mc_start_def split: option.split)
qed

lemma mc_good_spaces:
  assumes "mc_inv limit p s" "ml_state s = mc_sw_spaces_before_argument"
  shows "mc_good limit p (mc_spaces_before_argument limit p ch s)"
proof -
  have *: "ml_ordered (ml_args s)" "ml_before p (ml_args s)" "ml_before (Suc p) (ml_args s)"
    "length (ml_args s) \<le> Suc limit" "arg_start s = None"
    using assms by (auto simp: mc_inv_def intro: ml_before_mono)
  then show ?thesis
    using assms(2) by (auto simp: mc_spaces_before_argument_def mc_good_def mc_inv_def)
qed

lemma mc_good_argument:
  assumes "mc_inv limit p s" "ml_state s = mc_sw_argument"
  shows "mc_good limit p (mc_argument can_push spaces p ch s)"
proof -
  obtain a where a: "arg_start s = Some a" "a \<le> p" "ml_before a (ml_args s)"
    "length (ml_args s) \<le> limit" "ml_ordered (ml_args s)"
    using assms by (auto simp: mc_inv_def)
  let ?s = "s\<lparr>ml_args := ml_args s @ [(a, p - a)], arg_start := None\<rparr>"
  have "mc_good limit p (mc_word_end ch ?s)" if "ch \<in> {c_space, CR, LF}"
  proof (rule mc_good_word_end)
    show "ml_ordered (ml_args ?s)" using a by (simp add: ml_ordered_snoc)
    show "ml_before (Suc p) (ml_args ?s)"
      using a by (auto simp: ml_before_def)
  qed (use a that in auto)
  moreover have "mc_good limit p (Cont s)"
    using a assms(2) by (auto simp: mc_good_def mc_inv_def)
  moreover have "mc_good limit p (Return Ml_ERROR s)" by (simp add: mc_good_def)
  ultimately show ?thesis
    using a by (auto simp: mc_argument_def ml_push_def)
qed

lemma mc_good_almost_done:
  assumes "mc_inv limit p s" "ml_state s = mc_sw_almost_done"
  shows "mc_good limit p (mc_almost_done ch s)"
  using assms by (auto simp: mc_almost_done_def mc_good_def mc_inv_def intro: ml_before_mono)

lemmas mc_good_steps = mc_good_start mc_good_spaces mc_good_argument mc_good_almost_done

lemma pop3_good: "mc_inv 2 p s \<Longrightarrow> mc_good 2 p (pop3_step f buf p ch s)"
  by (cases "ml_state s") (simp_all add: pop3_step_def mc_good_steps)

lemma smtp_good: "mc_inv 10 p s \<Longrightarrow> mc_good 10 p (smtp_step f buf p ch s)"
  by (cases "ml_state s") (simp_all add: smtp_step_def mc_good_steps)

text \<open>From the steps to the parsers.\<close>

lemma ml_parse_arguments:
  assumes good: "\<And>p ch s. mc_inv limit p s \<Longrightarrow> mc_good limit p (body buf p ch s)"
    and "mc_inv limit (ml_pos s) s" and "ml_pos s \<le> length buf"
  shows "case ml_parse body can_push (\<lambda>s. s) next_state mc_invalid buf s of (rc, s') \<Rightarrow>
    rc \<noteq> Ml_Undefined \<and>
    (rc = Ml_AGAIN \<longrightarrow> mc_inv limit (ml_pos s') s') \<and>
    (rc = Ml_OK \<longrightarrow> arg_start s' = None \<and> ml_ordered (ml_args s') \<and>
       ml_before (ml_pos s') (ml_args s') \<and> ml_pos s' \<le> length buf \<and>
       length (ml_args s') \<le> Suc limit)"
proof -
  let ?r = "scan body buf (ml_pos s) (drop (ml_pos s) buf) s"
  have inv: "case ?r of
      Exhausted s' \<Rightarrow> mc_inv limit (length buf) s'
    | Jumped l s' q \<Rightarrow> ml_pos s \<le> q \<and> q < length buf \<and>
        (\<exists>t. mc_inv limit q t \<and> body buf q (buf ! q) t = Goto l s')
    | Returned rc s' q \<Rightarrow> ml_pos s \<le> q \<and> q < length buf \<and>
        (\<exists>t. mc_inv limit q t \<and> body buf q (buf ! q) t = Return rc s')"
  proof (rule scan_invariant)
    fix p ch t t'
    assume "mc_inv limit p t" "body buf p ch t = Cont t'"
    then show "mc_inv limit (Suc p) t'" using good [of p t ch] by (simp add: mc_good_def)
  qed (use assms in auto)
  show ?thesis
  proof (cases ?r)
    case (Exhausted s')
    then show ?thesis
      using inv by (simp add: ml_parse_def ml_finish_def scan_buf_def mc_inv_def)
  next
    case (Jumped l s' q)
    with inv obtain t where t: "mc_inv limit q t" "body buf q (buf ! q) t = Goto l s'" "q < length buf"
      by auto
    from good [OF t(1), of "buf ! q"] t(2,3) Jumped show ?thesis
      by (cases l) (auto simp: ml_parse_def ml_finish_def scan_buf_def mc_good_def ml_done_def Let_def)
  next
    case (Returned rc s' q)
    with inv obtain t where t: "mc_inv limit q t" "body buf q (buf ! q) t = Return rc s'"
      by auto
    from good [OF t(1), of "buf ! q"] t(2) Returned show ?thesis
      by (auto simp: ml_parse_def ml_finish_def scan_buf_def mc_good_def)
  qed
qed

text \<open>
  C27. On a session without pending arguments the POP3 and SMTP parsers never use an unset pointer
  or a negative length. The arguments of an accepted command lie one behind the other in the
  part of the buffer that has been consumed; POP3 accepts at most three of them, SMTP at most
  eleven.
\<close>

theorem ngx_mail_parse_command_arguments:
  assumes "ml_args s = []" "arg_start s = None" "ml_state s \<noteq> mc_sw_argument" "ml_pos s \<le> length buf"
    and "(limit, parse) \<in> {(3, ngx_mail_pop3_parse_command can_push),
      (11, ngx_mail_smtp_parse_command can_push)}"
  shows "case parse buf s of (rc, s') \<Rightarrow> rc \<noteq> Ml_Undefined \<and>
    (rc = Ml_OK \<longrightarrow> arg_start s' = None \<and> ml_ordered (ml_args s') \<and>
       ml_before (ml_pos s') (ml_args s') \<and> ml_pos s' \<le> length buf \<and>
       length (ml_args s') \<le> limit)"
proof -
  have "mc_inv n (ml_pos s) s" for n
    using assms by (auto simp: mc_inv_def ml_before_def ml_ordered_def)
  then show ?thesis
    using assms(5)
      ml_parse_arguments [where body = "pop3_step can_push" and can_push = can_push and
        next_state = pop3_next_state, OF pop3_good _ assms(4)]
      ml_parse_arguments [where body = "smtp_step can_push" and can_push = can_push and
        next_state = smtp_next_state, OF smtp_good _ assms(4)]
    by (auto simp: ngx_mail_pop3_parse_command_def ngx_mail_smtp_parse_command_def
        split: prod.splits)
qed

definition mc_fresh :: "mc_state mail_session" where
  "mc_fresh = \<lparr>ml_state = mc_sw_start, ml_pos = 0, ml_command = 0, ml_args = [], cmd_start = None,
     arg_start = None, arg_end = None, ml_tag = (0, 0), quoted = False, backslash = False,
     no_sync_literal = False, literal_len = 0\<rparr>"

theorem ngx_mail_parse_command_arguments_witness:
  "case ngx_mail_smtp_parse_command (\<lambda>_. True) (str ''MAIL FROM: a'' @ [CR, LF]) mc_fresh of
     (rc, s) \<Rightarrow> rc = Ml_OK \<and> ml_args s = [(5, 5), (11, 1)] \<and> length (ml_args s) \<le> 11"
proof -
  let ?r = "ngx_mail_smtp_parse_command (\<lambda>_. True) (str ''MAIL FROM: a'' @ [CR, LF]) mc_fresh"
  have "fst ?r = Ml_OK \<and> ml_args (snd ?r) = [(5, 5), (11, 1)]" by code_simp
  then show ?thesis
    using ngx_mail_parse_command_arguments [of mc_fresh "str ''MAIL FROM: a'' @ [CR, LF]" 11
        "ngx_mail_smtp_parse_command (\<lambda>_. True)" "\<lambda>_. True"]
    by (auto simp: mc_fresh_def split: prod.splits)
qed

theorem ngx_mail_parse_command_resume_witness:
  "case ngx_mail_pop3_parse_command (\<lambda>_. True) (str ''USE'') mc_fresh of (rc1, s1) \<Rightarrow>
     rc1 = Ml_AGAIN \<and>
     ngx_mail_pop3_parse_command (\<lambda>_. True) (str ''USER a b'' @ [LF]) mc_fresh =
       ngx_mail_pop3_parse_command (\<lambda>_. True) (str ''USER a b'' @ [LF]) s1 \<and>
     ml_args (snd (ngx_mail_pop3_parse_command (\<lambda>_. True) (str ''USER a b'' @ [LF]) s1)) = [(5, 3)]"
proof -
  let ?p = "ngx_mail_pop3_parse_command (\<lambda>_. True)"
  obtain rc1 s1 where one: "?p (str ''USE'') mc_fresh = (rc1, s1)" by fastforce
  have "fst (?p (str ''USE'') mc_fresh) = Ml_AGAIN" by code_simp
  then have rc1: "rc1 = Ml_AGAIN" using one by simp
  have all: "fst (?p (str ''USER a b'' @ [LF]) mc_fresh) = Ml_OK \<and>
      ml_args (snd (?p (str ''USER a b'' @ [LF]) mc_fresh)) = [(5, 3)]" by code_simp
  have "ml_pos mc_fresh \<le> length (str ''USE'')" by (simp add: mc_fresh_def)
  from ngx_mail_parse_command_resume [where parse = ?p and can_push = "\<lambda>_. True" and
      rest = "str ''R a b'' @ [LF]", OF this _ one] rc1 one all
  show ?thesis by (auto simp: ml_same_def Let_def split: prod.splits intro: prod_eqI)
qed

end
