(* ===== verification/Ngx_Mail_Imap.thy ===== *)
theory Ngx_Mail_Imap
  imports Ngx_Mail_Session
begin

text \<open>
  The parser of IMAP commands, \<open>ngx_mail_imap_parse_command\<close> of \<open>src/src/mail/ngx_mail_parse.c\<close>:
  a tag, a command and arguments that are atoms, quoted strings or literals.
\<close>

section \<open>Model\<close>

datatype im_state =
    im_sw_start | im_sw_spaces_before_command | im_sw_command | im_sw_spaces_before_argument
  | im_sw_argument | im_sw_backslash | im_sw_literal | im_sw_no_sync_literal_argument
  | im_sw_start_literal_argument | im_sw_literal_argument | im_sw_end_literal_argument
  | im_sw_almost_done

definition NGX_IMAP_AUTHENTICATE :: ngx_uint_t where "NGX_IMAP_AUTHENTICATE = 7"

text \<open>The characters of a command are compared with both cases of each letter.\<close>

definition imap_is :: "bytes \<Rightarrow> nat \<Rightarrow> string \<Rightarrow> bool" where
  "imap_is buf c name \<longleftrightarrow>
     (\<forall>i < length name.
        buf ! (c + i) = of_char (name ! i) \<or> buf ! (c + i) = ngx_tolower (of_char (name ! i)))"

definition imap_command :: "bytes \<Rightarrow> nat \<Rightarrow> nat \<Rightarrow> ngx_uint_t option" where
  "imap_command buf c p =
     (if p - c = 4 then (if imap_is buf c ''NOOP'' then Some 4 else None)
      else if p - c = 5 then (if imap_is buf c ''LOGIN'' then Some 1 else None)
      else if p - c = 6 then (if imap_is buf c ''LOGOUT'' then Some 2 else None)
      else if p - c = 8 then (if imap_is buf c ''STARTTLS'' then Some 5 else None)
      else if p - c = 10 then (if imap_is buf c ''CAPABILITY'' then Some 3 else None)
      else if p - c = 12 then
        (if imap_is buf c ''AUTHENTICATE'' then Some NGX_IMAP_AUTHENTICATE else None)
      else None)"

type_synonym im_session = "im_state mail_session"
type_synonym im_result = "im_state ml_result"

definition im_start :: "nat \<Rightarrow> u_char \<Rightarrow> im_session \<Rightarrow> im_result" where
  "im_start p ch s =
     (if ch = c_space then
        Cont (s\<lparr>ml_tag := (0, p + 1), ml_state := im_sw_spaces_before_command\<rparr>)
      else if ch = CR \<or> ch = LF then Return Ml_INVALID_COMMAND (s\<lparr>ml_state := im_sw_start\<rparr>)
      else Cont s)"

definition im_spaces_before_command :: "nat \<Rightarrow> u_char \<Rightarrow> im_session \<Rightarrow> im_result" where
  "im_spaces_before_command p ch s =
     (if ch = c_space then Cont s
      else if ch = CR \<or> ch = LF then Return Ml_INVALID_COMMAND (s\<lparr>ml_state := im_sw_start\<rparr>)
      else Cont (s\<lparr>cmd_start := Some p, ml_state := im_sw_command\<rparr>))"

definition im_word_end :: "u_char \<Rightarrow> im_session \<Rightarrow> im_result" where
  "im_word_end ch s =
     (if ch = c_space \<or> ch = c_quot then Cont (s\<lparr>ml_state := im_sw_spaces_before_argument\<rparr>)
      else if ch = CR then Cont (s\<lparr>ml_state := im_sw_almost_done\<rparr>)
      else if ch = LF then Goto Ml_done s
      else Cont s)"

definition im_command :: "bytes \<Rightarrow> nat \<Rightarrow> u_char \<Rightarrow> im_session \<Rightarrow> im_result" where
  "im_command buf p ch s =
     (if ch = c_space \<or> ch = CR \<or> ch = LF then
        (case cmd_start s of
           None \<Rightarrow> Return Ml_Undefined s
         | Some c \<Rightarrow>
             (case imap_command buf c p of
                None \<Rightarrow> Goto Ml_invalid s
              | Some cmd \<Rightarrow> im_word_end ch (s\<lparr>ml_command := cmd\<rparr>)))
      else if \<not> ml_alpha ch then Goto Ml_invalid s
      else Cont s)"

definition im_spaces_before_argument :: "nat \<Rightarrow> u_char \<Rightarrow> im_session \<Rightarrow> im_result" where
  "im_spaces_before_argument p ch s =
     (if ch = c_space then Cont s
      else if ch = CR then Cont (s\<lparr>ml_state := im_sw_almost_done, arg_end := Some p\<rparr>)
      else if ch = LF then Goto Ml_done (s\<lparr>arg_end := Some p\<rparr>)
      else if ch = c_quot then
        (if length (ml_args s) \<le> 2
         then Cont (s\<lparr>quoted := True, arg_start := Some (p + 1), ml_state := im_sw_argument\<rparr>)
         else Goto Ml_invalid s)
      else if ch = c_lbrace then
        (if length (ml_args s) \<le> 2 then Cont (s\<lparr>ml_state := im_sw_literal\<rparr>) else Goto Ml_invalid s)
      else if length (ml_args s) \<le> 2
      then Cont (s\<lparr>arg_start := Some p, ml_state := im_sw_argument\<rparr>)
      else Goto Ml_invalid s)"

definition im_argument :: "(nat \<Rightarrow> bool) \<Rightarrow> nat \<Rightarrow> u_char \<Rightarrow> im_session \<Rightarrow> im_result" where
  "im_argument can_push p ch s =
     (let finish = (\<lambda>s. case ml_push can_push p s of
            Inl rc \<Rightarrow> Return rc s | Inr s' \<Rightarrow> im_word_end ch s')
      in
      if ch = c_space \<and> quoted s then Cont s
      else if ch = c_quot then (if \<not> quoted s then Cont s else finish (s\<lparr>quoted := False\<rparr>))
      else if ch = c_space \<or> ch = CR \<or> ch = LF then finish s
      else if ch = c_bslash then
        (if quoted s then Cont (s\<lparr>backslash := True, ml_state := im_sw_backslash\<rparr>) else Cont s)
      else Cont s)"

definition im_backslash :: "u_char \<Rightarrow> im_session \<Rightarrow> im_result" where
  "im_backslash ch s =
     (if ch = CR \<or> ch = LF then Goto Ml_invalid s else Cont (s\<lparr>ml_state := im_sw_argument\<rparr>))"

definition im_literal :: "u_char \<Rightarrow> im_session \<Rightarrow> im_result" where
  "im_literal ch s =
     (if c_0 \<le> ch \<and> ch \<le> c_9 then
        Cont (s\<lparr>literal_len := literal_len s * 10 + (ucast ch - 48)\<rparr>)
      else if ch = c_rbrace then Cont (s\<lparr>ml_state := im_sw_start_literal_argument\<rparr>)
      else if ch = c_plus then Cont (s\<lparr>ml_state := im_sw_no_sync_literal_argument\<rparr>)
      else Goto Ml_invalid s)"

definition im_no_sync_literal_argument :: "u_char \<Rightarrow> im_session \<Rightarrow> im_result" where
  "im_no_sync_literal_argument ch s =
     (if ch = c_rbrace
      then Cont (s\<lparr>no_sync_literal := True, ml_state := im_sw_start_literal_argument\<rparr>)
      else Goto Ml_invalid s)"

definition im_start_literal_argument :: "nat \<Rightarrow> u_char \<Rightarrow> im_session \<Rightarrow> im_result" where
  "im_start_literal_argument p ch s =
     (if ch = CR then Cont s
      else if ch = LF then
        (let s = s\<lparr>ml_pos := p + 1, arg_start := Some (p + 1)\<rparr> in
         if \<not> no_sync_literal s
         then Return Ml_IMAP_NEXT (s\<lparr>ml_state := im_sw_literal_argument\<rparr>)
         else Cont (s\<lparr>ml_state := im_sw_literal_argument, no_sync_literal := False\<rparr>))
      else Goto Ml_invalid s)"

text \<open>\<open>if (s->literal_len && --s->literal_len) break\<close>\<close>

definition im_literal_argument :: "(nat \<Rightarrow> bool) \<Rightarrow> nat \<Rightarrow> im_session \<Rightarrow> im_result" where
  "im_literal_argument can_push p s =
     (let s' = (if literal_len s \<noteq> 0 then s\<lparr>literal_len := literal_len s - 1\<rparr> else s) in
      if literal_len s \<noteq> 0 \<and> literal_len s' \<noteq> 0 then Cont s'
      else
        (case ml_push can_push (p + 1) s' of
           Inl rc \<Rightarrow> Return rc s'
         | Inr t \<Rightarrow> Cont (t\<lparr>ml_state := im_sw_end_literal_argument\<rparr>)))"

definition im_end_literal_argument :: "u_char \<Rightarrow> im_session \<Rightarrow> im_result" where
  "im_end_literal_argument ch s =
     (if ch = c_lbrace then
        (if length (ml_args s) \<le> 2 then Cont (s\<lparr>ml_state := im_sw_literal\<rparr>) else Goto Ml_invalid s)
      else if ch = CR then Cont (s\<lparr>ml_state := im_sw_almost_done\<rparr>)
      else if ch = LF then Goto Ml_done s
      else Cont (s\<lparr>ml_state := im_sw_spaces_before_argument\<rparr>))"

definition im_almost_done :: "u_char \<Rightarrow> im_session \<Rightarrow> im_result" where
  "im_almost_done ch s = (if ch = LF then Goto Ml_done s else Goto Ml_invalid s)"

definition imap_step :: "(nat \<Rightarrow> bool) \<Rightarrow> bytes \<Rightarrow> nat \<Rightarrow> u_char \<Rightarrow> im_session \<Rightarrow> im_result" where
  "imap_step can_push buf p ch s =
     (case ml_state s of
        im_sw_start \<Rightarrow> im_start p ch s
      | im_sw_spaces_before_command \<Rightarrow> im_spaces_before_command p ch s
      | im_sw_command \<Rightarrow> im_command buf p ch s
      | im_sw_spaces_before_argument \<Rightarrow> im_spaces_before_argument p ch s
      | im_sw_argument \<Rightarrow> im_argument can_push p ch s
      | im_sw_backslash \<Rightarrow> im_backslash ch s
      | im_sw_literal \<Rightarrow> im_literal ch s
      | im_sw_no_sync_literal_argument \<Rightarrow> im_no_sync_literal_argument ch s
      | im_sw_start_literal_argument \<Rightarrow> im_start_literal_argument p ch s
      | im_sw_literal_argument \<Rightarrow> im_literal_argument can_push p s
      | im_sw_end_literal_argument \<Rightarrow> im_end_literal_argument ch s
      | im_sw_almost_done \<Rightarrow> im_almost_done ch s)"

text \<open>At \<open>done\<close>, inside \<open>if (s->arg_start)\<close>, and at \<open>invalid\<close>.\<close>

definition im_reset :: "im_session \<Rightarrow> im_session" where
  "im_reset s =
     s\<lparr>arg_start := None, cmd_start := None, quoted := False, no_sync_literal := False,
       literal_len := 0\<rparr>"

definition im_next_state :: "im_session \<Rightarrow> im_state" where
  "im_next_state s =
     (if ml_command s \<noteq> NGX_IMAP_AUTHENTICATE then im_sw_start else im_sw_argument)"

definition im_invalid :: "im_session \<Rightarrow> im_session" where
  "im_invalid s =
     s\<lparr>ml_state := im_sw_start, quoted := False, no_sync_literal := False, literal_len := 0\<rparr>"

definition ngx_mail_imap_parse_command ::
  "(nat \<Rightarrow> bool) \<Rightarrow> bytes \<Rightarrow> im_session \<Rightarrow> ml_rc \<times> im_session" where
  "ngx_mail_imap_parse_command can_push buf s =
     ml_parse (imap_step can_push) can_push im_reset im_next_state im_invalid buf s"

section \<open>Feeding the parser in pieces\<close>

lemma imap_is_cong:
  assumes "take (Suc p) b = take (Suc p) b'" "c + length name \<le> p"
  shows "imap_is b c name = imap_is b' c name"
proof -
  have "b ! (c + i) = b' ! (c + i)" if "i < length name" for i
    using assms that nth_take [of "c + i" "Suc p" b] nth_take [of "c + i" "Suc p" b'] by simp
  then show ?thesis by (simp add: imap_is_def)
qed

lemma imap_command_cong:
  assumes "take (Suc p) b = take (Suc p) b'"
  shows "imap_command b c p = imap_command b' c p"
  unfolding imap_command_def by (intro if_cong refl; rule imap_is_cong [OF assms]; simp)

text \<open>Equality of the steps up to the position.\<close>

definition im_upto :: "im_result \<Rightarrow> im_result" where
  "im_upto x = map_step ml_strip id id x"

lemma im_upto_simps [simp]:
  "im_upto (Cont s) = Cont (ml_strip s)" "im_upto (Goto l s) = Goto l (ml_strip s)"
  "im_upto (Return rc s) = Return rc (ml_strip s)"
  by (simp_all add: im_upto_def)

lemmas im_step_defs =
  im_start_def im_spaces_before_command_def im_command_def im_word_end_def
  im_spaces_before_argument_def im_argument_def im_backslash_def im_literal_def
  im_no_sync_literal_argument_def im_start_literal_argument_def im_literal_argument_def
  im_end_literal_argument_def im_almost_done_def

lemma imap_step_pos: "im_upto (imap_step f b p ch (s\<lparr>ml_pos := n\<rparr>)) = im_upto (imap_step f b p ch s)"
proof (cases "ml_state s")
  case im_sw_command
  then show ?thesis
    by (cases "cmd_start s"; cases "imap_command b (the (cmd_start s)) p")
      (simp_all add: imap_step_def im_command_def im_word_end_def ml_strip_def)
next
  case im_sw_argument
  then show ?thesis
    by (cases "arg_start s")
      (simp_all add: imap_step_def im_argument_def im_word_end_def ml_push_def ml_strip_def Let_def)
next
  case im_sw_literal_argument
  then show ?thesis
    by (cases "arg_start s")
      (simp_all add: imap_step_def im_literal_argument_def ml_push_def ml_strip_def Let_def)
qed (simp_all add: imap_step_def im_step_defs ml_strip_def Let_def)

lemma imap_step_Return:
  "imap_step f b p ch s = Return rc s' \<Longrightarrow> rc \<notin> {Ml_OK, Ml_AGAIN}"
  by (cases "ml_state s")
    (auto simp: imap_step_def im_step_defs ml_push_def Let_def split: if_splits option.splits)

interpretation imap: mail_parser "imap_step can_push" can_push im_reset im_next_state im_invalid
  for can_push
proof
  fix p buf buf' ch s
  assume "take (Suc p) buf = take (Suc p) (buf' :: bytes)"
  from imap_command_cong [OF this]
  show "imap_step can_push buf p ch s = imap_step can_push buf' p ch s"
    by (simp add: imap_step_def im_command_def split: im_state.split option.split)
next
  fix s t buf p ch
  assume "ml_strip s = ml_strip (t :: im_session)"
  then show "map_step ml_strip id id (imap_step can_push buf p ch s) =
      map_step ml_strip id id (imap_step can_push buf p ch t)"
    using imap_step_pos [where f = can_push and b = buf and p = p and ch = ch and n = 0 and s = s]
      imap_step_pos [where f = can_push and b = buf and p = p and ch = ch and n = 0 and s = t]
    by (simp add: im_upto_def ml_strip_def)
next
  show "imap_step can_push buf p ch s = Return rc s' \<Longrightarrow> rc \<notin> {Ml_OK, Ml_AGAIN}" for buf p ch s rc s'
    by (rule imap_step_Return)
qed (simp_all add: im_next_state_def im_invalid_def im_reset_def)

text \<open>
  C28. IMAP commands may arrive in pieces, literals included: an answer is not changed by more
  data, and after \<open>NGX_AGAIN\<close> the parser continues to the answer, command and arguments that
  one call on all the data gives.
\<close>

theorem ngx_mail_imap_parse_command_resume:
  assumes "ml_pos s \<le> length buf" and "ngx_mail_imap_parse_command can_push buf s = (rc1, s1)"
  shows "if rc1 \<noteq> Ml_AGAIN then ngx_mail_imap_parse_command can_push (buf @ rest) s = (rc1, s1)
    else ml_pos s1 = length buf \<and>
      ml_same (ngx_mail_imap_parse_command can_push (buf @ rest) s)
        (ngx_mail_imap_parse_command can_push (buf @ rest) s1)"
  using imap.parse_resume [OF assms(1), of can_push rc1 s1 rest] assms(2)
  by (simp add: ngx_mail_imap_parse_command_def)

section \<open>The arguments\<close>

text \<open>
  The invariant at index \<open>p\<close>, for a session that started without pending arguments. The states
  in which an argument is read are those with \<open>arg_start\<close> set.
\<close>

definition im_in_argument :: "im_state \<Rightarrow> bool" where
  "im_in_argument st \<longleftrightarrow> st \<in> {im_sw_argument, im_sw_backslash, im_sw_literal_argument}"

definition im_in_literal :: "im_state \<Rightarrow> bool" where
  "im_in_literal st \<longleftrightarrow> st \<in> {im_sw_literal, im_sw_no_sync_literal_argument, im_sw_start_literal_argument}"

definition im_inv :: "nat \<Rightarrow> im_session \<Rightarrow> bool" where
  "im_inv p s \<longleftrightarrow> ml_ordered (ml_args s) \<and> (ml_state s = im_sw_command \<longrightarrow> cmd_start s \<noteq> None) \<and>
     (if im_in_argument (ml_state s)
      then \<exists>a. arg_start s = Some a \<and> a \<le> p \<and> ml_before a (ml_args s) \<and> length (ml_args s) \<le> 2
      else arg_start s = None \<and>
        ml_before (if ml_state s = im_sw_end_literal_argument then Suc p else p) (ml_args s) \<and>
        length (ml_args s) \<le> (if im_in_literal (ml_state s) then 2 else 3))"



lemma im_inv_pos [simp]: "im_inv p (s\<lparr>ml_pos := n\<rparr>) = im_inv p s"
  by (simp add: im_inv_def)









section \<open>Examples\<close>

definition im_fresh :: im_session where
  "im_fresh = \<lparr>ml_state = im_sw_start, ml_pos = 0, ml_command = 0, ml_args = [], cmd_start = None,
     arg_start = None, arg_end = None, ml_tag = (0, 0), quoted = False, backslash = False,
     no_sync_literal = False, literal_len = 0\<rparr>"



theorem ngx_mail_imap_parse_command_resume_witness:
  "case ngx_mail_imap_parse_command (\<lambda>_. True) (str ''a NO'') im_fresh of (rc1, s1) \<Rightarrow>
     rc1 = Ml_AGAIN \<and>
     ngx_mail_imap_parse_command (\<lambda>_. True) (str ''a NOOP'' @ [LF]) im_fresh =
       ngx_mail_imap_parse_command (\<lambda>_. True) (str ''a NOOP'' @ [LF]) s1 \<and>
     fst (ngx_mail_imap_parse_command (\<lambda>_. True) (str ''a NOOP'' @ [LF]) s1) = Ml_OK"
proof -
  let ?p = "ngx_mail_imap_parse_command (\<lambda>_. True)"
  obtain rc1 s1 where one: "?p (str ''a NO'') im_fresh = (rc1, s1)" by fastforce
  have "fst (?p (str ''a NO'') im_fresh) = Ml_AGAIN" by code_simp
  then have rc1: "rc1 = Ml_AGAIN" using one by simp
  have all: "fst (?p (str ''a NOOP'' @ [LF]) im_fresh) = Ml_OK" by code_simp
  have "ml_pos im_fresh \<le> length (str ''a NO'')" by (simp add: im_fresh_def)
  from ngx_mail_imap_parse_command_resume [OF this one, of "str ''OP'' @ [LF]"] rc1 one all
  show ?thesis by (auto simp: ml_same_def Let_def split: prod.splits intro: prod_eqI)
qed

text \<open>
  Unlike its siblings the IMAP parser does not clear \<open>arg_start\<close> at \<open>invalid\<close>: after a command
  rejected within a quoted argument, the next command \<open>b NOOP\<close> with a trailing space is
  accepted with one argument, although it has none.
\<close>

theorem ngx_mail_imap_stale_argument:
  "case ngx_mail_imap_parse_command (\<lambda>_. True) (str ''a LOGIN '' @ [c_quot, c_bslash, CR, LF]) im_fresh of (rc1, s1) \<Rightarrow>
     rc1 = Ml_INVALID_COMMAND \<and> ml_args s1 = [] \<and>
     (case ngx_mail_imap_parse_command (\<lambda>_. True) (str ''bb NOOP  '' @ [CR, LF]) (s1\<lparr>ml_pos := 0\<rparr>) of
        (rc2, s2) \<Rightarrow> rc2 = Ml_OK \<and> length (ml_args s2) = 1)"
  by code_simp

text \<open>
  A literal of length zero still takes one byte of what follows it as its argument.
\<close>

theorem ngx_mail_imap_empty_literal:
  "case ngx_mail_imap_parse_command (\<lambda>_. True) (str ''a LOGIN {0+}'' @ [CR, LF] @ str '' x'' @ [LF]) im_fresh of
     (rc, s) \<Rightarrow> rc = Ml_OK \<and> ml_args s = [(14, 1)]"
  by code_simp

end
