(* ===== verification/Ngx_String_Printf.thy ===== *)
theory Ngx_String_Printf
  imports Ngx_String_Num
begin

text \<open>
  The formatted output of \<open>src/src/core/ngx_string.c\<close>: \<open>ngx_vslprintf\<close> and the functions around
  it. The format \<open>%f\<close> for floating point numbers is not modelled.
\<close>

section \<open>Model\<close>

text \<open>
  The variable arguments: integers by their width, a zero-terminated string as the memory it is
  in, and an \<open>ngx_str_t\<close> or \<open>ngx_variable_value_t\<close> as its bytes. Reading an argument of another
  kind, reading a string past its memory and reading the format past its end are undefined in C;
  the functions then return \<open>None\<close>, as they do for \<open>%f\<close>. The format is given without its
  terminating zero.
\<close>

datatype fmt_arg = Arg_32 "32 word" | Arg_64 "64 word" | Arg_str bytes | Arg_ngx_str bytes

record fmt_spec =
  fs_zero :: u_char
  fs_width :: ngx_uint_t
  fs_sign :: bool
  fs_hex :: nat
  fs_max_width :: bool
  fs_frac_width :: ngx_uint_t
  fs_slen :: ngx_uint_t

definition NGX_INT_T_LEN :: ngx_uint_t where "NGX_INT_T_LEN = 20"
definition NGX_ATOMIC_T_LEN :: ngx_uint_t where "NGX_ATOMIC_T_LEN = 20"

fun fmt_number :: "ngx_uint_t \<Rightarrow> bytes \<Rightarrow> ngx_uint_t \<times> bytes" where
  "fmt_number width [] = (width, [])"
| "fmt_number width (c # fmt) =
     (if c_0 \<le> c \<and> c \<le> c_9 then fmt_number (width * 10 + ucast c - 48) fmt else (width, c # fmt))"

fun fmt_flags :: "fmt_spec \<Rightarrow> bytes \<Rightarrow> fmt_arg list \<Rightarrow> (fmt_spec \<times> bytes \<times> fmt_arg list) option" where
  "fmt_flags s [] args = Some (s, [], args)"
| "fmt_flags s (c # fmt) args =
     (if c = of_char CHR ''u'' then fmt_flags (s\<lparr>fs_sign := False\<rparr>) fmt args
      else if c = of_char CHR ''m'' then fmt_flags (s\<lparr>fs_max_width := True\<rparr>) fmt args
      else if c = of_char CHR ''X'' then fmt_flags (s\<lparr>fs_hex := 2, fs_sign := False\<rparr>) fmt args
      else if c = of_char CHR ''x'' then fmt_flags (s\<lparr>fs_hex := 1, fs_sign := False\<rparr>) fmt args
      else if c = c_dot then
        (let (frac, fmt) = fmt_number (fs_frac_width s) fmt
         in Some (s\<lparr>fs_frac_width := frac\<rparr>, fmt, args))
      else if c = c_star then
        (case args of
           Arg_64 n # args \<Rightarrow> fmt_flags (s\<lparr>fs_slen := n\<rparr>) fmt args
         | _ \<Rightarrow> None)
      else Some (s, c # fmt, args))"

text \<open>Between the percent sign and the letter of the conversion.\<close>

definition fmt_parse :: "bytes \<Rightarrow> fmt_arg list \<Rightarrow> (fmt_spec \<times> bytes \<times> fmt_arg list) option" where
  "fmt_parse fmt args =
     (let zero = (if fmt \<noteq> [] \<and> hd fmt = c_0 then c_0 else c_space);
          (width, fmt) = fmt_number 0 fmt
      in fmt_flags \<lparr>fs_zero = zero, fs_width = width, fs_sign = True, fs_hex = 0,
           fs_max_width = False, fs_frac_width = 0, fs_slen = - 1\<rparr> fmt args)"

text \<open>\<open>while (*p && buf < last) *buf++ = *p++\<close>\<close>

fun copy_str :: "nat \<Rightarrow> bytes \<Rightarrow> bytes option" where
  "copy_str room [] = None"
| "copy_str room (c # p) =
     (if c = 0 \<or> room = 0 then Some [] else map_option ((#) c) (copy_str (room - 1) p))"

definition copy_len :: "nat \<Rightarrow> nat \<Rightarrow> bytes \<Rightarrow> bytes option" where
  "copy_len room slen p = (let len = min room slen in if len \<le> length p then Some (take len p) else None)"

text \<open>The integer conversions: the sign, the value and the width to print, if the letter is one.\<close>

definition fmt_int :: "u_char \<Rightarrow> fmt_spec \<Rightarrow> fmt_arg \<Rightarrow> (fmt_spec \<times> 64 word) option" where
  "fmt_int c s arg =
     (let by_sign = (\<lambda>w. if fs_sign s then (scast w :: 64 word) else ucast w) in
      case arg of
        Arg_64 n \<Rightarrow>
          if c \<in> set (str ''OTr'') then Some (s\<lparr>fs_sign := True\<rparr>, n)
          else if c = of_char CHR ''M'' then
            Some (s\<lparr>fs_sign := (n = - 1)\<rparr>, n)
          else if c \<in> set (str ''zlL'') then Some (s, n)
          else if c = of_char CHR ''i'' then
            Some (if fs_max_width s then s\<lparr>fs_width := NGX_INT_T_LEN\<rparr> else s, n)
          else if c = of_char CHR ''A'' then
            Some (if fs_max_width s then s\<lparr>fs_width := NGX_ATOMIC_T_LEN\<rparr> else s, n)
          else if c = of_char CHR ''p'' then
            Some (s\<lparr>fs_hex := 2, fs_sign := False, fs_zero := c_0, fs_width := 16\<rparr>, n)
          else None
      | Arg_32 w \<Rightarrow>
          if c = of_char CHR ''P'' then Some (s\<lparr>fs_sign := True\<rparr>, scast w)
          else if c \<in> set (str ''dD'') then Some (s, by_sign w)
          else None
      | _ \<Rightarrow> None)"

text \<open>The sign and the digits.\<close>

definition fmt_put :: "nat \<Rightarrow> fmt_spec \<Rightarrow> 64 word \<Rightarrow> bytes" where
  "fmt_put room s n =
     (if fs_sign s \<and> n <s 0
      then c_minus # ngx_sprintf_num (room - 1) (- n) (fs_zero s) (fs_hex s) (unat (fs_width s))
      else ngx_sprintf_num room n (fs_zero s) (fs_hex s) (unat (fs_width s)))"

text \<open>One conversion: the bytes written and the arguments left.\<close>

definition fmt_conv ::
  "nat \<Rightarrow> u_char \<Rightarrow> fmt_spec \<Rightarrow> fmt_arg list \<Rightarrow> (bytes \<times> fmt_arg list) option" where
  "fmt_conv room c s args =
     (if c \<in> set (str ''Vv'') then
        (case args of Arg_ngx_str v # args \<Rightarrow> Some (take (min room (length v)) v, args) | _ \<Rightarrow> None)
      else if c = of_char CHR ''s'' then
        (case args of
           Arg_str p # args \<Rightarrow>
             map_option (\<lambda>out. (out, args))
               (if fs_slen s = - 1 then copy_str room p else copy_len room (unat (fs_slen s)) p)
         | _ \<Rightarrow> None)
      else if c \<in> set (str ''OPTMzidlDLArp'') then
        (case args of
           [] \<Rightarrow> None
         | arg # args \<Rightarrow> map_option (\<lambda>(s, n). (fmt_put room s n, args)) (fmt_int c s arg))
      else if c = of_char CHR ''f'' then None
      else if c = of_char CHR ''c'' then
        (case args of Arg_32 d # args \<Rightarrow> Some ([ucast (d AND 0xff)], args) | _ \<Rightarrow> None)
      else if c = of_char CHR ''Z'' then Some ([0], args)
      else if c = of_char CHR ''N'' then Some ([LF], args)
      else Some ([c], args))"

lemma length_fmt_number: "length (snd (fmt_number w fmt)) \<le> length fmt"
  by (induction w fmt rule: fmt_number.induct) auto

lemma length_fmt_flags: "fmt_flags s fmt args = Some (s', fmt', args') \<Longrightarrow> length fmt' \<le> length fmt"
proof (induction s fmt args rule: fmt_flags.induct)
  case (2 s c fmt args)
  have "length fmt' \<le> length fmt" if "fmt_number (fs_frac_width s) fmt = (w, fmt')" for w
    using length_fmt_number [of "fs_frac_width s" fmt] that by simp
  with 2 show ?case by (auto split: if_splits list.splits fmt_arg.splits prod.splits intro: le_SucI)
qed simp

lemma length_fmt_parse: "fmt_parse fmt args = Some (s, fmt', args') \<Longrightarrow> length fmt' \<le> length fmt"
  using length_fmt_number [of 0 fmt] length_fmt_flags
  by (fastforce simp: fmt_parse_def Let_def split: prod.splits)

text \<open>The bytes \<open>ngx_vslprintf\<close> writes, with \<open>room = last - buf\<close>.\<close>

function ngx_vslprintf :: "nat \<Rightarrow> bytes \<Rightarrow> fmt_arg list \<Rightarrow> bytes option" where
  "ngx_vslprintf room fmt args =
     (case fmt of
        [] \<Rightarrow> Some []
      | c # fmt \<Rightarrow>
          if room = 0 then Some []
          else if c \<noteq> c_percent then map_option ((#) c) (ngx_vslprintf (room - 1) fmt args)
          else
            (case fmt_parse fmt args of
               None \<Rightarrow> None
             | Some (s, [], args) \<Rightarrow> None
             | Some (s, d # fmt, args) \<Rightarrow>
                 (case fmt_conv room d s args of
                    None \<Rightarrow> None
                  | Some (out, args) \<Rightarrow>
                      map_option ((@) out) (ngx_vslprintf (room - length out) fmt args))))"
  by pat_completeness auto

termination
  by (relation "measure (\<lambda>(room, fmt, args). length fmt)") (auto dest!: length_fmt_parse)

declare ngx_vslprintf.simps [simp del]

text \<open>
  \<open>ngx_sprintf\<close> passes the highest address as \<open>last\<close>; \<open>buf\<close> is the address of the buffer. The
  other two pass the end of the buffer.
\<close>

definition ngx_sprintf :: "64 word \<Rightarrow> bytes \<Rightarrow> fmt_arg list \<Rightarrow> bytes option" where
  "ngx_sprintf buf fmt args = ngx_vslprintf (unat (- 1 - buf)) fmt args"

definition ngx_snprintf :: "nat \<Rightarrow> bytes \<Rightarrow> fmt_arg list \<Rightarrow> bytes option" where
  "ngx_snprintf max_len fmt args = ngx_vslprintf max_len fmt args"

definition ngx_slprintf :: "nat \<Rightarrow> nat \<Rightarrow> bytes \<Rightarrow> fmt_arg list \<Rightarrow> bytes option" where
  "ngx_slprintf buf last' fmt args = ngx_vslprintf (last' - buf) fmt args"

section \<open>Truncation\<close>

lemma ngx_sprintf_num_take:
  "ngx_sprintf_num room u zero h width =
     take room (replicate (width - length (sprintf_digits u h)) zero @ sprintf_digits u h)"
  by (simp add: ngx_sprintf_num_def Let_def sprintf_pad_eq min_def)

lemma fmt_put_take: "0 < r \<Longrightarrow> r \<le> R \<Longrightarrow> fmt_put r s n = take r (fmt_put R s n)"
proof -
  assume r: "0 < r" "r \<le> R"
  have "ngx_sprintf_num r' u z h w = take r' (ngx_sprintf_num R' u z h w)" if "r' \<le> R'" for r' R' u z h w
    using that by (simp only: ngx_sprintf_num_take take_take min_absorb1)
  from this [of r R] this [of "r - 1" "R - 1"] r show ?thesis
    by (cases r) (auto simp: fmt_put_def)
qed

lemma copy_str_take: "copy_str R p = Some out \<Longrightarrow> r \<le> R \<Longrightarrow> copy_str r p = Some (take r out)"
proof (induction R p arbitrary: r out rule: copy_str.induct)
  case (2 R c p)
  show ?case
  proof (cases "c = 0 \<or> R = 0")
    case True
    then show ?thesis using 2(2,3) by auto
  next
    case False
    then obtain o' where "copy_str (R - 1) p = Some o'" "out = c # o'" using 2(2) by auto
    with 2(1) [OF False, of o' "r - 1"] False 2(3) show ?thesis
      by (cases r) auto
  qed
qed simp

lemma fmt_conv_take:
  assumes "fmt_conv R c s args = Some (out, args')" "0 < r" "r \<le> R"
  shows "fmt_conv r c s args = Some (take r out, args')"
proof -
  let ?V = "c \<in> set (str ''Vv'')" and ?S = "c = of_char CHR ''s''"
    and ?I = "c \<in> set (str ''OPTMzidlDLArp'')"
  consider (v) ?V | (s) "\<not> ?V" ?S | (i) "\<not> ?V" "\<not> ?S" ?I | (o) "\<not> ?V" "\<not> ?S" "\<not> ?I" by blast
  then show ?thesis
  proof cases
    case v
    then have "fmt_conv room c s args =
      (case args of Arg_ngx_str v # args \<Rightarrow> Some (take (min room (length v)) v, args) | _ \<Rightarrow> None)" for room
      by (simp only: fmt_conv_def if_True)
    with assms show ?thesis by (auto simp: min_def split: list.splits fmt_arg.splits)
  next
    case s
    then have "fmt_conv room c s args =
      (case args of
         Arg_str p # args \<Rightarrow>
           map_option (\<lambda>out. (out, args))
             (if fs_slen s = - 1 then copy_str room p else copy_len room (unat (fs_slen s)) p)
       | _ \<Rightarrow> None)" for room
      by (simp only: fmt_conv_def if_False simp_thms if_True)
    moreover have "copy_len R n p = Some out \<Longrightarrow> copy_len r n p = Some (take r out)" for n p
      using assms(3) by (auto simp: copy_len_def Let_def min_def split: if_splits)
    ultimately show ?thesis
      using assms copy_str_take [of R _ out r] by (auto split: list.splits fmt_arg.splits if_splits)
  next
    case i
    then have "fmt_conv room c s args =
      (case args of
         [] \<Rightarrow> None
       | arg # args \<Rightarrow> map_option (\<lambda>(s, n). (fmt_put room s n, args)) (fmt_int c s arg))" for room
      by (simp only: fmt_conv_def if_True if_False)
    with assms fmt_put_take [OF assms(2,3)] show ?thesis by (auto split: list.splits)
  next
    case o
    then have "fmt_conv room c s args = fmt_conv R c s args" for room
      by (simp only: fmt_conv_def if_False)
    moreover have "\<exists>x. out = [x]"
      using assms(1) o unfolding fmt_conv_def
      by (simp only: if_False) (auto split: if_splits list.splits fmt_arg.splits)
    ultimately show ?thesis using assms by (cases r) auto
  qed
qed

lemma ngx_vslprintf_0 [simp]: "ngx_vslprintf 0 fmt args = Some []"
  by (subst ngx_vslprintf.simps) (simp split: list.split)

lemma vslprintf_take:
  "ngx_vslprintf R fmt args = Some out \<Longrightarrow> r \<le> R \<Longrightarrow> ngx_vslprintf r fmt args = Some (take r out)"
proof (induction R fmt args arbitrary: r out rule: ngx_vslprintf.induct)
  case (1 R fmt args)
  show ?case
  proof (cases "fmt = [] \<or> r = 0 \<or> R = 0")
    case True
    then show ?thesis using 1(3,4) by (auto simp: ngx_vslprintf.simps [of _ "[]"])
  next
    case False
    then obtain c f where fmt: "fmt = c # f" and pos: "r \<noteq> 0" "R \<noteq> 0" by (cases fmt) auto
    show ?thesis
    proof (cases "c = c_percent")
      case char: False
      then obtain o' where "ngx_vslprintf (R - 1) f args = Some o'" "out = c # o'"
        using 1(3) fmt pos by (subst (asm) ngx_vslprintf.simps) auto
      with 1(1) [OF fmt _ _ this(1), of "r - 1"] char pos 1(4) fmt show ?thesis
        by (subst ngx_vslprintf.simps) (cases r, auto)
    next
      case True
      from 1(3) fmt pos True obtain s d g a where p: "fmt_parse f args = Some (s, d # g, a)"
        by (subst (asm) ngx_vslprintf.simps) (auto split: option.splits list.splits prod.splits)
      from 1(3) fmt pos True p obtain o1 b where c: "fmt_conv R d s a = Some (o1, b)"
        by (subst (asm) ngx_vslprintf.simps) (auto split: option.splits)
      from 1(3) fmt pos True p c obtain o2 where
        o2: "ngx_vslprintf (R - length o1) g b = Some o2" "out = o1 @ o2"
        by (subst (asm) ngx_vslprintf.simps) auto
      have "fmt_conv r d s a = Some (take r o1, b)"
        using fmt_conv_take [OF c] pos 1(4) by simp
      moreover have "ngx_vslprintf (r - length o1) g b = Some (take (r - length o1) o2)"
      proof -
        have np: "\<not> c \<noteq> c_percent" using True by simp
        show ?thesis
          using 1(2) [OF fmt pos(2) np p refl refl refl c refl o2(1), of "r - length o1"] 1(4) by simp
      qed
      ultimately show ?thesis
        using fmt pos True p o2(2) by (subst ngx_vslprintf.simps) (auto simp: min_def)
    qed
  qed
qed

text \<open>
  C32. Formatted output into a smaller buffer is the same output cut to the size of the buffer:
  \<open>ngx_vslprintf\<close> never writes past \<open>last\<close>, whatever the format and its widths are, and what it
  writes does not depend on the room except for the cut.
\<close>

theorem ngx_vslprintf_truncates:
  assumes "ngx_vslprintf R fmt args = Some out"
  shows "length out \<le> R \<and> (\<forall>r \<le> R. ngx_vslprintf r fmt args = Some (take r out))"
proof -
  have all: "ngx_vslprintf r fmt args = Some (take r out)" if "r \<le> R" for r
    using vslprintf_take [OF assms that] .
  then have "out = take R out" using assms by simp
  then have "length out \<le> R" by (metis length_take min.cobounded2)
  with all show ?thesis by blast
qed

theorem ngx_vslprintf_truncates_witness:
  "ngx_vslprintf 4 (str ''%03d|%s'') [Arg_32 7, Arg_str (str ''abc'' @ [0])] = Some (str ''007|'')"
proof -
  have full: "ngx_vslprintf 9 (str ''%03d|%s'') [Arg_32 7, Arg_str (str ''abc'' @ [0])] = Some (str ''007|abc'')"
    by code_simp
  show ?thesis using ngx_vslprintf_truncates [OF full] by (simp add: numeral_nat)
qed

end
