(* ===== verification/Ngx_Http_Time.thy ===== *)
theory Ngx_Http_Time
  imports Ngx_String_Printf
begin

text \<open>
  Dates: \<open>ngx_gmtime\<close>, \<open>ngx_http_time\<close> and \<open>ngx_http_cookie_time\<close> of \<open>src/src/core/ngx_times.c\<close> and
  \<open>ngx_http_parse_time\<close> of \<open>src/src/http/ngx_http_parse_time.c\<close>.
\<close>

section \<open>Model\<close>

subsection \<open>From seconds to a date\<close>

text \<open>The fields of \<open>ngx_tm_t\<close> are of type \<open>int\<close>.\<close>

record ngx_tm =
  tm_sec :: "32 word"
  tm_min :: "32 word"
  tm_hour :: "32 word"
  tm_mday :: "32 word"
  tm_mon :: "32 word"
  tm_year :: "32 word"
  tm_wday :: "32 word"

text \<open>Days since March 1, 1 BC up to March 1 of \<open>year\<close>, Gauss' formula.\<close>

definition gauss_year :: "64 word \<Rightarrow> 64 word" where
  "gauss_year year = 365 * year + year div 4 - year div 100 + year div 400"

definition gm_leap :: "64 word \<Rightarrow> 64 word" where
  "gm_leap year = (if year mod 4 = 0 \<and> (year mod 100 \<noteq> 0 \<or> year mod 400 = 0) then 1 else 0)"

text \<open>
  \<open>yday\<close> is signed, and it is not negative where the code divides it, so the division is that of
  unsigned numbers.
\<close>

definition ngx_gmtime :: "64 word \<Rightarrow> ngx_tm" where
  "ngx_gmtime t =
     (let n = t;
          days = n div 86400;
          wday = (4 + days) mod 7;
          n = n mod 86400;
          hour = n div 3600;
          n = n mod 3600;
          minute = n div 60;
          sec = n mod 60;
          days = days - (31 + 28) + 719527;
          year = (days + 2) * 400 div (365 * 400 + 100 - 4 + 1);
          yday = days - gauss_year year;
          (yday, year) = (if yday <s 0 then (365 + gm_leap year + yday, year - 1) else (yday, year));
          mon = (yday + 31) * 10 div 306;
          mday = yday - (367 * mon div 12 - 30) + 1;
          (year, mon) = (if 306 \<le>s yday then (year + 1, mon - 10) else (year, mon + 2))
      in \<lparr>tm_sec = ucast sec, tm_min = ucast minute, tm_hour = ucast hour, tm_mday = ucast mday,
          tm_mon = ucast mon, tm_year = ucast year, tm_wday = ucast wday\<rparr>)"

subsection \<open>Printing a date\<close>

definition week :: "bytes list" where
  "week = map str [''Sun'', ''Mon'', ''Tue'', ''Wed'', ''Thu'', ''Fri'', ''Sat'']"

definition months :: "bytes list" where
  "months = map str [''Jan'', ''Feb'', ''Mar'', ''Apr'', ''May'', ''Jun'',
     ''Jul'', ''Aug'', ''Sep'', ''Oct'', ''Nov'', ''Dec'']"

definition ngx_http_time :: "64 word \<Rightarrow> 64 word \<Rightarrow> bytes option" where
  "ngx_http_time buf t =
     (let tm = ngx_gmtime t in
      ngx_sprintf buf (str ''%s, %02d %s %4d %02d:%02d:%02d GMT'')
        [Arg_str (week ! unat (tm_wday tm) @ [0]), Arg_32 (tm_mday tm),
         Arg_str (months ! unat (tm_mon tm - 1) @ [0]), Arg_32 (tm_year tm),
         Arg_32 (tm_hour tm), Arg_32 (tm_min tm), Arg_32 (tm_sec tm)])"

definition ngx_http_cookie_time :: "64 word \<Rightarrow> 64 word \<Rightarrow> bytes option" where
  "ngx_http_cookie_time buf t =
     (let tm = ngx_gmtime t in
      ngx_sprintf buf
        (if 2037 <s tm_year tm then str ''%s, %02d-%s-%d %02d:%02d:%02d GMT''
         else str ''%s, %02d-%s-%02d %02d:%02d:%02d GMT'')
        [Arg_str (week ! unat (tm_wday tm) @ [0]), Arg_32 (tm_mday tm),
         Arg_str (months ! unat (tm_mon tm - 1) @ [0]),
         Arg_32 (if 2037 <s tm_year tm then tm_year tm else tm_year tm mod 100),
         Arg_32 (tm_hour tm), Arg_32 (tm_min tm), Arg_32 (tm_sec tm)])"

subsection \<open>Parsing a date\<close>

text \<open>
  A part of the parser returns \<open>None\<close> if it reads outside the memory \<open>m\<close>, \<open>Some (Inl ())\<close> where the
  code returns \<open>NGX_ERROR\<close>, and otherwise its result.
\<close>

type_synonym 'a pt = "(unit + 'a) option"

abbreviation pt_error :: "'a pt" where "pt_error \<equiv> Some (Inl ())"

definition pt_bind :: "'a pt \<Rightarrow> ('a \<Rightarrow> 'b pt) \<Rightarrow> 'b pt" where
  "pt_bind x f = (case x of None \<Rightarrow> None | Some (Inl u) \<Rightarrow> Some (Inl u) | Some (Inr a) \<Rightarrow> f a)"

datatype time_fmt = Fmt_no | Fmt_rfc822 | Fmt_rfc850 | Fmt_isoc

definition mday_table :: "ngx_uint_t list" where
  "mday_table = [31, 28, 31, 30, 31, 30, 31, 31, 30, 31, 30, 31]"

function pt_start :: "bytes \<Rightarrow> nat \<Rightarrow> nat \<Rightarrow> (nat \<times> time_fmt) option" where
  "pt_start m len p =
     (if p < len then
        (case rd m p of
           None \<Rightarrow> None
         | Some c \<Rightarrow>
             if c = c_comma then Some (p, Fmt_no)
             else if c = c_space then Some (p, Fmt_isoc)
             else pt_start m len (p + 1))
      else Some (p, Fmt_no))"
  by pat_completeness auto

termination by (relation "measure (\<lambda>(m, len, p). len - p)") auto

function pt_skip :: "bytes \<Rightarrow> nat \<Rightarrow> nat \<Rightarrow> nat option" where
  "pt_skip m len p =
     (if p < len then
        (case rd m p of
           None \<Rightarrow> None
         | Some c \<Rightarrow> if c \<noteq> c_space then Some p else pt_skip m len (p + 1))
      else Some p)"
  by pat_completeness auto

termination by (relation "measure (\<lambda>(m, len, p). len - p)") auto

declare pt_start.simps [simp del] pt_skip.simps [simp del]

text \<open>The digits at \<open>p\<close>; each is tested before the next one is read.\<close>

fun pt_digits :: "bytes \<Rightarrow> nat \<Rightarrow> nat \<Rightarrow> ngx_uint_t \<Rightarrow> ngx_uint_t pt" where
  "pt_digits m p 0 v = Some (Inr v)"
| "pt_digits m p (Suc n) v = do {
     c \<leftarrow> rd m p;
     if c < c_0 \<or> c > c_9 then pt_error else pt_digits m (p + 1) n (v * 10 + ucast c - 48) }"

definition pt_char :: "bytes \<Rightarrow> nat \<Rightarrow> u_char \<Rightarrow> unit pt" where
  "pt_char m p c = do { x \<leftarrow> rd m p; if x \<noteq> c then pt_error else Some (Inr ()) }"

definition pt_day :: "bytes \<Rightarrow> nat \<Rightarrow> time_fmt \<Rightarrow> nat \<Rightarrow> (time_fmt \<times> ngx_uint_t \<times> nat) pt" where
  "pt_day m len fmt p =
     (if fmt = Fmt_isoc then Some (Inr (fmt, 32, p))
      else pt_bind (pt_digits m p 2 0) (\<lambda>day.
        let p = p + 2 in do {
          c \<leftarrow> rd m p;
          if c = c_space then
            (if int len - int p < 18 then pt_error else Some (Inr (Fmt_rfc822, day, p + 1)))
          else if c = c_minus then Some (Inr (Fmt_rfc850, day, p + 1))
          else pt_error }))"

definition pt_month :: "bytes \<Rightarrow> nat \<Rightarrow> ngx_int_t pt" where
  "pt_month m p = do {
     c \<leftarrow> rd m p;
     if c = of_char CHR ''J'' then do {
       c1 \<leftarrow> rd m (p + 1);
       if c1 = c_a then Some (Inr 0)
       else do { c2 \<leftarrow> rd m (p + 2); Some (Inr (if c2 = of_char CHR ''n'' then 5 else 6)) } }
     else if c = c_F then Some (Inr 1)
     else if c = of_char CHR ''M'' then do {
       c2 \<leftarrow> rd m (p + 2); Some (Inr (if c2 = of_char CHR ''r'' then 2 else 4)) }
     else if c = c_A then do {
       c1 \<leftarrow> rd m (p + 1); Some (Inr (if c1 = of_char CHR ''p'' then 3 else 7)) }
     else if c = of_char CHR ''S'' then Some (Inr 8)
     else if c = of_char CHR ''O'' then Some (Inr 9)
     else if c = of_char CHR ''N'' then Some (Inr 10)
     else if c = of_char CHR ''D'' then Some (Inr 11)
     else pt_error }"

text \<open>Behind the month: the separator, and the year unless it comes last.\<close>

definition pt_year :: "bytes \<Rightarrow> time_fmt \<Rightarrow> nat \<Rightarrow> (ngx_uint_t \<times> nat) pt" where
  "pt_year m fmt p =
     (if fmt = Fmt_rfc822 then
        pt_bind (pt_char m p c_space) (\<lambda>_.
        pt_bind (pt_digits m (p + 1) 4 0) (\<lambda>year. Some (Inr (year, p + 5))))
      else if fmt = Fmt_rfc850 then
        pt_bind (pt_char m p c_minus) (\<lambda>_.
        pt_bind (pt_digits m (p + 1) 2 0) (\<lambda>year.
          Some (Inr (year + (if year < 70 then 2000 else 1900), p + 3))))
      else Some (Inr (2038, p + 1)))"

definition pt_isoc_day :: "bytes \<Rightarrow> nat \<Rightarrow> time_fmt \<Rightarrow> ngx_uint_t \<Rightarrow> nat \<Rightarrow> (ngx_uint_t \<times> nat) pt" where
  "pt_isoc_day m len fmt day p =
     (if fmt \<noteq> Fmt_isoc then Some (Inr (day, p))
      else do {
        c \<leftarrow> rd m p;
        let p = (if c = c_space then p + 1 else p);
        pt_bind (pt_digits m p 1 0) (\<lambda>day. do {
          c \<leftarrow> rd m (p + 1);
          pt_bind (if c \<noteq> c_space
                   then pt_bind (pt_digits m (p + 1) 1 day) (\<lambda>day. Some (Inr (day, p + 2)))
                   else Some (Inr (day, p + 1)))
            (\<lambda>(day, p). if int len - int p < 14 then pt_error else Some (Inr (day, p))) }) })"

text \<open>The clock, from the space in front of the hours on; the position is that of the seconds.\<close>

definition pt_clock :: "bytes \<Rightarrow> nat \<Rightarrow> (ngx_uint_t \<times> ngx_uint_t \<times> ngx_uint_t \<times> nat) pt" where
  "pt_clock m p =
     pt_bind (pt_char m p c_space) (\<lambda>_.
     pt_bind (pt_digits m (p + 1) 2 0) (\<lambda>hour.
     pt_bind (pt_char m (p + 3) c_colon) (\<lambda>_.
     pt_bind (pt_digits m (p + 4) 2 0) (\<lambda>minute.
     pt_bind (pt_char m (p + 6) c_colon) (\<lambda>_.
     pt_bind (pt_digits m (p + 7) 2 0) (\<lambda>sec. Some (Inr (hour, minute, sec, p + 7))))))))"

definition pt_isoc_year :: "bytes \<Rightarrow> time_fmt \<Rightarrow> ngx_uint_t \<Rightarrow> nat \<Rightarrow> ngx_uint_t pt" where
  "pt_isoc_year m fmt year p =
     (if fmt \<noteq> Fmt_isoc then Some (Inr year)
      else pt_bind (pt_char m (p + 2) c_space) (\<lambda>_. pt_digits m (p + 3) 4 0))"

definition pt_valid ::
  "ngx_uint_t \<Rightarrow> ngx_int_t \<Rightarrow> ngx_uint_t \<Rightarrow> ngx_uint_t \<Rightarrow> ngx_uint_t \<Rightarrow> ngx_uint_t \<Rightarrow> bool" where
  "pt_valid year month day hour minute sec \<longleftrightarrow>
     \<not> (hour > 23 \<or> minute > 59 \<or> sec > 59) \<and>
     (if day = 29 \<and> month = 1
      then \<not> (year AND 3 \<noteq> 0 \<or> year mod 100 = 0 \<and> year mod 400 \<noteq> 0)
      else \<not> day > mday_table ! unat month)"

definition pt_seconds ::
  "ngx_uint_t \<Rightarrow> ngx_int_t \<Rightarrow> ngx_uint_t \<Rightarrow> ngx_uint_t \<Rightarrow> ngx_uint_t \<Rightarrow> ngx_uint_t \<Rightarrow> 64 word" where
  "pt_seconds year month day hour minute sec =
     (let month = month - 1;
          (year, month) = (if month \<le>s 0 then (year - 1, month + 12) else (year, month))
      in (gauss_year year + 367 * month div 12 - 30 + day - 1 - 719527 + 31 + 28) * 86400 +
         hour * 3600 + minute * 60 + sec)"

definition ngx_http_parse_time :: "bytes \<Rightarrow> nat \<Rightarrow> 64 word pt" where
  "ngx_http_parse_time m len = do {
     (p, fmt) \<leftarrow> pt_start m len 0;
     p \<leftarrow> pt_skip m len (p + 1);
     if int len - int p < 18 then pt_error
     else
       pt_bind (pt_day m len fmt p) (\<lambda>(fmt, day, p).
       pt_bind (pt_month m p) (\<lambda>month.
       pt_bind (pt_year m fmt (p + 3)) (\<lambda>(year, p).
       pt_bind (pt_isoc_day m len fmt day p) (\<lambda>(day, p).
       pt_bind (pt_clock m p) (\<lambda>(hour, minute, sec, p).
       pt_bind (pt_isoc_year m fmt year p) (\<lambda>year.
         if pt_valid year month day hour minute sec
         then Some (Inr (pt_seconds year month day hour minute sec)) else pt_error)))))) }"

section \<open>The calendar\<close>

definition leap_year :: "nat \<Rightarrow> bool" where
  "leap_year y \<longleftrightarrow> y mod 4 = 0 \<and> (y mod 100 \<noteq> 0 \<or> y mod 400 = 0)"

text \<open>Days from March 1 of the year 0 to March 1 of the year \<open>y\<close>.\<close>

definition march_days :: "nat \<Rightarrow> nat" where
  "march_days y = 365 * y + y div 4 - y div 100 + y div 400"

lemma div_mod_unique: "(y :: nat) = n * k + r \<Longrightarrow> r < n \<Longrightarrow> y div n = k \<and> y mod n = r"
  by auto

text \<open>A year within its cycle of 400, 100 and 4 years.\<close>

lemma march_days_cycle:
  assumes "y = 400 * q + 100 * a + 4 * b + c" "a < 4" "b < 25" "c < 4"
  shows "march_days y = 365 * y + 97 * q + 24 * a + b"
    and "leap_year y \<longleftrightarrow> c = 0 \<and> (b \<noteq> 0 \<or> a = 0)"
proof -
  have d: "y div 4 = 100 * q + 25 * a + b" "y mod 4 = c"
    using assms div_mod_unique [of y 4 "100 * q + 25 * a + b" c] by simp_all
  have e: "y div 100 = 4 * q + a" "y mod 100 = 4 * b + c"
    using assms div_mod_unique [of y 100 "4 * q + a" "4 * b + c"] by simp_all
  have f: "y div 400 = q" "y mod 400 = 100 * a + 4 * b + c"
    using assms div_mod_unique [of y 400 q "100 * a + 4 * b + c"] by simp_all
  show "march_days y = 365 * y + 97 * q + 24 * a + b"
    unfolding march_days_def d(1) e(1) f(1) by simp
  show "leap_year y \<longleftrightarrow> c = 0 \<and> (b \<noteq> 0 \<or> a = 0)"
    unfolding leap_year_def d(2) e(2) f(2) using assms(4) by auto
qed

lemma cycle_exists: "\<exists>q a b c. (y :: nat) = 400 * q + 100 * a + 4 * b + c \<and> a < 4 \<and> b < 25 \<and> c < 4"
proof -
  let ?r = "y mod 400"
  let ?s = "?r mod 100"
  have "y = 400 * (y div 400) + ?r" "?r = 100 * (?r div 100) + ?s" "?s = 4 * (?s div 4) + ?s mod 4"
    by simp_all
  then have "y = 400 * (y div 400) + 100 * (?r div 100) + 4 * (?s div 4) + ?s mod 4" by linarith
  moreover have "?r div 100 < 4" "?s div 4 < 25" "?s mod 4 < 4" by (auto simp: less_mult_imp_div_less)
  ultimately show ?thesis by blast
qed

lemma march_days_Suc: "march_days (Suc y) = march_days y + 365 + (if leap_year (Suc y) then 1 else 0)"
proof -
  obtain q a b c where y: "y = 400 * q + 100 * a + 4 * b + c" "a < 4" "b < 25" "c < 4"
    using cycle_exists by blast
  note m = march_days_cycle [OF y]
  consider "c < 3" | "c = 3" "b < 24" | "c = 3" "b = 24" "a < 3" | "c = 3" "b = 24" "a = 3"
    using y by linarith
  then show ?thesis
  proof cases
    case 1
    with y show ?thesis using m march_days_cycle [of "Suc y" q a b "Suc c"] by simp
  next
    case 2
    with y show ?thesis using m march_days_cycle [of "Suc y" q a "Suc b" 0] by simp
  next
    case 3
    with y show ?thesis using m march_days_cycle [of "Suc y" q "Suc a" 0 0] by simp
  next
    case 4
    with y show ?thesis using m march_days_cycle [of "Suc y" "Suc q" 0 0 0] by simp
  qed
qed

text \<open>The estimate of the year: it is right or one too large.\<close>

lemma year_estimate:
  fixes d :: nat
  defines "y \<equiv> (d + 2) * 400 div 146097"
  shows "march_days y \<le> d + 2" "d < march_days (Suc y)" "d < march_days y \<Longrightarrow> 0 < y \<and> march_days (y - 1) \<le> d"
proof -
  obtain q a b c where y: "y = 400 * q + 100 * a + 4 * b + c" "a < 4" "b < 25" "c < 4"
    using cycle_exists by blast
  obtain q' a' b' c' where y': "Suc y = 400 * q' + 100 * a' + 4 * b' + c'" "a' < 4" "b' < 25" "c' < 4"
    using cycle_exists [of "Suc y"] by blast
  have lo: "146097 * y \<le> (d + 2) * 400" and hi: "(d + 2) * 400 < 146097 * Suc y"
    unfolding y_def by (simp_all add: div_times_less_eq_dividend mult.commute dividend_less_times_div)
  show le: "march_days y \<le> d + 2"
  proof -
    have "400 * march_days y + 100 * a + 97 * c = 146097 * y + 12 * b"
      using march_days_cycle(1) [OF y] y(1) by simp
    moreover have "12 * b \<le> 288" using y(3) by simp
    ultimately have "400 * march_days y \<le> 400 * d + 1088" using lo by simp
    then show ?thesis by simp
  qed
  show "d < march_days (Suc y)"
  proof -
    have "400 * march_days (Suc y) + 100 * a' + 97 * c' = 146097 * Suc y + 12 * b'"
      using march_days_cycle(1) [OF y'] y'(1) by simp
    moreover have "100 * a' + 97 * c' \<le> 591" using y'(2,4) by simp
    ultimately have "400 * d < 400 * march_days (Suc y)" using hi by simp
    then show ?thesis by simp
  qed
  assume "d < march_days y"
  then have "0 < y" by (cases y) (simp_all add: march_days_def)
  then obtain x where x: "y = Suc x" by (cases y) auto
  show "0 < y \<and> march_days (y - 1) \<le> d" using le march_days_Suc [of x] x by simp
qed

text \<open>The calendar as it is counted: from January 1, 1970 on, day by day.\<close>

definition days_in_month :: "nat \<Rightarrow> nat \<Rightarrow> nat" where
  "days_in_month y m =
     (if m = 2 then (if leap_year y then 29 else 28) else if m \<in> {4, 6, 9, 11} then 30 else 31)"

fun next_day :: "nat \<times> nat \<times> nat \<Rightarrow> nat \<times> nat \<times> nat" where
  "next_day (y, m, d) =
     (if d < days_in_month y m then (y, m, d + 1) else if m < 12 then (y, m + 1, 1) else (y + 1, 1, 1))"

primrec date_of :: "nat \<Rightarrow> nat \<times> nat \<times> nat" where
  "date_of 0 = (1970, 1, 1)"
| "date_of (Suc n) = next_day (date_of n)"

subsection \<open>Gauss' formula\<close>

text \<open>Days before the month, counted from March 1; March is the month 1.\<close>

definition month_days :: "nat \<Rightarrow> nat" where
  "month_days m = 367 * m div 12 - 30"

definition month_len :: "nat \<Rightarrow> nat" where
  "month_len m = [31, 30, 31, 30, 31, 31, 30, 31, 30, 31, 31, 29] ! (m - 1)"

lemma month_enum:
  "0 < m \<Longrightarrow> m \<le> 12 \<Longrightarrow>
   m = 1 \<or> m = 2 \<or> m = 3 \<or> m = 4 \<or> m = 5 \<or> m = 6 \<or> m = 7 \<or> m = 8 \<or> m = 9 \<or> m = 10 \<or> m = 11 \<or> m = (12 :: nat)"
  by presburger

lemma month_days_Suc: "0 < m \<Longrightarrow> m < 12 \<Longrightarrow> month_days (Suc m) = month_days m + month_len m"
  using month_enum [of m] by (auto simp: month_days_def month_len_def)

text \<open>The month and its day from the day of the year.\<close>

lemma month_of_yday:
  assumes "0 < m" "m \<le> 12" "d < month_len m"
  shows "(month_days m + d + 31) * 10 div 306 = m" "306 \<le> month_days m + d \<longleftrightarrow> 10 < m"
    "month_days m + d < 366" "month_days m + d = 365 \<Longrightarrow> m = 12 \<and> d = 28"
proof -
  have "306 * m \<le> (month_days m + d + 31) * 10 \<and> (month_days m + d + 31) * 10 < 306 * Suc m \<and>
    (306 \<le> month_days m + d \<longleftrightarrow> 10 < m) \<and> month_days m + d < 366 \<and>
    (month_days m + d = 365 \<longrightarrow> m = 12 \<and> d = 28)"
    using month_enum [OF assms(1,2)] assms(3)
    by (elim disjE) (auto simp: month_days_def month_len_def)
  then show "(month_days m + d + 31) * 10 div 306 = m" "306 \<le> month_days m + d \<longleftrightarrow> 10 < m"
    "month_days m + d < 366" "month_days m + d = 365 \<Longrightarrow> m = 12 \<and> d = 28"
    by (auto intro!: div_nat_eqI simp del: mult_Suc_right simp: mult.commute)
qed

lemma march_days_mono: "y \<le> z \<Longrightarrow> march_days y \<le> march_days z"
  by (rule lift_Suc_mono_le [where f = march_days]) (simp_all add: march_days_Suc)

lemma march_days_unique:
  assumes "march_days y \<le> d" "d < march_days (Suc y)" "march_days z \<le> d" "d < march_days (Suc z)"
  shows "y = z"
proof (rule ccontr)
  assume "y \<noteq> z"
  then consider "Suc y \<le> z" | "Suc z \<le> y" by linarith
  then show False
    using march_days_mono [of "Suc y" z] march_days_mono [of "Suc z" y] assms by cases auto
qed

text \<open>The calculation of \<open>ngx_gmtime\<close> in natural numbers, from the number of days since March 1, 1 BC.\<close>

definition gm_year :: "nat \<Rightarrow> nat" where
  "gm_year d = (let y = (d + 2) * 400 div 146097 in if d < march_days y then y - 1 else y)"

definition gm_date :: "nat \<Rightarrow> nat \<times> nat \<times> nat" where
  "gm_date d =
     (let y = gm_year d; yday = d - march_days y; mon = (yday + 31) * 10 div 306;
          mday = yday - month_days mon + 1
      in if 306 \<le> yday then (y + 1, mon - 10, mday) else (y, mon + 2, mday))"

lemma gm_year_spec: "march_days (gm_year d) \<le> d" "d < march_days (Suc (gm_year d))"
proof -
  let ?y = "(d + 2) * 400 div 146097"
  note e = year_estimate [of d]
  show "march_days (gm_year d) \<le> d" using e(3) by (auto simp: gm_year_def Let_def)
  show "d < march_days (Suc (gm_year d))"
  proof (cases "d < march_days ?y")
    case True
    then have "Suc (?y - 1) = ?y" using e(3) by simp
    with True show ?thesis by (simp add: gm_year_def Let_def)
  next
    case False
    then show ?thesis using e(2) by (simp add: gm_year_def Let_def)
  qed
qed

text \<open>A valid date, and the number of its day since March 1, 1 BC.\<close>

definition valid_date :: "nat \<times> nat \<times> nat \<Rightarrow> bool" where
  "valid_date = (\<lambda>(y, m, d). 0 < y \<and> 0 < m \<and> m \<le> 12 \<and> 0 < d \<and> d \<le> days_in_month y m)"

definition day_number :: "nat \<times> nat \<times> nat \<Rightarrow> nat" where
  "day_number = (\<lambda>(y, m, d).
     if m \<le> 2 then march_days (y - 1) + month_days (m + 10) + d - 1
     else march_days y + month_days (m - 2) + d - 1)"

lemma days_in_month_len:
  assumes "0 < m" "m \<le> 12"
  shows "days_in_month y m = month_len (if m \<le> 2 then m + 10 else m - 2) -
    (if m = 2 \<and> \<not> leap_year y then 1 else 0)"
  using month_enum [OF assms] by (elim disjE) (simp_all add: days_in_month_def month_len_def)

lemma gm_date_day_number:
  assumes "valid_date x"
  shows "gm_date (day_number x) = x"
proof -
  obtain y m d where x: "x = (y, m, d)" by (cases x)
  define z where "z = (if m \<le> 2 then y - 1 else y)"
  define k where "k = (if m \<le> 2 then m + 10 else m - 2)"
  have v: "0 < y" "0 < m" "m \<le> 12" "0 < d" "d \<le> days_in_month y m"
    using assms by (simp_all add: valid_date_def x)
  have k: "0 < k" "k \<le> 12" using v by (auto simp: k_def)
  have dl: "d - 1 < month_len k" using v days_in_month_len [of m y] by (simp add: k_def split: if_splits)
  note my = month_of_yday [OF k dl]
  have num: "day_number x = march_days z + (month_days k + (d - 1))"
    using v by (auto simp: day_number_def x z_def k_def)
  have "month_days k + (d - 1) < march_days (Suc z) - march_days z"
  proof (cases "month_days k + (d - 1) = 365")
    case True
    with my(4) have "k = 12" "29 \<le> d" by auto
    then have "m = 2" using v(3) by (simp add: k_def split: if_splits)
    with v \<open>29 \<le> d\<close> have "leap_year y" by (simp add: days_in_month_def split: if_splits)
    moreover have "Suc z = y" using \<open>m = 2\<close> v by (simp add: z_def)
    ultimately show ?thesis using True march_days_Suc [of z] by simp
  next
    case False
    then show ?thesis using my(3) march_days_Suc [of z] by simp
  qed
  then have "gm_year (day_number x) = z"
    using gm_year_spec [of "day_number x"] num by (intro march_days_unique) auto
  moreover have "day_number x - march_days z = month_days k + (d - 1)" using num by simp
  moreover have "month_days k + (d - 1) - month_days k + 1 = d" using v(4) by simp
  ultimately have "gm_date (day_number x) = (if 10 < k then (z + 1, k - 10, d) else (z, k + 2, d))"
    unfolding gm_date_def Let_def by (simp only: my(1,2))
  then show ?thesis using v(1-3) by (auto simp: x z_def k_def)
qed

lemma next_day_number:
  assumes "valid_date x"
  shows "valid_date (next_day x)" "day_number (next_day x) = Suc (day_number x)"
proof -
  obtain y m d where x: "x = (y, m, d)" by (cases x)
  have v: "0 < y" "0 < m" "m \<le> 12" "0 < d" "d \<le> days_in_month y m"
    using assms by (simp_all add: valid_date_def x)
  have pos: "0 < days_in_month y' m'" for y' m' by (simp add: days_in_month_def)
  show "valid_date (next_day x)" using v pos by (auto simp: valid_date_def x Suc_le_eq)
  show "day_number (next_day x) = Suc (day_number x)"
  proof (cases "d < days_in_month y m")
    case True
    then show ?thesis using v by (simp add: day_number_def x)
  next
    case False
    then have d: "d = days_in_month y m" using v by simp
    consider "m = 1" | "m = 2" | "2 < m" "m < 12" | "m = 12" using v by linarith
    then show ?thesis
    proof cases
      case 1
      then show ?thesis using d by (simp add: day_number_def x days_in_month_def month_days_def)
    next
      case 2
      then show ?thesis
        using d v(1) march_days_Suc [of "y - 1"]
        by (simp add: day_number_def x days_in_month_def month_days_def)
    next
      case 3
      then have "month_days (Suc (m - 2)) = month_days (m - 2) + days_in_month y m"
        using month_days_Suc [of "m - 2"] days_in_month_len [OF v(2,3), of y] by simp
      moreover have "Suc (m - 2) = Suc m - 2" using 3 by simp
      ultimately show ?thesis using 3 d v(4) by (simp add: day_number_def x)
    next
      case 4
      then show ?thesis using d by (simp add: day_number_def x days_in_month_def month_days_def)
    qed
  qed
qed

lemma date_of_number: "valid_date (date_of n) \<and> day_number (date_of n) = 719468 + n"
proof (induction n)
  case 0
  then show ?case
    by (simp add: valid_date_def day_number_def days_in_month_def march_days_def month_days_def)
next
  case (Suc n)
  then show ?case using next_day_number [of "date_of n"] by simp
qed

lemma gm_date_date_of: "gm_date (719468 + n) = date_of n"
  using date_of_number [of n] gm_date_day_number by metis

subsection \<open>The machine arithmetic\<close>

lemma unat_64:
  "unat (a + b :: 64 word) = unat a + unat b" if "unat a + unat b < 2 ^ 64"
  for a b :: "64 word"
  using that by (simp add: unat_word_ariths)

lemma unat_64_mult:
  "unat (a * b :: 64 word) = unat a * unat b" if "unat a * unat b < 2 ^ 64"
  for a b :: "64 word"
  using that by (simp add: unat_word_ariths)

lemma unat_gauss_year:
  assumes "unat y < 2 ^ 50"
  shows "unat (gauss_year y) = march_days (unat y)"
proof -
  have a: "unat (365 * y) = 365 * unat y" using assms by (subst unat_64_mult) simp_all
  have b: "unat (365 * y + y div 4) = 365 * unat y + unat y div 4"
    using assms by (subst unat_64) (simp_all add: a unat_div)
  have le: "unat y div 100 \<le> 365 * unat y + unat y div 4" by (rule trans_le_add1) simp
  have c: "unat (365 * y + y div 4 - y div 100) = 365 * unat y + unat y div 4 - unat y div 100"
    using le by (subst unat_minus_le) (simp_all add: b unat_div word_le_nat_alt)
  show ?thesis
    unfolding gauss_year_def march_days_def
    using assms by (subst unat_64) (simp_all add: c unat_div)
qed

lemma gm_leap_unat: "unat (gm_leap y) = (if leap_year (unat y) then 1 else 0)"
  by (simp add: gm_leap_def leap_year_def unat_mod flip: unat_eq_0)

text \<open>The day of the year and the year, with the sign test as the code makes it.\<close>

lemma gm_yday:
  fixes days :: "64 word"
  assumes "unat days < 2 ^ 50"
  defines "y \<equiv> (days + 2) * 400 div 146097"
  defines "yd \<equiv> days - gauss_year y"
  shows "unat (if yd <s 0 then 365 + gm_leap y + yd else yd) = unat days - march_days (gm_year (unat days))"
    "unat (if yd <s 0 then y - 1 else y) = gm_year (unat days)" "gm_year (unat days) < 2 ^ 50"
proof -
  let ?d = "unat days" and ?y = "(unat days + 2) * 400 div 146097"
  have m: "unat ((days + 2) * 400) = (?d + 2) * 400"
    using assms(1) by (subst unat_64_mult; subst unat_64) simp_all
  then have y: "unat y = ?y" by (simp add: y_def unat_div)
  have y50: "?y < 2 ^ 50" using assms(1) by (simp add: less_mult_imp_div_less)
  have g: "unat (gauss_year y) = march_days ?y" using unat_gauss_year [of y] y y50 by simp
  note est = year_estimate [of ?d]
  show "gm_year ?d < 2 ^ 50" using y50 by (auto simp: gm_year_def Let_def less_imp_diff_less)
  show "unat (if yd <s 0 then 365 + gm_leap y + yd else yd) = ?d - march_days (gm_year ?d)"
    "unat (if yd <s 0 then y - 1 else y) = gm_year ?d"
  proof -
    have small: "march_days ?y < 2 ^ 51" using est(1) assms(1) by simp
    have "unat yd = (if march_days ?y \<le> ?d then ?d - march_days ?y else ?d + 2 ^ 64 - march_days ?y)"
      using small assms(1) g unfolding yd_def by (simp add: unat_sub_if_size word_size)
    then have neg: "yd <s 0 \<longleftrightarrow> ?d < march_days ?y" and
      yd: "unat yd = (if march_days ?y \<le> ?d then ?d - march_days ?y else ?d + 2 ^ 64 - march_days ?y)"
      using small assms(1) by (auto simp: sless_0_iff)
    show "unat (if yd <s 0 then y - 1 else y) = gm_year ?d"
      using neg y est(3) by (auto simp: gm_year_def Let_def unat_minus_one unat_eq_0 [symmetric])
    show "unat (if yd <s 0 then 365 + gm_leap y + yd else yd) = ?d - march_days (gm_year ?d)"
    proof (cases "?d < march_days ?y")
      case True
      with est(3) obtain z where z: "?y = Suc z" by (cases ?y) auto
      have "unat (365 + gm_leap y) = 365 + (if leap_year ?y then 1 else 0)"
        by (subst unat_64) (simp_all add: gm_leap_unat y)
      moreover have "march_days ?y = march_days z + 365 + (if leap_year ?y then 1 else 0)"
        using march_days_Suc [of z] z by simp
      ultimately have "unat (365 + gm_leap y + yd) = ?d - march_days z"
        using yd True est(3) z small
        by (simp only: unat_word_ariths) (simp add: mod_if)
      with True neg z show ?thesis by (simp add: gm_year_def Let_def)
    next
      case False
      then show ?thesis using neg yd by (simp add: gm_year_def Let_def)
    qed
  qed
qed

lemma unat_ucast_32: "unat (w :: 64 word) < 2 ^ 32 \<Longrightarrow> unat (ucast w :: 32 word) = unat w"
  by (simp add: unsigned_ucast_eq take_bit_nat_eq_self_iff)

lemma sle_small:
  assumes "unat (a :: 64 word) < 2 ^ 63" "unat b < 2 ^ 63"
  shows "a \<le>s b \<longleftrightarrow> unat a \<le> unat b"
proof -
  have "sint a = int (unat a)" "sint b = int (unat b)" using sint_small [of a] sint_small [of b] assms by simp_all
  then show ?thesis by (simp only: word_sle_eq of_nat_le_iff)
qed

lemma gm_month_day:
  fixes yday year :: "64 word"
  assumes yd: "unat yday < 366" and y: "unat year < 2 ^ 50"
  defines "mon \<equiv> (yday + 31) * 10 div 306"
  shows "unat (yday - (367 * mon div 12 - 30) + 1) = unat yday - month_days (unat mon) + 1"
    "unat mon = (unat yday + 31) * 10 div 306" "306 \<le>s yday \<longleftrightarrow> 306 \<le> unat yday"
    "unat (if 306 \<le>s yday then mon - 10 else mon + 2) = (if 306 \<le> unat yday then unat mon - 10 else unat mon + 2)"
    "unat (if 306 \<le>s yday then year + 1 else year) = (if 306 \<le> unat yday then unat year + 1 else unat year)"
proof -
  have m: "unat ((yday + 31) * 10) = (unat yday + 31) * 10"
    using yd by (subst unat_64_mult; subst unat_64) simp_all
  then show mon: "unat mon = (unat yday + 31) * 10 div 306" by (simp add: mon_def unat_div)
  then have mb: "1 \<le> unat mon" "unat mon \<le> 12" "306 \<le> unat yday \<Longrightarrow> 10 \<le> unat mon" using yd by auto
  have "unat (367 * mon) = 367 * unat mon" using mb by (subst unat_64_mult) simp_all
  moreover have "month_days (unat mon) \<le> unat yday"
    using mb mon yd month_enum [of "unat mon"] by (auto simp: month_days_def)
  moreover have "30 \<le> 367 * unat mon div 12" using mb by simp
  ultimately have sub: "unat (yday - (367 * mon div 12 - 30)) = unat yday - month_days (unat mon)"
    by (simp add: month_days_def unat_sub word_le_nat_alt unat_div)
  show "unat (yday - (367 * mon div 12 - 30) + 1) = unat yday - month_days (unat mon) + 1"
    using yd by (subst unat_64) (simp_all add: sub)
  show s: "306 \<le>s yday \<longleftrightarrow> 306 \<le> unat yday"
    using yd by (subst sle_small) simp_all
  show "unat (if 306 \<le>s yday then mon - 10 else mon + 2) = (if 306 \<le> unat yday then unat mon - 10 else unat mon + 2)"
    using mb by (simp add: s unat_sub word_le_nat_alt unat_64)
  show "unat (if 306 \<le>s yday then year + 1 else year) = (if 306 \<le> unat yday then unat year + 1 else unat year)"
    using y by (simp add: s unat_64)
qed

text \<open>The date of a time in seconds by the calendar.\<close>

lemma gmtime_calendar:
  assumes t: "unat t < 2 ^ 55"
  shows "(unat (tm_year (ngx_gmtime t)), unat (tm_mon (ngx_gmtime t)), unat (tm_mday (ngx_gmtime t))) =
      date_of (unat t div 86400)"
    "unat (tm_wday (ngx_gmtime t)) = (4 + unat t div 86400) mod 7"
    "unat (tm_hour (ngx_gmtime t)) = unat t mod 86400 div 3600"
    "unat (tm_min (ngx_gmtime t)) = unat t mod 86400 mod 3600 div 60"
    "unat (tm_sec (ngx_gmtime t)) = unat t mod 86400 mod 3600 mod 60"
proof -
  let ?n = "unat t div 86400"
  define days where "days = t div 86400 - (31 + 28) + 719527"
  define y where "y = (days + 2) * 400 div 146097"
  define yd where "yd = days - gauss_year y"
  define yday where "yday = (if yd <s 0 then 365 + gm_leap y + yd else yd)"
  define year where "year = (if yd <s 0 then y - 1 else y)"
  define mon where "mon = (yday + 31) * 10 div 306"
  have n: "?n < 2 ^ 39" using t by (simp add: less_mult_imp_div_less)
  have "days = t div 86400 + 719468" by (simp add: days_def)
  then have d: "unat days = 719468 + ?n" using n by (simp add: unat_64 unat_div)
  then have d50: "unat days < 2 ^ 50" using n by simp
  note gy = gm_yday [OF d50, folded y_def, folded yd_def, folded yday_def year_def]
  have "unat yday < 366"
    using gy(1) gm_year_spec [of "unat days"] march_days_Suc [of "gm_year (unat days)"]
    by (auto split: if_splits)
  note yd366 = this
  have "unat year < 2 ^ 50" using gy(2,3) by simp
  note md = gm_month_day [OF yd366 this, folded mon_def]
  have tm: "ngx_gmtime t =
    \<lparr>tm_sec = ucast (t mod 86400 mod 3600 mod 60), tm_min = ucast (t mod 86400 mod 3600 div 60),
     tm_hour = ucast (t mod 86400 div 3600), tm_mday = ucast (yday - (367 * mon div 12 - 30) + 1),
     tm_mon = ucast (if 306 \<le>s yday then mon - 10 else mon + 2),
     tm_year = ucast (if 306 \<le>s yday then year + 1 else year), tm_wday = ucast ((4 + t div 86400) mod 7)\<rparr>"
    unfolding ngx_gmtime_def Let_def mon_def yday_def year_def yd_def y_def days_def
    by (simp split: prod.splits)
  show "unat (tm_wday (ngx_gmtime t)) = (4 + ?n) mod 7"
    using n by (subst tm, simp, subst unat_ucast_32) (simp_all add: unat_mod unat_64 unat_div)
  show "unat (tm_hour (ngx_gmtime t)) = unat t mod 86400 div 3600"
    by (subst tm, simp, subst unat_ucast_32) (simp_all add: unat_mod unat_div)
  show "unat (tm_min (ngx_gmtime t)) = unat t mod 86400 mod 3600 div 60"
    by (subst tm, simp, subst unat_ucast_32) (simp_all add: unat_mod unat_div)
  show "unat (tm_sec (ngx_gmtime t)) = unat t mod 86400 mod 3600 mod 60"
    by (subst tm, simp, subst unat_ucast_32) (simp_all add: unat_mod unat_div)
  show "(unat (tm_year (ngx_gmtime t)), unat (tm_mon (ngx_gmtime t)), unat (tm_mday (ngx_gmtime t))) =
      date_of ?n"
  proof -
    have "unat mon \<le> 12" "1 \<le> unat mon" using md(2) yd366 by auto
    have y31: "unat year < 2 ^ 31"
      using gy(2) n d by (auto simp: gm_year_def Let_def less_mult_imp_div_less less_imp_diff_less)
    have "unat (tm_year (ngx_gmtime t)) = (if 306 \<le> unat yday then unat year + 1 else unat year)"
      using md(5) y31 by (subst tm, simp only: ngx_tm.simps, subst unat_ucast_32) simp_all
    moreover have "unat (tm_mon (ngx_gmtime t)) = (if 306 \<le> unat yday then unat mon - 10 else unat mon + 2)"
      using md(4) \<open>unat mon \<le> 12\<close>
      by (subst tm, simp only: ngx_tm.simps, subst unat_ucast_32) (auto intro: less_imp_diff_less)
    moreover have "unat (tm_mday (ngx_gmtime t)) = unat yday - month_days (unat mon) + 1"
      using md(1) yd366 by (subst tm, simp only: ngx_tm.simps, subst unat_ucast_32) simp_all
    ultimately have "(unat (tm_year (ngx_gmtime t)), unat (tm_mon (ngx_gmtime t)), unat (tm_mday (ngx_gmtime t))) =
      (if 306 \<le> unat yday then (unat year + 1, unat mon - 10, unat yday - month_days (unat mon) + 1)
       else (unat year, unat mon + 2, unat yday - month_days (unat mon) + 1))" by simp
    also have "\<dots> = gm_date (719468 + ?n)"
      by (simp only: gm_date_def Let_def md(2) gy(1,2) d)
    finally show ?thesis by (simp only: gm_date_date_of)
  qed
qed

text \<open>
  C33. \<open>ngx_gmtime\<close> follows the calendar: for times below \<open>2 ^ 55\<close> seconds the year, month and day
  are those that are reached by counting days from January 1, 1970 with the Gregorian leap
  rule, the week day counts on from Thursday, and the rest is the time of the day.
\<close>

theorem ngx_gmtime_calendar:
  assumes "unat t < 2 ^ 55"
  shows "let tm = ngx_gmtime t in
    (unat (tm_year tm), unat (tm_mon tm), unat (tm_mday tm)) = date_of (unat t div 86400) \<and>
    unat (tm_wday tm) = (4 + unat t div 86400) mod 7 \<and>
    unat (tm_hour tm) * 3600 + unat (tm_min tm) * 60 + unat (tm_sec tm) = unat t mod 86400 \<and>
    unat (tm_min tm) < 60 \<and> unat (tm_sec tm) < 60"
proof -
  have "n div 3600 * 3600 + n mod 3600 div 60 * 60 + n mod 3600 mod 60 = n" for n :: nat
    using div_mult_mod_eq [of n 3600] div_mult_mod_eq [of "n mod 3600" 60] by linarith
  moreover have "n mod 3600 div 60 < 60" "n mod 3600 mod 60 < 60" for n :: nat
    by (simp_all add: less_mult_imp_div_less)
  ultimately show ?thesis unfolding Let_def by (simp only: gmtime_calendar [OF assms] simp_thms)
qed

theorem ngx_gmtime_calendar_witness:
  "unat (tm_year (ngx_gmtime 86399)) = 1970 \<and> unat (tm_mday (ngx_gmtime 86399)) = 1"
  using ngx_gmtime_calendar [of 86399] by (simp add: Let_def)

section \<open>Printed dates\<close>

definition two_digits :: "nat \<Rightarrow> bytes" where
  "two_digits n = [word_of_nat (n div 10 + 48), word_of_nat (n mod 10 + 48)]"

lemma length_two_digits [simp]: "length (two_digits n) = 2"
  by (simp add: two_digits_def)

lemma vslprintf_char:
  "c \<noteq> c_percent \<Longrightarrow> 0 < room \<Longrightarrow>
   ngx_vslprintf room (c # fmt) args = map_option ((#) c) (ngx_vslprintf (room - 1) fmt args)"
  by (subst ngx_vslprintf.simps) simp

lemma copy_str_zero: "0 \<notin> set s \<Longrightarrow> length s \<le> room \<Longrightarrow> copy_str room (s @ [0]) = Some s"
  by (induction s arbitrary: room) auto

lemma vslprintf_s:
  assumes "0 \<notin> set s" "length s \<le> room" "0 < room"
  shows "ngx_vslprintf room (c_percent # 115 # fmt) (Arg_str (s @ [0]) # args) =
    map_option ((@) s) (ngx_vslprintf (room - length s) fmt args)"
  using assms
  by (subst ngx_vslprintf.simps)
    (simp add: fmt_parse_def fmt_conv_def copy_str_zero)

lemma decimal_two: "n < 100 \<Longrightarrow> replicate (2 - length (decimal n)) c_0 @ decimal n = two_digits n"
  by (cases "n < 10") (subst (1 2) decimal.simps, simp add: two_digits_def decimal.simps)+

lemma unat_scast_small:
  assumes "unat (w :: 32 word) < 2 ^ 31"
  shows "unat (scast w :: 64 word) = unat w"
proof -
  have "sint w = int (unat w)" using sint_small [of w] assms by simp
  then have "(scast w :: 64 word) = word_of_nat (unat w)" by (metis of_int_of_nat_eq of_int_sint)
  moreover have "unat w < 2 ^ 64" using assms by simp
  ultimately show ?thesis by (simp only: unsigned_of_nat) (simp add: take_bit_nat_eq_self)
qed

lemma fmt_put_small:
  assumes "unat w < 2 ^ 31" "max (unat (fs_width s)) 20 \<le> room" "fs_hex s = 0"
  shows "fmt_put room s (scast (w :: 32 word)) =
    replicate (unat (fs_width s) - length (decimal (unat w))) (fs_zero s) @ decimal (unat w)"
proof -
  let ?n = "scast w :: 64 word"
  have n: "unat ?n = unat w" by (rule unat_scast_small [OF assms(1)])
  then have "\<not> ?n <s 0" using assms(1) by (simp add: sless_0_iff)
  moreover have "length (sprintf_digits ?n 0) \<le> 20" by (rule length_sprintf_digits)
  ultimately show ?thesis
    using assms(2,3) ngx_sprintf_num_fits [of "unat (fs_width s)" ?n 0 room "fs_zero s"]
    by (simp add: fmt_put_def sprintf_digits_decimal n)
qed

lemma vslprintf_02d:
  assumes "unat w < 100" "20 \<le> room"
  shows "ngx_vslprintf room (c_percent # 48 # 50 # 100 # fmt) (Arg_32 w # args) =
    map_option ((@) (two_digits (unat w))) (ngx_vslprintf (room - 2) fmt args)"
  using assms
  by (subst ngx_vslprintf.simps)
    (simp add: fmt_parse_def fmt_conv_def fmt_int_def fmt_put_small decimal_two)

definition four_digits :: "nat \<Rightarrow> bytes" where
  "four_digits n = two_digits (n div 100) @ two_digits (n mod 100)"

lemma length_four_digits [simp]: "length (four_digits n) = 4"
  by (simp add: four_digits_def)

lemma decimal_snoc: "10 \<le> n \<Longrightarrow> decimal n = decimal (n div 10) @ [word_of_nat (n mod 10 + 48)]"
  by (subst decimal.simps) simp

lemma decimal_four:
  assumes "1000 \<le> n" "n < 10000"
  shows "decimal n = four_digits n"
proof -
  have "n mod 100 = 10 * (n div 10 mod 10) + n mod 10" using mod_mult2_eq [of n 10 10] by simp
  then have "n mod 100 div 10 = n div 10 mod 10" "n mod 100 mod 10 = n mod 10"
    using div_mod_unique [of "n mod 100" 10 "n div 10 mod 10" "n mod 10"] by simp_all
  moreover have "10 \<le> n div 10" using assms(1) by linarith
  moreover have "n div 10 div 10 = n div 100" by (simp add: div_mult2_eq [symmetric])
  moreover have "decimal (n div 100) = two_digits (n div 100)"
    using decimal_two [of "n div 100"] assms decimal_snoc [of "n div 100"] by (simp add: decimal.simps [of "n div 100 div 10"])
  ultimately show ?thesis
    using decimal_snoc [of n] decimal_snoc [of "n div 10"] assms(1)
    by (simp only: four_digits_def two_digits_def [of "n mod 100"] append_assoc append.simps order.trans [OF _ assms(1)])
qed

lemma vslprintf_4d:
  assumes "1000 \<le> unat w" "unat w < 10000" "20 \<le> room"
  shows "ngx_vslprintf room (c_percent # 52 # 100 # fmt) (Arg_32 w # args) =
    map_option ((@) (four_digits (unat w))) (ngx_vslprintf (room - 4) fmt args)"
  using assms
  by (subst ngx_vslprintf.simps)
    (simp add: fmt_parse_def fmt_conv_def fmt_int_def fmt_put_small decimal_four)

definition date_bytes :: "bytes \<Rightarrow> nat \<Rightarrow> bytes \<Rightarrow> nat \<Rightarrow> nat \<Rightarrow> nat \<Rightarrow> nat \<Rightarrow> bytes" where
  "date_bytes wd d mon y h mi s =
     wd @ str '', '' @ two_digits d @ str '' '' @ mon @ str '' '' @ four_digits y @ str '' '' @
     two_digits h @ str '':'' @ two_digits mi @ str '':'' @ two_digits s @ str '' GMT''"

lemma week_entry: "i < 7 \<Longrightarrow> length (week ! i) = 3 \<and> 0 \<notin> set (week ! i) \<and>
    c_comma \<notin> set (week ! i) \<and> c_space \<notin> set (week ! i)"
proof -
  have all: "list_all (\<lambda>w. length w = 3 \<and> 0 \<notin> set w \<and> c_comma \<notin> set w \<and> c_space \<notin> set w) week"
    by code_simp
  assume "i < 7"
  moreover have "length week = 7" by (simp add: week_def)
  ultimately have "week ! i \<in> set week" by (metis nth_mem)
  with all show ?thesis unfolding list_all_iff by blast
qed

lemma month_entry: "i < 12 \<Longrightarrow> length (months ! i) = 3 \<and> 0 \<notin> set (months ! i)"
proof -
  have all: "list_all (\<lambda>w. length w = 3 \<and> 0 \<notin> set w) months"
    by code_simp
  assume "i < 12"
  moreover have "length months = 12" by (simp add: months_def)
  ultimately have "months ! i \<in> set months" by (metis nth_mem)
  with all show ?thesis unfolding list_all_iff by blast
qed

lemma vslprintf_date:
  assumes "length wd = 3" "0 \<notin> set wd" "length mon = 3" "0 \<notin> set mon"
    "unat d < 100" "1000 \<le> unat y" "unat y < 10000" "unat h < 100" "unat mi < 100" "unat s < 100" "64 \<le> room"
  shows "ngx_vslprintf room (str ''%s, %02d %s %4d %02d:%02d:%02d GMT'')
     [Arg_str (wd @ [0]), Arg_32 d, Arg_str (mon @ [0]), Arg_32 y, Arg_32 h, Arg_32 mi, Arg_32 s] =
   Some (date_bytes wd (unat d) mon (unat y) (unat h) (unat mi) (unat s))"
proof -
  obtain r where r: "room = 64 + r" using assms(11) le_Suc_ex by blast
  have nil: "ngx_vslprintf n [] [] = Some []" for n by (subst ngx_vslprintf.simps) simp
  show ?thesis
    using assms(1-10) unfolding r
    by (simp add: vslprintf_char vslprintf_s vslprintf_02d vslprintf_4d nil date_bytes_def)
qed

lemma date_of_from_1970: "1970 \<le> fst (date_of n)"
proof (induction n)
  case (Suc n)
  then show ?case by (cases "date_of n") auto
qed simp

lemma date_of_range:
  assumes "date_of n = (y, m, d)" "n < 2932897"
  shows "0 < m" "m \<le> 12" "0 < d" "d \<le> days_in_month y m" "1970 \<le> y" "y < 10000"
proof -
  have "valid_date (y, m, d)" and num: "day_number (y, m, d) = 719468 + n"
    using date_of_number [of n] assms(1) by simp_all
  then show v: "0 < m" "m \<le> 12" "0 < d" "d \<le> days_in_month y m"
    by (simp_all add: valid_date_def)
  show "1970 \<le> y" using date_of_from_1970 [of n] assms(1) by simp
  show "y < 10000"
  proof (rule ccontr)
    assume "\<not> y < 10000"
    then have "march_days 9999 \<le> march_days (y - 1)" "march_days 10000 \<le> march_days y"
      by (simp_all add: march_days_mono)
    moreover have "march_days 9999 = 3652059" "march_days 10000 = 3652425" by (simp_all add: march_days_def)
    moreover have "month_days (m + 10) \<ge> 306" if "m \<le> 2" using v(1) that by (auto simp: month_days_def)
    ultimately have "3652365 \<le> day_number (y, m, d)"
      using v(3) by (cases "m \<le> 2") (simp_all add: day_number_def)
    then show False using num assms(2) by simp
  qed
qed

lemma unat_max: "unat (- 1 :: 64 word) = 2 ^ 64 - 1"
  by (simp add: unsigned_minus_1_eq_mask mask_eq_exp_minus_1)
lemma room_64:
  fixes buf :: "64 word"
  assumes "unat buf < 2 ^ 64 - 65"
  shows "64 \<le> unat (- 1 - buf)"
proof -
  have "buf \<le> - 1" by simp
  then have "unat (- 1 - buf) = unat (- 1 :: 64 word) - unat buf" by (rule unat_sub)
  then show ?thesis using assms by (simp only: unat_max)
qed

lemma http_time_bytes:
  assumes "unat t < 253402300800" "unat buf < 2 ^ 64 - 65" "date_of (unat t div 86400) = (y, m, d)"
  shows "ngx_http_time buf t = Some (date_bytes (week ! ((4 + unat t div 86400) mod 7)) d (months ! (m - 1)) y
    (unat t mod 86400 div 3600) (unat t mod 86400 mod 3600 div 60) (unat t mod 86400 mod 3600 mod 60))"
    (is "_ = Some (date_bytes ?w _ ?mon _ ?h ?mi ?s)")
proof -
  let ?tm = "ngx_gmtime t" and ?n = "unat t div 86400"
  have "unat t < 2 ^ 55" using assms(1) by simp
  note c = gmtime_calendar [OF this]
  have ymd: "unat (tm_year ?tm) = y" "unat (tm_mon ?tm) = m" "unat (tm_mday ?tm) = d"
    using c(1) assms(3) by simp_all
  have v: "0 < m" "m \<le> 12" "0 < d" "d \<le> 31" "1970 \<le> y" "y < 10000"
  proof -
    have "?n < 2932897" using assms(1) by (simp add: less_mult_imp_div_less)
    note r = date_of_range [OF assms(3) this]
    show "0 < m" "m \<le> 12" "0 < d" "1970 \<le> y" "y < 10000" by (rule r)+
    show "d \<le> 31" using r(4) by (simp add: days_in_month_def split: if_splits)
  qed
  have mon: "unat (tm_mon ?tm - 1) = m - 1"
    using ymd(2) v(1) by (simp add: unat_sub word_le_nat_alt)
  have "?h < 24" by (simp add: less_mult_imp_div_less)
  moreover have "?mi < 60" by (simp add: less_mult_imp_div_less)
  moreover have "?s < 60" by simp
  moreover have "64 \<le> unat (- 1 - buf)" using assms(2) by (rule room_64)
  moreover have w: "length ?w = 3" "0 \<notin> set ?w" using week_entry [of "(4 + ?n) mod 7"] by simp_all
  moreover have mm: "length ?mon = 3" "0 \<notin> set ?mon" using month_entry [of "m - 1"] v by simp_all
  moreover have "d < 100" using v(4) by simp
  moreover have "1000 \<le> y" using v(5) by simp
  ultimately have "ngx_vslprintf (unat (- 1 - buf)) (str ''%s, %02d %s %4d %02d:%02d:%02d GMT'')
     [Arg_str (?w @ [0]), Arg_32 (tm_mday ?tm), Arg_str (?mon @ [0]), Arg_32 (tm_year ?tm),
      Arg_32 (tm_hour ?tm), Arg_32 (tm_min ?tm), Arg_32 (tm_sec ?tm)] =
     Some (date_bytes ?w (unat (tm_mday ?tm)) ?mon (unat (tm_year ?tm)) (unat (tm_hour ?tm))
       (unat (tm_min ?tm)) (unat (tm_sec ?tm)))"
    using v(6) by (intro vslprintf_date; (assumption | (simp only: ymd c(3-5); linarith)))
  then show ?thesis
    unfolding ngx_http_time_def Let_def ngx_sprintf_def by (simp only: mon c(2-5) ymd)
qed

text \<open>A part of the parser stays inside the memory, and its result satisfies \<open>Q\<close>.\<close>

definition pt_ok :: "('a \<Rightarrow> bool) \<Rightarrow> 'a pt \<Rightarrow> bool" where
  "pt_ok Q x \<longleftrightarrow> (case x of None \<Rightarrow> False | Some (Inl u) \<Rightarrow> True | Some (Inr a) \<Rightarrow> Q a)"

lemma pt_ok_simps [simp]:
  "\<not> pt_ok Q None" "pt_ok Q (Some (Inl u))" "pt_ok Q (Some (Inr a)) = Q a"
  by (simp_all add: pt_ok_def)

lemma pt_ok_bind: "pt_ok R x \<Longrightarrow> (\<And>a. R a \<Longrightarrow> pt_ok Q (f a)) \<Longrightarrow> pt_ok Q (pt_bind x f)"
  by (cases x rule: option.exhaust; (cases "the x")?) (simp_all add: pt_bind_def)

lemma pt_ok_if: "(b \<Longrightarrow> pt_ok Q x) \<Longrightarrow> (\<not> b \<Longrightarrow> pt_ok Q y) \<Longrightarrow> pt_ok Q (if b then x else y)"
  by simp

lemma pt_ok_rd: "p < length m \<Longrightarrow> (\<And>c. pt_ok Q (f c)) \<Longrightarrow> pt_ok Q (Option.bind (rd m p) f)"
  by (simp add: rd_def)

lemma pt_ok_digits: "p + n \<le> length m \<Longrightarrow> pt_ok (\<lambda>_. True) (pt_digits m p n v)"
  by (induction m p n v rule: pt_digits.induct) (auto simp: rd_def)

lemma pt_ok_char: "p < length m \<Longrightarrow> pt_ok (\<lambda>_. True) (pt_char m p c)"
  by (simp add: pt_char_def rd_def)

lemma pt_ok_day:
  assumes "len \<le> length m" "p + 18 \<le> len"
  shows "pt_ok (\<lambda>(fmt', day, q). fmt' = Fmt_isoc \<and> q + 18 \<le> len \<or> fmt' = Fmt_rfc822 \<and> q + 17 \<le> len \<or>
    fmt' = Fmt_rfc850 \<and> q + 15 \<le> len) (pt_day m len fmt p)"
  unfolding pt_day_def Let_def
  by (rule pt_ok_if; (rule pt_ok_bind [OF pt_ok_digits] pt_ok_rd)?) (use assms in \<open>auto simp: rd_def\<close>)

lemma pt_ok_month: "p + 3 \<le> length m \<Longrightarrow> pt_ok (\<lambda>month. month < 12) (pt_month m p)"
  unfolding pt_month_def by (auto simp: rd_def)

lemma pt_ok_year:
  assumes "fmt = Fmt_rfc822 \<Longrightarrow> p + 14 \<le> length m" "fmt = Fmt_rfc850 \<Longrightarrow> p + 12 \<le> length m"
  shows "pt_ok (\<lambda>(year, q). q = p + (if fmt = Fmt_rfc822 then 5 else if fmt = Fmt_rfc850 then 3 else 1))
    (pt_year m fmt p)"
  unfolding pt_year_def
  by (auto intro!: pt_ok_bind [OF pt_ok_digits] pt_ok_bind [OF pt_ok_char] dest!: assms)

lemma pt_ok_isoc_day:
  assumes "len \<le> length m" "fmt = Fmt_isoc \<Longrightarrow> p + 14 \<le> len"
  shows "pt_ok (\<lambda>(day, q). if fmt = Fmt_isoc then q + 14 \<le> len else q = p) (pt_isoc_day m len fmt day p)"
proof (cases "fmt = Fmt_isoc")
  case True
  then have p: "p + 14 \<le> len" by (rule assms(2))
  show ?thesis
    unfolding pt_isoc_day_def Let_def using True p assms(1)
    by (auto intro!: pt_ok_rd pt_ok_bind [OF pt_ok_digits] pt_ok_bind [where R = "\<lambda>_. True"])
qed (simp add: pt_isoc_day_def)

lemma pt_ok_clock: "p + 9 \<le> length m \<Longrightarrow> pt_ok (\<lambda>(h, mi, s, q). q = p + 7) (pt_clock m p)"
  unfolding pt_clock_def by (auto intro!: pt_ok_bind [OF pt_ok_digits] pt_ok_bind [OF pt_ok_char])

lemma pt_ok_isoc_year:
  "(fmt = Fmt_isoc \<Longrightarrow> p + 7 \<le> length m) \<Longrightarrow> pt_ok (\<lambda>_. True) (pt_isoc_year m fmt year p)"
  unfolding pt_isoc_year_def by (auto intro!: pt_ok_bind [OF pt_ok_char] pt_ok_digits)

lemma pt_start_Some: "len \<le> length m \<Longrightarrow> \<exists>q fmt. pt_start m len p = Some (q, fmt)"
  by (induction m len p rule: pt_start.induct) (subst pt_start.simps, auto simp: rd_def)

lemma pt_skip_Some: "len \<le> length m \<Longrightarrow> \<exists>q. pt_skip m len p = Some q"
  by (induction m len p rule: pt_skip.induct) (subst pt_skip.simps, auto simp: rd_def)

lemma pt_ok_after_day:
  assumes "len \<le> length m" "fmt = Fmt_isoc \<and> p + 18 \<le> len \<or> fmt = Fmt_rfc822 \<and> p + 17 \<le> len \<or>
    fmt = Fmt_rfc850 \<and> p + 15 \<le> len"
  shows "pt_ok (\<lambda>_. True)
    (pt_bind (pt_month m p) (\<lambda>month.
     pt_bind (pt_year m fmt (p + 3)) (\<lambda>(year, p).
     pt_bind (pt_isoc_day m len fmt day p) (\<lambda>(day, p).
     pt_bind (pt_clock m p) (\<lambda>(hour, minute, sec, p).
     pt_bind (pt_isoc_year m fmt year p) (\<lambda>year.
       if pt_valid year month day hour minute sec
       then Some (Inr (pt_seconds year month day hour minute sec)) else pt_error))))))"
proof (rule pt_ok_bind [OF pt_ok_month], goal_cases)
  case (2 month)
  show ?case
  proof (rule pt_ok_bind [OF pt_ok_year], goal_cases)
    case (3 a)
    obtain year q where a: "a = (year, q)" by (cases a)
    have q: "fmt = Fmt_isoc \<and> q + 14 \<le> len \<or> fmt \<noteq> Fmt_isoc \<and> q + 9 \<le> len" using 3 assms(2) a by auto
    show ?case unfolding a prod.case
    proof (rule pt_ok_bind [OF pt_ok_isoc_day [OF assms(1)]], goal_cases)
      case (2 b)
      obtain day' r where b: "b = (day', r)" by (cases b)
      have r: "fmt = Fmt_isoc \<and> r + 14 \<le> len \<or> fmt \<noteq> Fmt_isoc \<and> r + 9 \<le> len" using 2 q b by (auto split: if_splits)
      show ?case unfolding b prod.case
        by (rule pt_ok_bind [OF pt_ok_clock]) (use r assms(1) in \<open>auto intro!: pt_ok_bind [OF pt_ok_isoc_year]\<close>)
    qed (use q in auto)
  qed (use assms in auto)
qed (use assms in auto)

lemma pt_ok_parse_time:
  assumes "len \<le> length m"
  shows "pt_ok (\<lambda>_. True) (ngx_http_parse_time m len)"
proof -
  obtain q fmt where q: "pt_start m len 0 = Some (q, fmt)" using pt_start_Some [OF assms] by blast
  obtain p where p: "pt_skip m len (Suc q) = Some p" using pt_skip_Some [OF assms] by blast
  show ?thesis
  proof (cases "int len - int p < 18")
    case False
    then have "p + 18 \<le> len" by simp
    then have d: "pt_ok (\<lambda>(fmt', day, r). fmt' = Fmt_isoc \<and> r + 18 \<le> len \<or> fmt' = Fmt_rfc822 \<and> r + 17 \<le> len \<or>
      fmt' = Fmt_rfc850 \<and> r + 15 \<le> len) (pt_day m len fmt p)"
      by (rule pt_ok_day [OF assms])
    show ?thesis
      unfolding ngx_http_parse_time_def using q p False
      by (auto intro!: pt_ok_bind [OF d] pt_ok_after_day [OF assms] elim: time_fmt.exhaust)
  qed (simp add: ngx_http_parse_time_def q p)
qed

text \<open>
  C34. \<open>ngx_http_parse_time\<close> is total on any input: it reads only the \<open>len\<close> bytes it is given,
  whatever they are, though it tests the length only where a format is chosen.
\<close>

theorem ngx_http_parse_time_safe:
  assumes "len \<le> length m"
  shows "ngx_http_parse_time m len = pt_error \<or> (\<exists>t. ngx_http_parse_time m len = Some (Inr t))"
  using pt_ok_parse_time [OF assms] by (cases "ngx_http_parse_time m len"; (cases "the (ngx_http_parse_time m len)")?) auto

theorem ngx_http_parse_time_safe_witness:
  "ngx_http_parse_time (str ''Tue, 10'') 7 = pt_error \<or>
   (\<exists>t. ngx_http_parse_time (str ''Tue, 10'') 7 = Some (Inr t))"
  by (rule ngx_http_parse_time_safe) simp

lemma pt_start_step:
  "p < len \<Longrightarrow> p < length m \<Longrightarrow> pt_start m len p =
    (if m ! p = c_comma then Some (p, Fmt_no) else if m ! p = c_space then Some (p, Fmt_isoc)
     else pt_start m len (p + 1))"
  by (subst pt_start.simps) (simp add: rd_def)

lemma pt_skip_step:
  "p < len \<Longrightarrow> p < length m \<Longrightarrow> pt_skip m len p = (if m ! p \<noteq> c_space then Some p else pt_skip m len (p + 1))"
  by (subst pt_skip.simps) (simp add: rd_def)

lemma digit_word: "k < 10 \<Longrightarrow> \<not> (word_of_nat (k + 48) < c_0 \<or> word_of_nat (k + 48) > c_9) \<and>
    (ucast (word_of_nat (k + 48) :: u_char) :: 64 word) - 48 = word_of_nat k"
proof -
  assume "k < 10"
  then have "k \<in> {0,1,2,3,4,5,6,7,8,9}" by auto
  then show ?thesis by auto
qed

lemma pt_digits_two:
  assumes "take 2 (drop p m) = two_digits n" "n < 100"
  shows "pt_digits m p 2 v = Some (Inr (v * 100 + word_of_nat n))"
proof -
  have l: "p + 2 \<le> length m" using arg_cong [OF assms(1), of length] by simp
  then have m: "m ! p = word_of_nat (n div 10 + 48)" "m ! Suc p = word_of_nat (n mod 10 + 48)"
    using arg_cong [OF assms(1), of "\<lambda>l. l ! 0"] arg_cong [OF assms(1), of "\<lambda>l. l ! 1"]
    by (simp_all add: two_digits_def)
  have d: "n div 10 < 10" "n mod 10 < 10" using assms(2) by auto
  note w = digit_word [OF d(1)] digit_word [OF d(2)]
  have "n = 10 * (n div 10) + n mod 10" by simp
  then have "word_of_nat n = (10 :: 64 word) * word_of_nat (n div 10) + word_of_nat (n mod 10)"
    by (metis of_nat_add of_nat_mult of_nat_numeral)
  moreover have "a + ucast c - 48 = a + (ucast c - 48)" for a :: "64 word" and c :: u_char by simp
  ultimately show ?thesis
    using l w by (simp add: numeral_2_eq_2 rd_def m algebra_simps)
qed

lemma pt_digits_append: "pt_digits m p (a + b) v = pt_bind (pt_digits m p a v) (pt_digits m (p + a) b)"
  by (induction m p a v rule: pt_digits.induct) (auto simp: pt_bind_def split: option.splits sum.splits bind_split)

lemma pt_digits_four:
  assumes "take 4 (drop p m) = four_digits n" "n < 10000"
  shows "pt_digits m p 4 0 = Some (Inr (word_of_nat n))"
proof -
  have "take 2 (take 4 (drop p m)) = two_digits (n div 100)"
    "drop 2 (take 4 (drop p m)) = two_digits (n mod 100)"
    unfolding assms(1) four_digits_def by simp_all
  then have "take 2 (drop p m) = two_digits (n div 100)" "take 2 (drop (p + 2) m) = two_digits (n mod 100)"
    by (simp_all add: drop_take add.commute)
  note d = pt_digits_two [OF this(1), of 0] pt_digits_two [OF this(2), of "word_of_nat (n div 100)"]
  have "n = n div 100 * 100 + n mod 100" by simp
  then have "word_of_nat n = word_of_nat (n div 100) * (100 :: 64 word) + word_of_nat (n mod 100)"
    by (metis of_nat_add of_nat_mult of_nat_numeral)
  then show ?thesis
    using pt_digits_append [of m p 2 2 0] d assms(2) by (simp add: pt_bind_def)
qed

lemma less_12: "i < 12 \<Longrightarrow> i = 0 \<or> i = 1 \<or> i = 2 \<or> i = 3 \<or> i = 4 \<or> i = 5 \<or> i = 6 \<or> i = 7 \<or> i = 8 \<or>
    i = 9 \<or> i = 10 \<or> i = (11 :: nat)"
  by presburger

lemma pt_month_name:
  assumes "take 3 (drop p m) = months ! i" "i < 12"
  shows "pt_month m p = Some (Inr (word_of_nat i))"
proof -
  have l: "length (months ! i) = 3" using month_entry [OF assms(2)] by simp
  then have p: "p + 3 \<le> length m" using arg_cong [OF assms(1), of length] by simp
  have "m ! p = months ! i ! 0" "m ! Suc p = months ! i ! 1" "m ! Suc (Suc p) = months ! i ! 2"
    using p unfolding assms(1) [symmetric] by simp_all
  then show ?thesis
    using less_12 [OF assms(2)] p by (elim disjE) (simp_all add: pt_month_def rd_def months_def)
qed

lemma gauss_year_word: "y < 2 ^ 50 \<Longrightarrow> gauss_year (word_of_nat y) = word_of_nat (march_days y)"
proof -
  assume y: "y < 2 ^ 50"
  then have "unat (word_of_nat y :: 64 word) = y" by (simp add: unsigned_of_nat take_bit_nat_eq_self_iff)
  then have "unat (gauss_year (word_of_nat y)) = march_days y" using unat_gauss_year [of "word_of_nat y"] y by simp
  from arg_cong [OF this, of "word_of_nat :: nat \<Rightarrow> 64 word"] show ?thesis by simp
qed

lemma pt_seconds_word:
  assumes "valid_date (y, m, d)" "day_number (y, m, d) = 719468 + n" "y < 10000"
  shows "pt_seconds (word_of_nat y) (word_of_nat (m - 1)) (word_of_nat d) (word_of_nat h) (word_of_nat mi) (word_of_nat s) =
    word_of_nat (n * 86400 + h * 3600 + mi * 60 + s)"
proof -
  define z where "z = (if m \<le> 2 then y - 1 else y)"
  define k where "k = (if m \<le> 2 then m + 10 else m - 2)"
  have v: "0 < y" "0 < m" "m \<le> 12" "0 < d" using assms(1) by (simp_all add: valid_date_def)
  have "march_days z + month_days k + d = 719469 + n"
    using assms(2) v unfolding day_number_def z_def k_def by auto
  from arg_cong [OF this, of "word_of_nat :: nat \<Rightarrow> 64 word"]
  have num: "word_of_nat (march_days z) + word_of_nat (month_days k) + word_of_nat d = (719469 :: 64 word) + word_of_nat n"
    by simp
  have y1: "word_of_nat y - 1 = (word_of_nat (y - 1) :: 64 word)" using v(1) by simp
  have "pt_seconds (word_of_nat y) (word_of_nat (m - 1)) (word_of_nat d) (word_of_nat h) (word_of_nat mi) (word_of_nat s) =
     (gauss_year (word_of_nat z) + word_of_nat (month_days k) + word_of_nat d - 1 - 719527 + 31 + 28) * 86400 +
         word_of_nat h * 3600 + word_of_nat mi * 60 + word_of_nat s"
    using month_enum [OF v(2,3)]
    by (elim disjE) (simp_all add: pt_seconds_def z_def k_def month_days_def y1 word_sle_eq)
  also have "gauss_year (word_of_nat z) = word_of_nat (march_days z)"
    using assms(3) by (intro gauss_year_word) (auto simp: z_def)
  finally show ?thesis using arg_cong [OF num, of "\<lambda>x. x * 86400"] by (simp add: algebra_simps)
qed

lemma and_3_mod: "w AND 3 = (w :: 64 word) mod 4"
proof -
  have "w AND mask 2 = w mod 2 ^ 2" by (simp flip: take_bit_eq_mask add: take_bit_eq_mod)
  then show ?thesis by (simp add: mask_eq_exp_minus_1)
qed

lemma pt_valid_date:
  assumes "valid_date (y, m, d)" "y < 10000" "h < 24" "mi < 60" "s < 60"
  shows "pt_valid (word_of_nat y) (word_of_nat (m - 1)) (word_of_nat d) (word_of_nat h) (word_of_nat mi) (word_of_nat s)"
proof -
  have u: "unat (word_of_nat i :: 64 word) = i" if "i < 10000" for i
    using that by (simp add: unsigned_of_nat take_bit_nat_eq_self_iff)
  have v: "0 < m" "m \<le> 12" "0 < d" "d \<le> days_in_month y m" using assms(1) by (simp_all add: valid_date_def)
  then have d: "d < 32" by (simp add: days_in_month_def split: if_splits)
  have clock: "\<not> (23 < (word_of_nat h :: 64 word) \<or> 59 < (word_of_nat mi :: 64 word) \<or> 59 < (word_of_nat s :: 64 word))"
    using assms(3-5) by (simp add: word_less_nat_alt u)
  have leap: "(word_of_nat y :: 64 word) AND 3 = 0 \<and> (word_of_nat y mod 100 \<noteq> (0 :: 64 word) \<or> word_of_nat y mod 400 = (0 :: 64 word))"
    if "leap_year y"
    using that assms(2) by (simp add: leap_year_def and_3_mod u unat_mod flip: unat_eq_0)
  have eq: "(word_of_nat d = (29 :: 64 word)) = (d = 29)" "(word_of_nat (m - 1) = (1 :: 64 word)) = (m = 2)"
    using d month_enum [OF v(1,2)] by (auto simp: word_unat_eq_iff u)
  have "\<not> mday_table ! unat (word_of_nat (m - 1) :: ngx_int_t) < word_of_nat d" if "\<not> (d = 29 \<and> m = 2)"
    using month_enum [OF v(1,2)] that v(4) d
    by (elim disjE) (simp_all add: days_in_month_def mday_table_def word_less_nat_alt u split: if_splits)
  moreover have "leap_year y" if "d = 29" "m = 2"
    using that v(4) by (simp add: days_in_month_def split: if_splits)
  ultimately show ?thesis
    unfolding pt_valid_def eq using clock leap by auto
qed

lemma parse_time_date_bytes:
  assumes "length wd = 3" "c_comma \<notin> set wd" "c_space \<notin> set wd"
    "valid_date (y, Suc i, d)" "day_number (y, Suc i, d) = 719468 + n" "y < 10000" "h < 24" "mi < 60" "s < 60"
  shows "ngx_http_parse_time (date_bytes wd d (months ! i) y h mi s) 29 =
    Some (Inr (word_of_nat (n * 86400 + h * 3600 + mi * 60 + s)))" (is "ngx_http_parse_time ?b _ = _")
proof -
  have v: "i < 12" "0 < d" "d \<le> days_in_month y (Suc i)" using assms(4) by (simp_all add: valid_date_def)
  then have d: "d < 100" by (simp add: days_in_month_def split: if_splits)
  obtain a b c where wd: "wd = [a, b, c]" using assms(1) by (auto simp: numeral_3_eq_3 length_Suc_conv)
  have "length (months ! i) = 3" using month_entry [OF v(1)] by blast
  then obtain x1 x2 x3 where mon: "months ! i = [x1, x2, x3]" by (auto simp: numeral_3_eq_3 length_Suc_conv)
  have len: "length ?b = 29" by (simp add: date_bytes_def mon wd)
  obtain d1 d2 where d12: "two_digits d = [d1, d2]" by (simp add: two_digits_def)
  obtain y1 y2 y3 y4 where y: "four_digits y = [y1, y2, y3, y4]" by (simp add: four_digits_def two_digits_def)
  obtain h1 h2 where h: "two_digits h = [h1, h2]" by (simp add: two_digits_def)
  obtain m1 m2 where mi: "two_digits mi = [m1, m2]" by (simp add: two_digits_def)
  obtain s1 s2 where s: "two_digits s = [s1, s2]" by (simp add: two_digits_def)
  note b = date_bytes_def wd mon d12 y h mi s
  have "d1 \<noteq> c_space"
  proof -
    have "d div 10 < 10" using d by simp
    from digit_word [OF this] show ?thesis using d12 by (auto simp: two_digits_def)
  qed
  then have skip: "pt_skip ?b 29 4 = Some 5" by (simp add: pt_skip_step b)
  have start: "pt_start ?b 29 0 = Some (3, Fmt_no)"
    using assms(2,3) by (simp add: pt_start_step b)
  have day: "pt_day ?b 29 Fmt_no 5 = Some (Inr (Fmt_rfc822, word_of_nat d, 8))"
    using pt_digits_two [of 5 ?b d 0] d by (simp add: pt_day_def pt_bind_def b rd_def)
  have month: "pt_month ?b 8 = Some (Inr (word_of_nat i))"
    using v by (intro pt_month_name) (simp_all add: b)
  have year: "pt_year ?b Fmt_rfc822 11 = Some (Inr (word_of_nat y, 16))"
    using pt_digits_four [of 12 ?b y] assms(6) by (simp add: pt_year_def pt_char_def pt_bind_def b rd_def)
  have clock: "pt_clock ?b 16 = Some (Inr (word_of_nat h, word_of_nat mi, word_of_nat s, 23))"
    using pt_digits_two [of 17 ?b h 0] pt_digits_two [of 20 ?b mi 0] pt_digits_two [of 23 ?b s 0] assms(7-9)
    by (simp add: pt_clock_def pt_char_def pt_bind_def b rd_def)
  have valid: "pt_valid (word_of_nat y) (word_of_nat i) (word_of_nat d) (word_of_nat h) (word_of_nat mi) (word_of_nat s)"
    using pt_valid_date [OF assms(4,6-9)] by simp
  show ?thesis
    unfolding ngx_http_parse_time_def
    using start skip day month year clock valid pt_seconds_word [OF assms(4-6), of h mi s, simplified]
    by (simp add: pt_bind_def pt_isoc_day_def pt_isoc_year_def)
qed

text \<open>
  C35. \<open>ngx_http_parse_time\<close> reads back what \<open>ngx_http_time\<close> prints: for every time before the
  year 10000 the 29 bytes of the date parse to the same number of seconds.
\<close>

theorem ngx_http_time_roundtrip:
  assumes "unat t < 253402300800" "unat buf < 2 ^ 64 - 65"
  shows "\<exists>b. ngx_http_time buf t = Some b \<and> length b = 29 \<and> ngx_http_parse_time b 29 = Some (Inr t)"
proof -
  let ?n = "unat t div 86400" and ?r = "unat t mod 86400"
  obtain y m d where dt: "date_of ?n = (y, m, d)" by (cases "date_of ?n")
  have n: "?n < 2932897" using assms(1) by (simp add: less_mult_imp_div_less)
  note r = date_of_range [OF dt n]
  have v: "valid_date (y, m, d)" "day_number (y, m, d) = 719468 + ?n"
    using date_of_number [of ?n] dt by simp_all
  have w: "length (week ! ((4 + ?n) mod 7)) = 3" "c_comma \<notin> set (week ! ((4 + ?n) mod 7))"
    "c_space \<notin> set (week ! ((4 + ?n) mod 7))"
    using week_entry [of "(4 + ?n) mod 7"] by simp_all
  obtain i where m: "m = Suc i" using r(1) by (cases m) auto
  then have mon: "length (months ! i) = 3" using month_entry [of i] r(2) by simp
  have t: "?r div 3600 < 24" "?r mod 3600 div 60 < 60" "?r mod 3600 mod 60 < 60"
    by (simp_all add: less_mult_imp_div_less)
  have "?n * 86400 + ?r div 3600 * 3600 + ?r mod 3600 div 60 * 60 + ?r mod 3600 mod 60 = unat t"
    using div_mult_mod_eq [of "unat t" 86400] div_mult_mod_eq [of ?r 3600] div_mult_mod_eq [of "?r mod 3600" 60]
    by linarith
  then show ?thesis
    using http_time_bytes [OF assms dt] parse_time_date_bytes [OF w v [unfolded m] r(6) t] w(1) mon
    by (simp add: date_bytes_def m)
qed

theorem ngx_http_time_roundtrip_witness:
  "\<exists>b. ngx_http_time 0 1700000000 = Some b \<and> length b = 29 \<and> ngx_http_parse_time b 29 = Some (Inr 1700000000)"
  by (rule ngx_http_time_roundtrip) simp_all

text \<open>The parser takes the day 00 for the last day of the month before: the test has no lower bound.\<close>

theorem ngx_http_parse_time_day_zero:
  "ngx_http_parse_time (str ''Sun, 00 Nov 1994 08:49:37 GMT'') 29 =
   ngx_http_parse_time (str ''Mon, 31 Oct 1994 08:49:37 GMT'') 29"
  "ngx_http_parse_time (str ''Sun, 00 Nov 1994 08:49:37 GMT'') 29 = Some (Inr 783593377)"
  by code_simp+

end
