(* ===== verification/Ngx_Radix_Tree.thy ===== *)
theory Ngx_Radix_Tree
  imports Ngx_Prelude
begin

text \<open>
  The radix tree of \<open>src/src/core/ngx_radix_tree.c\<close>, which the geo module uses to map IPv4
  networks to values. The tree lives in a store of nodes with child and parent pointers, and
  freed nodes are kept in a list that is threaded through the \<open>right\<close> pointers.

  A value of type \<open>option\<close> that a function returns is \<open>None\<close> when the code would follow a null
  or dangling pointer, or when its loop would not end.
\<close>

section \<open>Model\<close>

type_synonym addr = nat
type_synonym uintptr_t = "64 word"

record radix_node =
  rx_right :: "addr option"
  rx_left :: "addr option"
  rx_parent :: "addr option"
  rx_value :: uintptr_t

definition NGX_RADIX_NO_VALUE :: uintptr_t where
  "NGX_RADIX_NO_VALUE = - 1"

text \<open>
  \<open>ngx_radix_tree_t\<close> and the memory the nodes are in. \<open>rx_pages\<close> counts the calls of
  \<open>ngx_pmemalign\<close>, whose results are a parameter of the model, as is \<open>ngx_pagesize\<close>.
\<close>

record radix_tree =
  rx_root :: addr
  rx_free :: "addr option"
  rx_start :: "nat option"
  rx_size :: nat
  rx_pages :: nat
  rx_mem :: "addr \<rightharpoonup> radix_node"

type_synonym pmemalign = "nat \<Rightarrow> addr option"

datatype rx_rc = Rx_OK | Rx_BUSY | Rx_ERROR

definition sizeof_node :: nat where
  "sizeof_node = 32"

definition sizeof_tree :: nat where
  "sizeof_tree = 40"

definition ngx_radix_alloc :: "pmemalign \<Rightarrow> nat \<Rightarrow> radix_tree \<Rightarrow> (addr option \<times> radix_tree) option" where
  "ngx_radix_alloc pmem ngx_pagesize t =
     (case rx_free t of
        Some p \<Rightarrow> do {
          n \<leftarrow> rx_mem t p;
          Some (Some p, t\<lparr>rx_free := rx_right n\<rparr>) }
      | None \<Rightarrow>
          (let t' = (if rx_size t < sizeof_node
                     then t\<lparr>rx_start := pmem (rx_pages t), rx_pages := rx_pages t + 1\<rparr> else t)
           in
           if rx_size t < sizeof_node \<and> rx_start t' = None then Some (None, t')
           else do {
             let size = (if rx_size t < sizeof_node then ngx_pagesize else rx_size t);
             p \<leftarrow> rx_start t';
             Some (Some p, t'\<lparr>rx_start := Some (p + sizeof_node), rx_size := size - sizeof_node\<rparr>) }))"

definition rx_child :: "bool \<Rightarrow> radix_node \<Rightarrow> addr option" where
  "rx_child b n = (if b then rx_right n else rx_left n)"

definition rx_set_child :: "bool \<Rightarrow> addr option \<Rightarrow> radix_node \<Rightarrow> radix_node" where
  "rx_set_child b a n = (if b then n\<lparr>rx_right := a\<rparr> else n\<lparr>rx_left := a\<rparr>)"

lemma shift_less: "b AND msk \<noteq> 0 \<Longrightarrow> unat (drop_bit (Suc 0) b :: uint32_t) < unat b"
proof -
  assume "b AND msk \<noteq> 0"
  then have "0 < unat b" by (auto simp: unat_gt_0)
  then show ?thesis by (simp only: unat_drop_bit_eq) (simp add: drop_bit_Suc)
qed

text \<open>The first loop of the insertion: how far the path exists.\<close>

function insert_walk ::
  "(addr \<rightharpoonup> radix_node) \<Rightarrow> uint32_t \<Rightarrow> uint32_t \<Rightarrow> uint32_t \<Rightarrow> addr \<Rightarrow> addr option \<Rightarrow>
   (uint32_t \<times> addr \<times> addr option) option" where
  "insert_walk m key msk b node nxt =
     (if b AND msk = 0 then Some (b, node, nxt)
      else case m node of
        None \<Rightarrow> None
      | Some n \<Rightarrow>
          (case rx_child (key AND b \<noteq> 0) n of
             None \<Rightarrow> Some (b, node, None)
           | Some c \<Rightarrow> insert_walk m key msk (drop_bit 1 b) c (Some c)))"
  by pat_completeness auto

termination
  by (relation "measure (\<lambda>(m, key, msk, b, node, nxt). unat b)") (auto intro!: shift_less)

declare insert_walk.simps [simp del]

text \<open>The second loop: the rest of the path is added node by node.\<close>

definition insert_link :: "addr \<Rightarrow> addr \<Rightarrow> bool \<Rightarrow> radix_tree \<Rightarrow> radix_tree option" where
  "insert_link node nxt right t = do {
     let m = (rx_mem t)(nxt \<mapsto>
       \<lparr>rx_right = None, rx_left = None, rx_parent = Some node, rx_value = NGX_RADIX_NO_VALUE\<rparr>);
     n \<leftarrow> m node;
     Some (t\<lparr>rx_mem := m(node \<mapsto> rx_set_child right (Some nxt) n)\<rparr>) }"

definition set_value :: "addr \<Rightarrow> uintptr_t \<Rightarrow> radix_tree \<Rightarrow> radix_tree option" where
  "set_value node v t = do {
     n \<leftarrow> rx_mem t node;
     Some (t\<lparr>rx_mem := (rx_mem t)(node \<mapsto> n\<lparr>rx_value := v\<rparr>)\<rparr>) }"

function insert_grow ::
  "pmemalign \<Rightarrow> nat \<Rightarrow> uint32_t \<Rightarrow> uint32_t \<Rightarrow> uintptr_t \<Rightarrow> uint32_t \<Rightarrow> addr \<Rightarrow> radix_tree \<Rightarrow>
   (rx_rc \<times> radix_tree) option" where
  "insert_grow pmem ngx_pagesize key msk v b node t =
     (if b AND msk = 0 then do { t \<leftarrow> set_value node v t; Some (Rx_OK, t) }
      else case ngx_radix_alloc pmem ngx_pagesize t of
        None \<Rightarrow> None
      | Some (None, t) \<Rightarrow> Some (Rx_ERROR, t)
      | Some (Some nxt, t) \<Rightarrow>
          (case insert_link node nxt (key AND b \<noteq> 0) t of
             None \<Rightarrow> None
           | Some t \<Rightarrow> insert_grow pmem ngx_pagesize key msk v (drop_bit 1 b) nxt t))"
  by pat_completeness auto

termination
  by (relation "measure (\<lambda>(pmem, ps, key, msk, v, b, node, t). unat b)") (auto intro!: shift_less)

declare insert_grow.simps [simp del]

definition ngx_radix32tree_insert ::
  "pmemalign \<Rightarrow> nat \<Rightarrow> radix_tree \<Rightarrow> uint32_t \<Rightarrow> uint32_t \<Rightarrow> uintptr_t \<Rightarrow>
   (rx_rc \<times> radix_tree) option" where
  "ngx_radix32tree_insert pmem ngx_pagesize t key msk v = do {
     (b, node, nxt) \<leftarrow> insert_walk (rx_mem t) key msk 0x80000000 (rx_root t) (Some (rx_root t));
     if nxt \<noteq> None then do {
       n \<leftarrow> rx_mem t node;
       if rx_value n \<noteq> NGX_RADIX_NO_VALUE then Some (Rx_BUSY, t)
       else do { t \<leftarrow> set_value node v t; Some (Rx_OK, t) } }
     else insert_grow pmem ngx_pagesize key msk v b node t }"

function delete_walk ::
  "(addr \<rightharpoonup> radix_node) \<Rightarrow> uint32_t \<Rightarrow> uint32_t \<Rightarrow> uint32_t \<Rightarrow> addr option \<Rightarrow> addr option option" where
  "delete_walk m key msk b node =
     (case node of
        None \<Rightarrow> Some None
      | Some a \<Rightarrow>
          if b AND msk = 0 then Some (Some a)
          else (case m a of
            None \<Rightarrow> None
          | Some n \<Rightarrow> delete_walk m key msk (drop_bit 1 b) (rx_child (key AND b \<noteq> 0) n)))"
  by pat_completeness auto

termination
  by (relation "measure (\<lambda>(m, key, msk, b, node). unat b)") (auto intro!: shift_less)

declare delete_walk.simps [simp del]

text \<open>One round of the last loop: the node is taken from its parent and put on the free list.\<close>

definition delete_unlink :: "addr \<Rightarrow> radix_tree \<Rightarrow> (addr \<times> radix_tree) option" where
  "delete_unlink node t = do {
     n \<leftarrow> rx_mem t node;
     p \<leftarrow> rx_parent n;
     pn \<leftarrow> rx_mem t p;
     let m = (rx_mem t)(p \<mapsto> rx_set_child (rx_right pn = Some node) None pn);
     n \<leftarrow> m node;
     Some (p, t\<lparr>rx_mem := m(node \<mapsto> n\<lparr>rx_right := rx_free t\<rparr>), rx_free := Some node\<rparr>) }"

partial_function (option) delete_up :: "addr \<Rightarrow> radix_tree \<Rightarrow> radix_tree option" where
  "delete_up node t =
     (case delete_unlink node t of
        None \<Rightarrow> None
      | Some (p, t) \<Rightarrow>
          (case rx_mem t p of
             None \<Rightarrow> None
           | Some pn \<Rightarrow>
               if rx_right pn \<noteq> None \<or> rx_left pn \<noteq> None then Some t
               else if rx_value pn \<noteq> NGX_RADIX_NO_VALUE then Some t
               else if rx_parent pn = None then Some t
               else delete_up p t))"

declare delete_up.simps [code]

definition ngx_radix32tree_delete ::
  "radix_tree \<Rightarrow> uint32_t \<Rightarrow> uint32_t \<Rightarrow> (rx_rc \<times> radix_tree) option" where
  "ngx_radix32tree_delete t key msk = do {
     node \<leftarrow> delete_walk (rx_mem t) key msk 0x80000000 (Some (rx_root t));
     case node of
       None \<Rightarrow> Some (Rx_ERROR, t)
     | Some a \<Rightarrow> do {
         n \<leftarrow> rx_mem t a;
         if rx_right n \<noteq> None \<or> rx_left n \<noteq> None then
           (if rx_value n \<noteq> NGX_RADIX_NO_VALUE
            then do { t \<leftarrow> set_value a NGX_RADIX_NO_VALUE t; Some (Rx_OK, t) }
            else Some (Rx_ERROR, t))
         else do { t \<leftarrow> delete_up a t; Some (Rx_OK, t) } } }"




subsection \<open>Creation\<close>

definition rx_preallocate :: "nat \<Rightarrow> ngx_int_t \<Rightarrow> ngx_int_t" where
  "rx_preallocate ngx_pagesize n =
     (if n \<noteq> - 1 then n
      else if ngx_pagesize div sizeof_tree = 128 then 6
      else if ngx_pagesize div sizeof_tree = 256 then 7
      else 8)"

text \<open>The inner loop: \<open>do { insert; key += inc } while (key)\<close>; \<open>Inl ()\<close> stands for \<open>return NULL\<close>.\<close>

partial_function (option) create_level ::
  "pmemalign \<Rightarrow> nat \<Rightarrow> uint32_t \<Rightarrow> uint32_t \<Rightarrow> uint32_t \<Rightarrow> radix_tree \<Rightarrow> (unit + radix_tree) option" where
  "create_level pmem ngx_pagesize msk inc key t =
     (case ngx_radix32tree_insert pmem ngx_pagesize t key msk NGX_RADIX_NO_VALUE of
        None \<Rightarrow> None
      | Some (rc, t) \<Rightarrow>
          if rc \<noteq> Rx_OK then Some (Inl ())
          else if key + inc \<noteq> 0 then create_level pmem ngx_pagesize msk inc (key + inc) t
          else Some (Inr t))"

declare create_level.simps [code]

function create_levels ::
  "pmemalign \<Rightarrow> nat \<Rightarrow> ngx_int_t \<Rightarrow> uint32_t \<Rightarrow> uint32_t \<Rightarrow> radix_tree \<Rightarrow> (unit + radix_tree) option" where
  "create_levels pmem ngx_pagesize preallocate msk inc t =
     (if preallocate = 0 then Some (Inr t)
      else
        (let msk = drop_bit 1 msk OR 0x80000000 in
         case create_level pmem ngx_pagesize msk inc 0 t of
           None \<Rightarrow> None
         | Some (Inl u) \<Rightarrow> Some (Inl u)
         | Some (Inr t) \<Rightarrow>
             create_levels pmem ngx_pagesize (preallocate - 1) msk (drop_bit 1 inc) t))"
  by pat_completeness auto

termination
  by (relation "measure (\<lambda>(pmem, ps, n, msk, inc, t). unat n)") (auto simp: measure_unat)

declare create_levels.simps [simp del]

definition ngx_radix_tree_create :: "pmemalign \<Rightarrow> nat \<Rightarrow> ngx_int_t \<Rightarrow> (unit + radix_tree) option" where
  "ngx_radix_tree_create pmem ngx_pagesize preallocate = do {
     let t = \<lparr>rx_root = 0, rx_free = None, rx_start = None, rx_size = 0, rx_pages = 0, rx_mem = Map.empty\<rparr>;
     (root, t) \<leftarrow> ngx_radix_alloc pmem ngx_pagesize t;
     case root of
       None \<Rightarrow> Some (Inl ())
     | Some r \<Rightarrow> do {
         let t = t\<lparr>rx_root := r, rx_mem := (rx_mem t)(r \<mapsto>
           \<lparr>rx_right = None, rx_left = None, rx_parent = None, rx_value = NGX_RADIX_NO_VALUE\<rparr>)\<rparr>;
         create_levels pmem ngx_pagesize (rx_preallocate ngx_pagesize preallocate) 0 0x80000000 t } }"

section \<open>Paths\<close>










section \<open>Nodes and their paths\<close>

text \<open>The node that a path leads to.\<close>

primrec walk :: "(addr \<rightharpoonup> radix_node) \<Rightarrow> addr option \<Rightarrow> bool list \<Rightarrow> addr option" where
  "walk m a [] = a"
| "walk m a (b # bs) = do { n \<leftarrow> a; nd \<leftarrow> m n; walk m (rx_child b nd) bs }"

lemma walk_None [simp]: "walk m None bs = None"
  by (cases bs) auto



definition rx_at :: "radix_tree \<Rightarrow> bool list \<Rightarrow> addr option" where
  "rx_at t p = walk (rx_mem t) (Some (rx_root t)) p"

lemma rx_at_Nil [simp]: "rx_at t [] = Some (rx_root t)"
  by (simp add: rx_at_def)



section \<open>The invariant\<close>





fun free_list :: "(addr \<rightharpoonup> radix_node) \<Rightarrow> addr option \<Rightarrow> addr list \<Rightarrow> bool" where
  "free_list m a [] \<longleftrightarrow> a = None"
| "free_list m a (x # xs) \<longleftrightarrow> a = Some x \<and> (\<exists>n. m x = Some n \<and> free_list m (rx_right n) xs)"



lemma free_list_upd [simp]: "x \<notin> set fs \<Longrightarrow> free_list (m(x \<mapsto> n)) a fs = free_list m a fs"
  by (induction fs arbitrary: a) auto

lemma free_list_dom: "free_list m a fs \<Longrightarrow> set fs \<subseteq> dom m"
  by (induction fs arbitrary: a) auto







subsection \<open>Allocation\<close>






subsection \<open>Changing a value\<close>

lemma rx_child_value [simp]: "rx_child b (n\<lparr>rx_value := v\<rparr>) = rx_child b n"
  by (simp add: rx_child_def)



subsection \<open>Adding a node\<close>

lemma rx_child_set [simp]: "rx_child c (rx_set_child b a n) = (if c = b then a else rx_child c n)"
  by (auto simp: rx_child_def rx_set_child_def)

lemma rx_set_child_simps [simp]:
  "rx_value (rx_set_child b a n) = rx_value n" "rx_parent (rx_set_child b a n) = rx_parent n"
  by (simp_all add: rx_set_child_def)




subsection \<open>Insertion\<close>




subsection \<open>Deletion\<close>







section \<open>Lookup\<close>








section \<open>Creation\<close>









section \<open>The contract of the radix tree\<close>



section \<open>Histories of a radix tree\<close>






text \<open>Small pages, two nodes each, one behind the other.\<close>

definition demo_pages :: pmemalign where
  "demo_pages i = Some (64 * i)"






text \<open>
  Deleting the empty prefix from a tree without further nodes follows the null parent pointer
  of the root.
\<close>

theorem ngx_radix32tree_delete_root:
  "do { r \<leftarrow> ngx_radix_tree_create demo_pages 64 0;
        case r of Inl _ \<Rightarrow> Some False | Inr t \<Rightarrow> Some (ngx_radix32tree_delete t 0 0 = None) } = Some True"
  by code_simp

text \<open>
  On amd64 the default number of preallocated levels is 8 rather than the 6 of the comment:
  the code divides the page size by the size of \<open>ngx_radix_tree_t\<close>, not of a node.
\<close>

theorem ngx_radix_tree_create_default: "rx_preallocate 4096 (- 1) = 8 \<and> 4096 div sizeof_node = 128"
  by (simp add: rx_preallocate_def sizeof_tree_def sizeof_node_def)

end
