(* ===== verification/Ngx_Sort.thy ===== *)
theory Ngx_Sort
  imports Ngx_Prelude
begin

text \<open>
  \<open>ngx_sort\<close> of \<open>src/src/core/ngx_string.c\<close>, the insertion sort on arrays that is used for lists of
  servers, locations and names, with the contract of its comparison function.
\<close>

section \<open>Model\<close>

text \<open>
  The inner loop: \<open>p\<close> is the element that is taken out of the array, \<open>j\<close> the index of the free
  place. The comparison returns a signed number.
\<close>

fun sort_shift :: "('a \<Rightarrow> 'a \<Rightarrow> ngx_int_t) \<Rightarrow> 'a list \<Rightarrow> 'a \<Rightarrow> nat \<Rightarrow> 'a list" where
  "sort_shift cmp base p 0 = base[0 := p]"
| "sort_shift cmp base p (Suc j) =
     (if 0 <s cmp (base ! j) p then sort_shift cmp (base[Suc j := base ! j]) p j
      else base[Suc j := p])"

text \<open>\<open>alloc\<close> says whether the room for one element can be allocated.\<close>

definition ngx_sort :: "bool \<Rightarrow> ('a \<Rightarrow> 'a \<Rightarrow> ngx_int_t) \<Rightarrow> 'a list \<Rightarrow> 'a list" where
  "ngx_sort alloc cmp base =
     (if alloc then fold (\<lambda>i b. sort_shift cmp b (b ! i) i) [1..<length base] base else base)"

section \<open>The comparison function\<close>

text \<open>A comparison is positive where the first argument has to stand behind the second.\<close>

locale comparison =
  fixes cmp :: "'a \<Rightarrow> 'a \<Rightarrow> ngx_int_t" and f :: "'a \<Rightarrow> 'k :: linorder"
  assumes cmp_pos: "0 <s cmp x y \<longleftrightarrow> f y < f x"
begin

text \<open>What the inner loop does to the sorted part: \<open>p\<close> is put behind the elements up to its key.\<close>

fun put :: "'a \<Rightarrow> 'a list \<Rightarrow> 'a list" where
  "put p [] = [p]"
| "put p (x # xs) = (if f p < f x then x # put p xs else p # x # xs)"

lemma set_put [simp]: "set (put p xs) = insert p (set xs)"
  by (induction xs) auto

lemma mset_put [simp]: "mset (put p xs) = add_mset p (mset xs)"
  by (induction xs) auto

lemma length_put [simp]: "length (put p xs) = Suc (length xs)"
  by (induction xs) auto

lemma sorted_put: "sorted (map f (rev xs)) \<Longrightarrow> sorted (map f (rev (put p xs)))"
  by (induction xs) (auto simp: sorted_append less_imp_le)

lemma filter_put: "sorted (map f (rev xs)) \<Longrightarrow>
    filter (\<lambda>x. k = f x) (put p xs) = (if k = f p then [p] else []) @ filter (\<lambda>x. k = f x) xs"
  by (induction xs) (auto simp: sorted_append filter_empty_conv)

lemma sort_shift_put:
  "sort_shift cmp (xs @ h # zs) p (length xs) = rev (put p (rev xs)) @ zs"
proof (induction xs arbitrary: h zs rule: rev_induct)
  case (snoc x xs)
  have "(xs @ x # h # zs) ! length xs = x" "(xs @ x # h # zs)[Suc (length xs) := x] = (xs @ x # x # zs)"
    "(xs @ x # h # zs)[Suc (length xs) := p] = (xs @ x # p # zs)"
    by (simp_all add: list_update_append)
  then show ?case using snoc.IH [of x "x # zs"] by (simp add: cmp_pos)
qed simp

lemma sort_fold:
  "i \<le> length base \<Longrightarrow> 0 < i \<Longrightarrow>
   sorted (map f (take i base)) \<Longrightarrow>
   (let s = fold (\<lambda>i b. sort_shift cmp b (b ! i) i) [i..<length base] base in
    mset s = mset base \<and> sorted (map f s) \<and> (\<forall>k. filter (\<lambda>x. k = f x) s = filter (\<lambda>x. k = f x) base))"
proof (induction "length base - i" arbitrary: i base)
  case (Suc n)
  then have i: "i < length base" by simp
  define xs h zs where "xs = take i base" and "h = base ! i" and "zs = drop (Suc i) base"
  have base: "base = xs @ h # zs" and len: "length xs = i"
    using i by (simp_all add: xs_def h_def zs_def id_take_nth_drop)
  define b where "b = sort_shift cmp base h i"
  have b: "b = rev (put h (rev xs)) @ zs"
    unfolding b_def base using sort_shift_put [of xs h zs h] len by simp
  have xs: "sorted (map f xs)" using Suc.prems(3) by (simp add: xs_def)
  have lb: "length b = length base" by (simp add: b base)
  have "take (Suc i) b = rev (put h (rev xs))"
    using len unfolding b by simp
  then have "sorted (map f (take (Suc i) b))" using sorted_put [of "rev xs" h] xs by simp
  from Suc.hyps(1) [OF _ _ _ this] have IH: "let s = fold (\<lambda>i b. sort_shift cmp b (b ! i) i) [Suc i..<length b] b in
      mset s = mset b \<and> sorted (map f s) \<and> (\<forall>k. filter (\<lambda>x. k = f x) s = filter (\<lambda>x. k = f x) b)"
    using Suc.hyps(2) i lb by simp
  have "mset b = mset base" by (simp add: b base)
  moreover have "filter (\<lambda>x. k = f x) b = filter (\<lambda>x. k = f x) base" for k
    using filter_put [of "rev xs" k h] xs by (simp add: b base rev_filter [symmetric])
  ultimately show ?case
    using IH i unfolding lb by (simp add: upt_conv_Cons Let_def b_def h_def)
qed (simp add: Let_def)

lemma sort_sort_key: "ngx_sort True cmp base = sort_key f base"
proof (cases "base = []")
  case False
  then have "1 \<le> length base" by (cases base) simp_all
  moreover have "sorted (map f (take 1 base))" by (cases base) simp_all
  ultimately have "let s = ngx_sort True cmp base in mset s = mset base \<and> sorted (map f s) \<and>
      (\<forall>k. filter (\<lambda>x. k = f x) s = filter (\<lambda>x. k = f x) base)"
    using sort_fold [of 1 base] by (simp add: ngx_sort_def del: upt_Suc)
  then show ?thesis
    unfolding Let_def by (intro properties_for_sort_key [symmetric]) simp_all
qed (simp add: ngx_sort_def)

lemma mset_sort: "mset (ngx_sort a cmp base) = mset base"
proof (cases a)
  case True
  then show ?thesis using sort_sort_key [of base] by simp
qed (simp add: ngx_sort_def)

end

end
