(* ===== verification/Ngx_Http_Upstream_RR.thy ===== *)
theory Ngx_Http_Upstream_RR
  imports Ngx_Sort "HOL-Library.Signed_Division"
begin

text \<open>
  The load balancer: \<open>src/src/http/ngx_http_upstream_round_robin.c\<close> and
  \<open>src/src/http/modules/ngx_http_upstream_ip_hash_module.c\<close>.
\<close>

section \<open>Model\<close>

subsection \<open>Signed arithmetic\<close>

text \<open>
  Values of type \<open>ngx_int_t\<close> and \<open>time_t\<close> are integers; an operation whose result does not fit into
  64 bits, and a division by zero, has no defined result.
\<close>

definition s64 :: "int \<Rightarrow> int option" where
  "s64 x = (if - (2 ^ 63) \<le> x \<and> x < 2 ^ 63 then Some x else None)"

definition s64_div :: "int \<Rightarrow> int \<Rightarrow> int option" where
  "s64_div x y = (if y = 0 then None else s64 (x sdiv y))"

text \<open>The ratio of two weights in thousandths, as the code computes it.\<close>

definition per_mille :: "int \<Rightarrow> int \<Rightarrow> int option" where
  "per_mille x y = do { x \<leftarrow> s64 (x * 1000); s64_div x y }"

definition at :: "'b list \<Rightarrow> nat \<Rightarrow> 'b option" where
  "at xs i = (if i < length xs then Some (xs ! i) else None)"

subsection \<open>State\<close>

text \<open>
  A peer; \<open>rr_sockaddr\<close> stands for the fields \<open>sockaddr\<close>, \<open>socklen\<close> and \<open>name\<close>, which the balancer
  only copies.
\<close>

record 'a rr_peer =
  rr_sockaddr :: 'a
  rr_current_weight :: int
  rr_weight :: int
  rr_fails :: ngx_uint_t
  rr_accessed :: int
  rr_max_fails :: ngx_uint_t
  rr_fail_timeout :: int
  rr_down :: bool

record ('a, 'c) rr_peers =
  rp_single :: bool
  rp_number :: ngx_uint_t
  rp_last_cached :: ngx_uint_t
  rp_cached :: "'c list"
  rp_name :: 'a
  rp_peer :: "'a rr_peer list"

text \<open>
  The groups of peers that are chained by \<open>next\<close> are a list, the pointer \<open>peers\<close> is the index of its
  group. \<open>tried\<close> is the list of words that are allocated for the bits.
\<close>

record rr_data =
  rd_peers :: nat
  rd_current :: ngx_uint_t
  rd_tried :: "64 word list"

record ('a, 'c) peer_connection =
  pc_connection :: "'c option"
  pc_cached :: bool
  pc_sockaddr :: "'a option"
  pc_name :: "'a option"
  pc_tries :: ngx_uint_t

datatype rr_rc = RR_OK | RR_BUSY | RR_ERROR

subsection \<open>The choice by weight\<close>

text \<open>
  The inner loop behind the first peer \<open>n\<close> with weight left: \<open>Inl n\<close> if it returns \<open>n\<close>, else the last
  \<open>n\<close> and \<open>i\<close>.
\<close>

function gp_while :: "'a rr_peer list \<Rightarrow> nat \<Rightarrow> nat \<Rightarrow> nat \<Rightarrow> (nat + nat \<times> nat) option" where
  "gp_while peer number n i =
     (if i < number - 1 then do {
        pi \<leftarrow> at peer (i + 1);
        if rr_current_weight pi \<le> 0 then gp_while peer number n (i + 1)
        else do {
          pn \<leftarrow> at peer n;
          current \<leftarrow> per_mille (rr_current_weight pn) (rr_current_weight pi);
          weight \<leftarrow> per_mille (rr_weight pn) (rr_weight pi);
          if weight < current then Some (Inl n) else gp_while peer number (i + 1) (i + 1) } }
      else Some (Inr (n, i)))"
  by pat_completeness auto

termination by (relation "measure (\<lambda>(peer, number, n, i). number - i)") auto

function gp_for :: "'a rr_peer list \<Rightarrow> nat \<Rightarrow> nat \<Rightarrow> nat option option" where
  "gp_for peer number i =
     (if i < number then do {
        pi \<leftarrow> at peer i;
        if rr_current_weight pi \<le> 0 then gp_for peer number (i + 1)
        else do {
          r \<leftarrow> gp_while peer number i i;
          case r of
            Inl n \<Rightarrow> Some (Some n)
          | Inr (n, i) \<Rightarrow> do {
              pi \<leftarrow> at peer i;
              Some (Some (if 0 < rr_current_weight pi then i else n)) } } }
      else Some None)"
  by pat_completeness auto

termination by (relation "measure (\<lambda>(peer, number, i). number - i)") auto

declare gp_while.simps [simp del] gp_for.simps [simp del]

definition gp_reset :: "'a rr_peer list \<Rightarrow> nat \<Rightarrow> 'a rr_peer list" where
  "gp_reset peer number =
     map (\<lambda>p. p\<lparr>rr_current_weight := rr_weight p\<rparr>) (take number peer) @ drop number peer"

definition ngx_http_upstream_get_peer :: "'a rr_peer list \<Rightarrow> nat \<Rightarrow> (nat \<times> 'a rr_peer list) option" where
  "ngx_http_upstream_get_peer peer number = do {
     r \<leftarrow> gp_for peer number 0;
     case r of
       Some n \<Rightarrow> Some (n, peer)
     | None \<Rightarrow> do {
         let peer = gp_reset peer number;
         r \<leftarrow> gp_for peer number 0;
         Some (case r of Some n \<Rightarrow> n | None \<Rightarrow> 0, peer) } }"

subsection \<open>The choice of a peer for a request\<close>

text \<open>What the loops change: the peers of the group, \<open>current\<close>, \<open>tried\<close> and \<open>tries\<close>.\<close>

record 'a rr_loop =
  lo_peer :: "'a rr_peer list"
  lo_current :: ngx_uint_t
  lo_tried :: "64 word list"
  lo_tries :: ngx_uint_t

definition tried_word :: "ngx_uint_t \<Rightarrow> nat" where
  "tried_word current = unat current div 64"

definition tried_bit :: "ngx_uint_t \<Rightarrow> 64 word" where
  "tried_bit current = push_bit (unat current mod 64) 1"

definition set_tried :: "'a rr_loop \<Rightarrow> 'a rr_loop" where
  "set_tried l =
     l\<lparr>lo_tried := (lo_tried l)[tried_word (lo_current l) :=
         lo_tried l ! tried_word (lo_current l) OR tried_bit (lo_current l)]\<rparr>"

text \<open>The test of a peer that both loops make: \<open>True\<close> where the code breaks out of the loop.\<close>

definition rr_test :: "int \<Rightarrow> 'a rr_loop \<Rightarrow> (bool \<times> 'a rr_loop) option" where
  "rr_test now l = do {
     w \<leftarrow> at (lo_tried l) (tried_word (lo_current l));
     if w AND tried_bit (lo_current l) \<noteq> 0 then Some (False, l)
     else do {
       peer \<leftarrow> at (lo_peer l) (unat (lo_current l));
       let put = (\<lambda>p. l\<lparr>lo_peer := (lo_peer l)[unat (lo_current l) := p]\<rparr>);
       if \<not> rr_down peer then
         if rr_max_fails peer = 0 \<or> rr_fails peer < rr_max_fails peer then Some (True, l)
         else do {
           since \<leftarrow> s64 (now - rr_accessed peer);
           if rr_fail_timeout peer < since then Some (True, put (peer\<lparr>rr_fails := 0\<rparr>))
           else Some (False, (put (peer\<lparr>rr_current_weight := 0\<rparr>))\<lparr>lo_tries := lo_tries l - 1\<rparr>) }
       else Some (False, (set_tried l)\<lparr>lo_tries := lo_tries l - 1\<rparr>) } }"

lemma count_down: "i \<noteq> 1 \<Longrightarrow> unat (i - 2) < unat (i - 1)" for i :: ngx_uint_t
proof -
  assume "i \<noteq> 1"
  then have "i - 1 \<noteq> 0" by simp
  then have "unat (i - 1 - 1) = unat (i - 1) - 1" by (rule unat_minus_one)
  moreover have "0 < unat (i - 1)" by (rule unat_gt_0 [THEN iffD2, OF \<open>i - 1 \<noteq> 0\<close>])
  ultimately have "unat (i - 1 - 1) < unat (i - 1)" by linarith
  then show ?thesis by simp
qed

text \<open>The loop of the first try: \<open>False\<close> where the code goes to \<open>failed\<close>.\<close>

function rr_first :: "int \<Rightarrow> nat \<Rightarrow> ngx_uint_t \<Rightarrow> 'a rr_loop \<Rightarrow> (bool \<times> 'a rr_loop) option" where
  "rr_first now number i l = do {
     (current, peer) \<leftarrow> ngx_http_upstream_get_peer (lo_peer l) number;
     (found, l) \<leftarrow> rr_test now (l\<lparr>lo_current := word_of_nat current, lo_peer := peer\<rparr>);
     if found then Some (True, l)
     else if lo_tries l = 0 then Some (False, l)
     else if i - 1 = 0 then Some (False, l)
     else rr_first now number (i - 1) l }"
  by pat_completeness auto

termination
  by (relation "measure (\<lambda>(now, number, i, l). unat (i - 1))") (auto simp: count_down)

text \<open>The loop of the further tries, from the current peer on.\<close>

function rr_next :: "int \<Rightarrow> ngx_uint_t \<Rightarrow> ngx_uint_t \<Rightarrow> 'a rr_loop \<Rightarrow> (bool \<times> 'a rr_loop) option" where
  "rr_next now number i l = do {
     (found, l) \<leftarrow> rr_test now l;
     if found then Some (True, l)
     else do {
       let l = l\<lparr>lo_current := (if number \<le> lo_current l + 1 then 0 else lo_current l + 1)\<rparr>;
       if lo_tries l = 0 then Some (False, l)
       else if i - 1 = 0 then Some (False, l)
       else rr_next now number (i - 1) l } }"
  by pat_completeness auto

termination
  by (relation "measure (\<lambda>(now, number, i, l). unat (i - 1))") (auto simp: count_down)

declare rr_first.simps [simp del] rr_next.simps [simp del]

definition rr_single :: "'a rr_loop \<Rightarrow> 'a option" where
  "rr_single l = map_option rr_sockaddr (at (lo_peer l) 0)"

text \<open>Behind a loop that has found a peer: its weight is used up by one and its bit is set.\<close>

definition rr_take :: "'a rr_loop \<Rightarrow> ('a \<times> 'a rr_loop) option" where
  "rr_take l = do {
     peer \<leftarrow> at (lo_peer l) (unat (lo_current l));
     weight \<leftarrow> s64 (rr_current_weight peer - 1);
     Some (rr_sockaddr peer,
       set_tried (l\<lparr>lo_peer := (lo_peer l)[unat (lo_current l) := peer\<lparr>rr_current_weight := weight\<rparr>]\<rparr>)) }"

text \<open>The loops \<open>for (i = 0; i < n; i++) rrp->tried[i] = 0\<close>: \<open>None\<close> if \<open>n\<close> words are not allocated.\<close>

definition clear_tried :: "nat \<Rightarrow> 64 word list \<Rightarrow> 64 word list option" where
  "clear_tried n tried = (if n \<le> length tried then Some (replicate n 0 @ drop n tried) else None)"

text \<open>All peers of the group are marked as live.\<close>

definition rr_revive :: "('a, 'c) rr_peers \<Rightarrow> ('a, 'c) rr_peers" where
  "rr_revive peers =
     peers\<lparr>rp_peer := map (\<lambda>p. p\<lparr>rr_fails := 0\<rparr>) (take (unat (rp_number peers)) (rp_peer peers)) @
       drop (unat (rp_number peers)) (rp_peer peers)\<rparr>"

text \<open>The choice of a peer from a group without cached connections.\<close>

definition rr_choose :: "int \<Rightarrow> ('a, 'c) rr_peers \<Rightarrow> 'a rr_loop \<Rightarrow> ('a option \<times> 'a rr_loop) option" where
  "rr_choose now peers l =
     (if rp_single peers then do { a \<leftarrow> rr_single l; Some (Some a, l) }
      else do {
        (found, l) \<leftarrow>
          (if lo_tries l = rp_number peers then rr_first now (unat (rp_number peers)) (lo_tries l) l
           else rr_next now (rp_number peers) (lo_tries l) l);
        if found then do { (a, l) \<leftarrow> rr_take l; Some (Some a, l) } else Some (None, l) })"

text \<open>
  \<open>ngx_http_upstream_get_round_robin_peer\<close>. \<open>now\<close> is \<open>ngx_time()\<close>; \<open>store\<close> is the list of the groups. The
  function calls itself for the next group.
\<close>

function ngx_http_upstream_get_round_robin_peer ::
  "int \<Rightarrow> ('a, 'c) rr_peers list \<Rightarrow> ('a, 'c) peer_connection \<Rightarrow> rr_data \<Rightarrow>
   (rr_rc \<times> ('a, 'c) rr_peers list \<times> ('a, 'c) peer_connection \<times> rr_data) option" where
  "ngx_http_upstream_get_round_robin_peer now store pc rrp = do {
     let k = rd_peers rrp;
     peers \<leftarrow> at store k;
     if rp_last_cached peers \<noteq> 0 then do {
       c \<leftarrow> at (rp_cached peers) (unat (rp_last_cached peers));
       Some (RR_OK, store[k := peers\<lparr>rp_last_cached := rp_last_cached peers - 1\<rparr>],
         pc\<lparr>pc_connection := Some c, pc_cached := True\<rparr>, rrp) }
     else do {
       let pc = pc\<lparr>pc_cached := False, pc_connection := None\<rparr>;
       (found, l) \<leftarrow> rr_choose now peers
         \<lparr>lo_peer = rp_peer peers, lo_current = rd_current rrp, lo_tried = rd_tried rrp, lo_tries = pc_tries pc\<rparr>;
       let store = store[k := peers\<lparr>rp_peer := lo_peer l\<rparr>];
       let rrp = rrp\<lparr>rd_current := lo_current l, rd_tried := lo_tried l\<rparr>;
       let pc = pc\<lparr>pc_tries := lo_tries l\<rparr>;
       case found of
         Some a \<Rightarrow> do {
           let pc = pc\<lparr>pc_sockaddr := Some a, pc_name := Some a\<rparr>;
           if pc_tries pc = 1 \<and> k + 1 < length store then do {
             next \<leftarrow> at store (k + 1);
             tried \<leftarrow> clear_tried (unat (rp_number next) div 64 + 1) (rd_tried rrp);
             Some (RR_OK, store, pc\<lparr>pc_tries := pc_tries pc + rp_number next\<rparr>, rrp\<lparr>rd_tried := tried\<rparr>) }
           else Some (RR_OK, store, pc, rrp) }
       | None \<Rightarrow> do {
           (rc, store, pc, rrp) \<leftarrow>
             (if k + 1 < length store then do {
                next \<leftarrow> at store (k + 1);
                tried \<leftarrow> clear_tried (unat (rp_number next) div 64 + 1) (rd_tried rrp);
                ngx_http_upstream_get_round_robin_peer now store (pc\<lparr>pc_tries := rp_number next\<rparr>)
                  (rrp\<lparr>rd_peers := k + 1, rd_tried := tried\<rparr>) }
              else Some (RR_BUSY, store, pc, rrp));
           if rc \<noteq> RR_BUSY then Some (rc, store, pc, rrp)
           else do {
             peers \<leftarrow> at store k;
             Some (RR_BUSY, store[k := rr_revive peers], pc\<lparr>pc_name := Some (rp_name peers)\<rparr>, rrp) } } } }"
  by pat_completeness auto

termination
  by (relation "measure (\<lambda>(now, store, pc, rrp). length store - rd_peers rrp)") auto

declare ngx_http_upstream_get_round_robin_peer.simps [simp del]

subsection \<open>The end of a try\<close>




subsection \<open>The set-up\<close>

text \<open>A server of the configuration; \<open>us_addrs\<close> are the addresses its name resolves to.\<close>

record 'a us_server =
  us_addrs :: "'a list"
  us_weight :: ngx_uint_t
  us_max_fails :: ngx_uint_t
  us_fail_timeout :: int
  us_down :: bool
  us_backup :: bool

record 'a us_conf =
  us_servers :: "'a us_server list option"
  us_host :: 'a
  us_port :: ngx_uint_t
  us_default_port :: ngx_uint_t

text \<open>The peers of the primary servers: a server that is down has no weight.\<close>

definition primary_peers :: "'a us_server list \<Rightarrow> 'a rr_peer list" where
  "primary_peers servers = concat (map (\<lambda>s. if us_backup s then [] else map (\<lambda>a.
     let weight = (if us_down s then 0 else sint (us_weight s)) in
     \<lparr>rr_sockaddr = a, rr_current_weight = weight, rr_weight = weight, rr_fails = 0, rr_accessed = 0,
      rr_max_fails = us_max_fails s, rr_fail_timeout = us_fail_timeout s, rr_down = us_down s\<rparr>)
     (us_addrs s)) servers)"

text \<open>The peers of the backup servers: here a server that is down keeps its weight.\<close>

definition backup_peers :: "'a us_server list \<Rightarrow> 'a rr_peer list" where
  "backup_peers servers = concat (map (\<lambda>s. if \<not> us_backup s then [] else map (\<lambda>a.
     \<lparr>rr_sockaddr = a, rr_current_weight = sint (us_weight s), rr_weight = sint (us_weight s),
      rr_fails = 0, rr_accessed = 0,
      rr_max_fails = us_max_fails s, rr_fail_timeout = us_fail_timeout s, rr_down = us_down s\<rparr>)
     (us_addrs s)) servers)"

definition ngx_http_upstream_cmp_servers :: "'a rr_peer \<Rightarrow> 'a rr_peer \<Rightarrow> ngx_int_t" where
  "ngx_http_upstream_cmp_servers first second = (if rr_weight first < rr_weight second then 1 else 0)"

text \<open>The peers of an upstream that has no block of its own.\<close>

definition implicit_peer :: "'a \<Rightarrow> 'a rr_peer" where
  "implicit_peer a =
     \<lparr>rr_sockaddr = a, rr_current_weight = 1, rr_weight = 1, rr_fails = 0, rr_accessed = 0,
      rr_max_fails = 1, rr_fail_timeout = 10, rr_down = False\<rparr>"

text \<open>
  \<open>alloc i\<close> says whether the allocation number \<open>i\<close> succeeds; \<open>resolve\<close> are the addresses that
  \<open>ngx_inet_resolve_host\<close> finds for the host, if it finds any.
\<close>

definition ngx_http_upstream_init_round_robin ::
  "(nat \<Rightarrow> bool) \<Rightarrow> 'a list option \<Rightarrow> 'a us_conf \<Rightarrow> rr_rc \<times> ('a, 'c) rr_peers list" where
  "ngx_http_upstream_init_round_robin alloc resolve us =
     (case us_servers us of
        Some servers \<Rightarrow>
          (let peer = primary_peers servers;
               peers = \<lparr>rp_single = (length peer = 1), rp_number = word_of_nat (length peer),
                 rp_last_cached = 0, rp_cached = [], rp_name = us_host us,
                 rp_peer = ngx_sort (alloc 1) ngx_http_upstream_cmp_servers peer\<rparr>;
               peer = backup_peers servers;
               backup = \<lparr>rp_single = False, rp_number = word_of_nat (length peer),
                 rp_last_cached = 0, rp_cached = [], rp_name = us_host us,
                 rp_peer = ngx_sort (alloc 3) ngx_http_upstream_cmp_servers peer\<rparr>
           in if \<not> alloc 0 then (RR_ERROR, [])
              else if peer = [] then (RR_OK, [peers])
              else if \<not> alloc 2 then (RR_ERROR, [peers])
              else (RR_OK, [peers\<lparr>rp_single := False\<rparr>, backup]))
      | None \<Rightarrow>
          if us_port us = 0 \<and> us_default_port us = 0 then (RR_ERROR, [])
          else (case resolve of
             None \<Rightarrow> (RR_ERROR, [])
           | Some addrs \<Rightarrow>
               if \<not> alloc 0 then (RR_ERROR, [])
               else (RR_OK, [\<lparr>rp_single = (length addrs = 1), rp_number = word_of_nat (length addrs),
                 rp_last_cached = 0, rp_cached = [], rp_name = us_host us,
                 rp_peer = map implicit_peer addrs\<rparr>])))"

text \<open>
  The set-up of a request: the words for the bits of the peers, and the number of tries. Up to 64
  bits are kept in the record itself.
\<close>

definition ngx_http_upstream_init_round_robin_peer ::
  "(nat \<Rightarrow> bool) \<Rightarrow> ('a, 'c) rr_peers list \<Rightarrow> (rr_rc \<times> (rr_data \<times> ngx_uint_t) option) option" where
  "ngx_http_upstream_init_round_robin_peer alloc store =
     (if \<not> alloc 0 then Some (RR_ERROR, None)
      else do {
        peers \<leftarrow> at store 0;
        let n = rp_number peers;
        let n = (if 1 < length store \<and> n < rp_number (store ! 1) then rp_number (store ! 1) else n);
        if n \<le> 64 then
          Some (RR_OK, Some (\<lparr>rd_peers = 0, rd_current = 0, rd_tried = [0]\<rparr>, rp_number peers))
        else if \<not> alloc 1 then Some (RR_ERROR, None)
        else Some (RR_OK, Some (\<lparr>rd_peers = 0, rd_current = 0,
          rd_tried = replicate (unat ((n + 63) div 64)) 0\<rparr>, rp_number peers)) })"

subsection \<open>The choice by address\<close>

record ip_hash_data =
  ih_rrp :: rr_data
  ih_hash :: ngx_uint_t
  ih_addr :: "u_char list"
  ih_tries :: u_char

text \<open>\<open>in_addr\<close> are the bytes of the client's address if it is an IPv4 address.\<close>

definition ngx_http_upstream_init_ip_hash_peer ::
  "(nat \<Rightarrow> bool) \<Rightarrow> ('a, 'c) rr_peers list \<Rightarrow> bytes option \<Rightarrow>
   (rr_rc \<times> (ip_hash_data \<times> ngx_uint_t) option) option" where
  "ngx_http_upstream_init_ip_hash_peer alloc store in_addr = do {
     (rc, r) \<leftarrow> ngx_http_upstream_init_round_robin_peer alloc store;
     case r of
       None \<Rightarrow> Some (RR_ERROR, None)
     | Some (rrp, tries) \<Rightarrow>
         Some (RR_OK, Some (\<lparr>ih_rrp = rrp, ih_hash = 89,
           ih_addr = (case in_addr of Some p \<Rightarrow> take 3 p | None \<Rightarrow> [0, 0, 0]), ih_tries = 0\<rparr>, tries)) }"

definition ip_hash_round :: "u_char list \<Rightarrow> ngx_uint_t \<Rightarrow> ngx_uint_t" where
  "ip_hash_round addr hash = fold (\<lambda>a hash. (hash * 113 + ucast a) mod 6271) addr hash"

text \<open>
  The loop: \<open>Some (Some (hash, l))\<close> where it breaks, with the peer in \<open>lo_current l\<close>, and \<open>Some None\<close>
  where the tries are used up; the counter of the tries is returned as well. A peer that fails the
  test is marked as tried here, and its weight is kept.
\<close>

definition ip_test :: "int \<Rightarrow> 'a rr_loop \<Rightarrow> (bool \<times> 'a rr_loop) option" where
  "ip_test now l = do {
     w \<leftarrow> at (lo_tried l) (tried_word (lo_current l));
     if w AND tried_bit (lo_current l) \<noteq> 0 then Some (False, l)
     else do {
       peer \<leftarrow> at (lo_peer l) (unat (lo_current l));
       if \<not> rr_down peer \<and> (rr_max_fails peer = 0 \<or> rr_fails peer < rr_max_fails peer) then Some (True, l)
       else do {
         late \<leftarrow> (if rr_down peer then Some False
                  else do { since \<leftarrow> s64 (now - rr_accessed peer); Some (rr_fail_timeout peer < since) });
         if late
         then Some (True, l\<lparr>lo_peer := (lo_peer l)[unat (lo_current l) := peer\<lparr>rr_fails := 0\<rparr>]\<rparr>)
         else Some (False, (set_tried l)\<lparr>lo_tries := lo_tries l - 1\<rparr>) } } }"

function ip_hash_loop ::
  "int \<Rightarrow> ngx_uint_t \<Rightarrow> u_char list \<Rightarrow> ngx_uint_t \<Rightarrow> u_char \<Rightarrow> 'a rr_loop \<Rightarrow>
   (bool \<times> ngx_uint_t \<times> u_char \<times> 'a rr_loop) option" where
  "ip_hash_loop now number addr hash tries l =
     (let hash = ip_hash_round addr hash in
      if number = 0 then None
      else do {
        let current = lo_current l;
        (found, l) \<leftarrow> ip_test now (l\<lparr>lo_current := hash mod number\<rparr>);
        if found then Some (True, hash, tries, l)
        else if 20 \<le> tries + 1 then Some (False, hash, tries + 1, l\<lparr>lo_current := current\<rparr>)
        else ip_hash_loop now number addr hash (tries + 1) (l\<lparr>lo_current := current\<rparr>) })"
  by pat_completeness auto

termination
proof (relation "measure (\<lambda>(now, number, addr, hash, tries, l). if tries = 255 then 257 else 256 - unat tries)", goal_cases)
  case (2 now number addr hash tries l)
  show ?case
  proof (cases "tries = 255")
    case False
    have "1 + tries \<noteq> 0"
    proof
      assume "1 + tries = 0"
      then have "tries = - 1" by (simp add: add_eq_0_iff)
      then show False using False by simp
    qed
    then have "unat (1 + tries) = Suc (unat tries)" by (rule unatSuc)
    then have "unat (tries + 1) = Suc (unat tries)" by (simp only: add.commute)
    moreover have "tries + 1 < 20" using 2 by (simp only: not_le)
    then have "unat (tries + 1) < 20" by (simp only: word_less_nat_alt unat_numeral) simp
    ultimately show ?thesis by auto
  qed simp
qed simp_all

declare ip_hash_loop.simps [simp del]

definition ngx_http_upstream_get_ip_hash_peer ::
  "int \<Rightarrow> ('a, 'c) rr_peers list \<Rightarrow> ('a, 'c) peer_connection \<Rightarrow> ip_hash_data \<Rightarrow>
   (rr_rc \<times> ('a, 'c) rr_peers list \<times> ('a, 'c) peer_connection \<times> ip_hash_data) option" where
  "ngx_http_upstream_get_ip_hash_peer now store pc iphp = do {
     let rrp = ih_rrp iphp;
     let k = rd_peers rrp;
     peers \<leftarrow> at store k;
     if 20 < ih_tries iphp \<or> rp_single peers then do {
       (rc, store, pc, rrp) \<leftarrow> ngx_http_upstream_get_round_robin_peer now store pc rrp;
       Some (rc, store, pc, iphp\<lparr>ih_rrp := rrp\<rparr>) }
     else do {
       let pc = pc\<lparr>pc_cached := False, pc_connection := None\<rparr>;
       (found, hash, tries, l) \<leftarrow> ip_hash_loop now (rp_number peers) (ih_addr iphp) (ih_hash iphp) (ih_tries iphp)
         \<lparr>lo_peer = rp_peer peers, lo_current = rd_current rrp, lo_tried = rd_tried rrp, lo_tries = pc_tries pc\<rparr>;
       let store = store[k := peers\<lparr>rp_peer := lo_peer l\<rparr>];
       let pc = pc\<lparr>pc_tries := lo_tries l\<rparr>;
       if found then do {
         peer \<leftarrow> at (lo_peer l) (unat (lo_current l));
         Some (RR_OK, store, pc\<lparr>pc_sockaddr := Some (rr_sockaddr peer), pc_name := Some (rr_sockaddr peer)\<rparr>,
           iphp\<lparr>ih_rrp := rrp\<lparr>rd_current := lo_current l, rd_tried := lo_tried (set_tried l)\<rparr>,
             ih_hash := hash, ih_tries := tries\<rparr>) }
       else do {
         (rc, store, pc, rrp) \<leftarrow> ngx_http_upstream_get_round_robin_peer now store pc
           (rrp\<lparr>rd_tried := lo_tried l\<rparr>);
         Some (rc, store, pc, iphp\<lparr>ih_rrp := rrp, ih_tries := tries\<rparr>) } } }"

section \<open>The choice by weight\<close>

text \<open>What holds of the weights of a peer at any time.\<close>

definition peer_ok :: "'a rr_peer \<Rightarrow> bool" where
  "peer_ok p \<longleftrightarrow> 0 \<le> rr_weight p \<and> rr_weight p < 2 ^ 53 \<and> rr_current_weight p \<le> rr_weight p"

lemma at_Some [simp]: "i < length xs \<Longrightarrow> at xs i = Some (xs ! i)"
  by (simp add: at_def)

lemma at_eq_Some: "at xs i = Some x \<longleftrightarrow> i < length xs \<and> xs ! i = x"
  by (simp add: at_def)

lemma sdiv_pos: "0 \<le> x \<Longrightarrow> 0 < y \<Longrightarrow> x sdiv y = x div y" for x y :: int
  by (cases "x = 0") (simp_all add: signed_divide_int_def)

lemma per_mille_Some:
  assumes "0 < x" "x < 2 ^ 53" "0 < y"
  shows "per_mille x y = Some (x * 1000 div y)"
proof -
  have "x * 1000 div y \<le> x * 1000" using assms zdiv_mono2 [of "x * 1000" 1 y] by simp
  moreover have "0 \<le> x * 1000 div y" using assms by (simp add: pos_imp_zdiv_nonneg_iff)
  ultimately show ?thesis using assms by (simp add: per_mille_def s64_def s64_div_def sdiv_pos)
qed

definition has_weight :: "'a rr_peer list \<Rightarrow> nat \<Rightarrow> bool" where
  "has_weight ps n \<longleftrightarrow> n < length ps \<and> 0 < rr_current_weight (ps ! n)"

lemma gp_while_spec:
  assumes "\<forall>p \<in> set ps. peer_ok p" "has_weight ps n" "n \<le> i" "i < length ps"
  shows "(\<exists>m. gp_while ps (length ps) n i = Some (Inl m) \<and> has_weight ps m) \<or>
    (\<exists>m j. gp_while ps (length ps) n i = Some (Inr (m, j)) \<and> has_weight ps m \<and> j < length ps)"
  using assms(2-)
proof (induction "length ps - i" arbitrary: n i rule: less_induct)
  case less
  show ?case
  proof (cases "i < length ps - 1")
    case True
    let ?pi = "ps ! Suc i" and ?pn = "ps ! n"
    have ok: "peer_ok ?pi" "peer_ok ?pn"
      using assms(1) True less.prems(1) by (simp_all add: has_weight_def)
    show ?thesis
    proof (cases "rr_current_weight ?pi \<le> 0")
      case skip: True
      then have "gp_while ps (length ps) n i = gp_while ps (length ps) n (Suc i)"
        using True by (subst gp_while.simps) simp
      then show ?thesis using less.hyps [of "Suc i" n] less.prems True by simp
    next
      case False
      then have pi: "has_weight ps (Suc i)" using True by (simp add: has_weight_def)
      have "per_mille (rr_current_weight ?pn) (rr_current_weight ?pi) \<noteq> None"
        "per_mille (rr_weight ?pn) (rr_weight ?pi) \<noteq> None"
        using ok False less.prems(1) by (simp_all add: per_mille_Some peer_ok_def has_weight_def)
      then obtain a b where "per_mille (rr_current_weight ?pn) (rr_current_weight ?pi) = Some a"
        "per_mille (rr_weight ?pn) (rr_weight ?pi) = Some b" by blast
      then have "gp_while ps (length ps) n i =
          (if b < a then Some (Inl n) else gp_while ps (length ps) (Suc i) (Suc i))"
        using True False less.prems(1) by (subst gp_while.simps) (simp add: has_weight_def)
      then show ?thesis using less.hyps [of "Suc i" "Suc i"] less.prems(1) True pi by simp
    qed
  next
    case False
    then have "gp_while ps (length ps) n i = Some (Inr (n, i))" by (subst gp_while.simps) simp
    then show ?thesis using less.prems by simp
  qed
qed

lemma gp_for_spec:
  assumes "\<forall>p \<in> set ps. peer_ok p" "\<forall>j < i. \<not> has_weight ps j"
  shows "(\<exists>n. gp_for ps (length ps) i = Some (Some n) \<and> has_weight ps n) \<or>
    gp_for ps (length ps) i = Some None \<and> (\<forall>n. \<not> has_weight ps n)"
  using assms(2)
proof (induction "length ps - i" arbitrary: i rule: less_induct)
  case less
  show ?case
  proof (cases "i < length ps")
    case True
    show ?thesis
    proof (cases "has_weight ps i")
      case False
      then have "gp_for ps (length ps) i = gp_for ps (length ps) (Suc i)"
        using True by (subst gp_for.simps) (simp add: has_weight_def)
      moreover have "\<forall>j < Suc i. \<not> has_weight ps j" using less.prems False by (simp add: less_Suc_eq)
      ultimately show ?thesis using less.hyps [of "Suc i"] True by simp
    next
      case pos: True
      then have "gp_for ps (length ps) i = do {
          r \<leftarrow> gp_while ps (length ps) i i;
          case r of Inl n \<Rightarrow> Some (Some n)
          | Inr (n, i) \<Rightarrow> do { pi \<leftarrow> at ps i; Some (Some (if 0 < rr_current_weight pi then i else n)) } }"
        using True by (subst gp_for.simps) (simp add: has_weight_def)
      then show ?thesis
        using gp_while_spec [OF assms(1) pos order.refl True] by (auto simp: has_weight_def)
    qed
  next
    case False
    then have "gp_for ps (length ps) i = Some None" by (subst gp_for.simps) simp
    moreover have "\<not> has_weight ps n" for n
      using False less.prems by (cases "n < i") (simp_all add: has_weight_def)
    ultimately show ?thesis by simp
  qed
qed

lemma gp_reset_all: "gp_reset ps (length ps) = map (\<lambda>p. p\<lparr>rr_current_weight := rr_weight p\<rparr>) ps"
  by (simp add: gp_reset_def)

text \<open>The peers the choice is made from: after a reset if no peer has weight left.\<close>

definition fresh_peers :: "'a rr_peer list \<Rightarrow> 'a rr_peer list" where
  "fresh_peers ps = (if \<exists>n. has_weight ps n then ps else gp_reset ps (length ps))"

lemma peer_ok_reset: "\<forall>p \<in> set ps. peer_ok p \<Longrightarrow> \<forall>p \<in> set (gp_reset ps (length ps)). peer_ok p"
  by (auto simp: gp_reset_all peer_ok_def)

lemma length_fresh [simp]: "length (fresh_peers ps) = length ps"
  by (simp add: fresh_peers_def gp_reset_all)

lemma peer_ok_fresh: "\<forall>p \<in> set ps. peer_ok p \<Longrightarrow> \<forall>p \<in> set (fresh_peers ps). peer_ok p"
  by (simp add: fresh_peers_def peer_ok_reset)

lemma get_peer_spec:
  assumes "\<forall>p \<in> set ps. peer_ok p" "ps \<noteq> []"
  shows "\<exists>n. ngx_http_upstream_get_peer ps (length ps) = Some (n, fresh_peers ps) \<and> n < length ps \<and>
    ((\<exists>m. has_weight (fresh_peers ps) m) \<longrightarrow> has_weight (fresh_peers ps) n)"
proof (cases "\<exists>n. has_weight ps n")
  case True
  then obtain n where "gp_for ps (length ps) 0 = Some (Some n)" "has_weight ps n"
    using gp_for_spec [OF assms(1), of 0] by auto
  then show ?thesis using True by (simp add: ngx_http_upstream_get_peer_def fresh_peers_def has_weight_def)
next
  case False
  let ?ps = "gp_reset ps (length ps)"
  have l: "length ?ps = length ps" by (simp add: gp_reset_all)
  have "gp_for ps (length ps) 0 = Some None" using gp_for_spec [OF assms(1), of 0] False by auto
  moreover have "(\<exists>n. gp_for ?ps (length ps) 0 = Some (Some n) \<and> has_weight ?ps n) \<or>
      gp_for ?ps (length ps) 0 = Some None \<and> (\<forall>n. \<not> has_weight ?ps n)"
    using gp_for_spec [OF peer_ok_reset [OF assms(1)], of 0] unfolding l by simp
  ultimately show ?thesis
    using False assms(2) l by (auto simp: ngx_http_upstream_get_peer_def fresh_peers_def has_weight_def Let_def)
qed

section \<open>Fairness\<close>

definition alive :: "'a rr_peer \<Rightarrow> bool" where
  "alive p \<longleftrightarrow> \<not> rr_down p \<and> (rr_max_fails p = 0 \<or> rr_fails p < rr_max_fails p)"

lemma tried_bit_nonzero: "tried_bit n \<noteq> 0"
proof -
  have "bit (tried_bit n) (unat n mod 64)" by (simp add: tried_bit_def bit_simps)
  then show ?thesis by auto
qed

lemma rr_test_alive:
  assumes "tried_word (lo_current l) < length (lo_tried l)" "lo_tried l ! tried_word (lo_current l) = 0"
    "unat (lo_current l) < length (lo_peer l)" "alive (lo_peer l ! unat (lo_current l))"
  shows "rr_test now l = Some (True, l)"
  using assms by (auto simp: rr_test_def alive_def)

text \<open>A request that finds all peers alive: it takes the peer that the weights choose.\<close>

definition rr_group :: "('a, 'c) rr_peers \<Rightarrow> bool" where
  "rr_group g \<longleftrightarrow> \<not> rp_single g \<and> rp_last_cached g = 0 \<and> rp_peer g \<noteq> [] \<and>
     length (rp_peer g) < 2 ^ 32 \<and> unat (rp_number g) = length (rp_peer g)"

definition rr_request :: "('a, 'c) peer_connection \<Rightarrow> int \<Rightarrow> ('a, 'c) rr_peers list \<Rightarrow>
    (rr_rc \<times> nat \<times> ('a, 'c) rr_peers list) option" where
  "rr_request pc now store = do {
     (rc, r) \<leftarrow> ngx_http_upstream_init_round_robin_peer (\<lambda>_. True) store;
     (rrp, tries) \<leftarrow> r;
     (rc, store, pc, rrp) \<leftarrow> ngx_http_upstream_get_round_robin_peer now store (pc\<lparr>pc_tries := tries\<rparr>) rrp;
     Some (rc, unat (rd_current rrp), store) }"

definition take_weight :: "nat \<Rightarrow> 'a rr_peer list \<Rightarrow> 'a rr_peer list" where
  "take_weight n ps = ps[n := (ps ! n)\<lparr>rr_current_weight := rr_current_weight (ps ! n) - 1\<rparr>]"

lemma rr_take_eq:
  assumes "unat (lo_current l) < length (lo_peer l)"
    "s64 (rr_current_weight (lo_peer l ! unat (lo_current l)) - 1) =
      Some (rr_current_weight (lo_peer l ! unat (lo_current l)) - 1)"
  shows "rr_take l = Some (rr_sockaddr (lo_peer l ! unat (lo_current l)),
    set_tried (l\<lparr>lo_peer := take_weight (unat (lo_current l)) (lo_peer l)\<rparr>))"
  using assms by (simp add: rr_take_def take_weight_def)

lemma unat_nat_32: "n < 2 ^ 32 \<Longrightarrow> unat (word_of_nat n :: ngx_uint_t) = n"
  by (simp add: unsigned_of_nat take_bit_nat_eq_self_iff)

lemma init_peer_single:
  assumes "unat (rp_number g) = length (rp_peer g)" "length (rp_peer g) < 2 ^ 32"
  shows "\<exists>tried. ngx_http_upstream_init_round_robin_peer (\<lambda>_. True) [g] =
      Some (RR_OK, Some (\<lparr>rd_peers = 0, rd_current = 0, rd_tried = tried\<rparr>, rp_number g)) \<and>
    (\<forall>w \<in> set tried. w = 0) \<and> length (rp_peer g) \<le> 64 * length tried"
proof (cases "rp_number g \<le> 64")
  case True
  then have "length (rp_peer g) \<le> 64" using assms(1) by (simp add: word_le_nat_alt)
  then show ?thesis using True by (simp add: ngx_http_upstream_init_round_robin_peer_def at_def)
next
  case False
  have "unat ((rp_number g + 63) div 64) = (length (rp_peer g) + 63) div 64"
    using assms by (simp add: unat_div unat_word_ariths)
  then show ?thesis using False by (auto simp: ngx_http_upstream_init_round_robin_peer_def at_def)
qed

lemma rr_request_alive:
  assumes g: "rr_group g" and ok: "\<forall>p \<in> set (rp_peer g). peer_ok p \<and> alive p"
    and w: "\<exists>n. has_weight (fresh_peers (rp_peer g)) n"
  shows "\<exists>n. rr_request pc now [g] = Some (RR_OK, n, [g\<lparr>rp_peer := take_weight n (fresh_peers (rp_peer g))\<rparr>]) \<and>
    has_weight (fresh_peers (rp_peer g)) n"
proof -
  let ?ps = "rp_peer g" and ?fs = "fresh_peers (rp_peer g)"
  obtain tried where init: "ngx_http_upstream_init_round_robin_peer (\<lambda>_. True) [g] =
      Some (RR_OK, Some (\<lparr>rd_peers = 0, rd_current = 0, rd_tried = tried\<rparr>, rp_number g))"
    and tried: "\<forall>w \<in> set tried. w = 0" "length ?ps \<le> 64 * length tried"
    using init_peer_single [of g] g by (auto simp: rr_group_def)
  obtain n where n: "ngx_http_upstream_get_peer ?ps (length ?ps) = Some (n, ?fs)" "n < length ?ps" "has_weight ?fs n"
    using get_peer_spec [of ?ps] ok g w by (auto simp: rr_group_def)
  have un: "unat (word_of_nat n :: ngx_uint_t) = n" using n(2) g by (intro unat_nat_32) (simp add: rr_group_def)
  have tw: "tried_word (word_of_nat n) < length tried" using n(2) tried(2) by (simp add: tried_word_def un)
  have fs: "\<forall>p \<in> set ?fs. alive p" using ok by (auto simp: fresh_peers_def gp_reset_all alive_def)
  define l where "l = \<lparr>lo_peer = ?fs, lo_current = word_of_nat n, lo_tried = tried, lo_tries = rp_number g\<rparr>"
  have test: "rr_test now l = Some (True, l)"
    using tw tried(1) fs n(2) un by (intro rr_test_alive) (simp_all add: l_def)
  have "rr_first now (length ?ps) (rp_number g)
      \<lparr>lo_peer = ?ps, lo_current = 0, lo_tried = tried, lo_tries = rp_number g\<rparr> = Some (True, l)"
    using n(1) test by (subst rr_first.simps) (simp add: l_def)
  moreover have lo: "lo_peer l = ?fs" "unat (lo_current l) = n" by (simp_all only: l_def rr_loop.simps un)
  have "\<forall>p \<in> set ?fs. peer_ok p" using ok by (intro peer_ok_fresh) simp
  then have "peer_ok (?fs ! n)" using n(2) by simp
  then have "s64 (rr_current_weight (?fs ! n) - 1) = Some (rr_current_weight (?fs ! n) - 1)"
    using n(3) unfolding has_weight_def peer_ok_def s64_def by auto
  then have "rr_take l = Some (rr_sockaddr (?fs ! n), set_tried (l\<lparr>lo_peer := take_weight n ?fs\<rparr>))"
    using rr_take_eq [of l] n(2) by (simp only: lo length_fresh)
  ultimately have "ngx_http_upstream_get_round_robin_peer now [g] (pc\<lparr>pc_tries := rp_number g\<rparr>)
      \<lparr>rd_peers = 0, rd_current = 0, rd_tried = tried\<rparr> \<bind>
      (\<lambda>(rc, store, pc, rrp). Some (rc, unat (rd_current rrp), store)) =
    Some (RR_OK, n, [g\<lparr>rp_peer := take_weight n ?fs\<rparr>])"
    using g un
    by (subst ngx_http_upstream_get_round_robin_peer.simps)
      (simp add: rr_group_def rr_choose_def Let_def set_tried_def l_def)
  then show ?thesis using n(3) by (auto simp: rr_request_def init)
qed

text \<open>The requests at the times \<open>nows\<close>, one after the other, with the peers they are sent to.\<close>

fun rr_serve :: "('a, 'c) peer_connection \<Rightarrow> int list \<Rightarrow> ('a, 'c) rr_peers list \<Rightarrow>
    (nat list \<times> ('a, 'c) rr_peers list) option" where
  "rr_serve pc [] store = Some ([], store)"
| "rr_serve pc (now # nows) store = do {
     (rc, n, store) \<leftarrow> rr_request pc now store;
     (ns, store) \<leftarrow> rr_serve pc nows store;
     if rc = RR_OK then Some (n # ns, store) else None }"

lemma rr_serve_append:
  "rr_serve pc (xs @ ys) store = do {
     (ns, store) \<leftarrow> rr_serve pc xs store;
     (ms, store) \<leftarrow> rr_serve pc ys store;
     Some (ns @ ms, store) }"
  by (induction xs arbitrary: store) (auto simp: split: bind_splits)

text \<open>The peers \<open>ps\<close> with the weights \<open>c\<close> left.\<close>

definition left_weights :: "'a rr_peer list \<Rightarrow> (nat \<Rightarrow> int) \<Rightarrow> 'a rr_peer list" where
  "left_weights ps c = map (\<lambda>i. (ps ! i)\<lparr>rr_current_weight := c i\<rparr>) [0..<length ps]"

definition peer_weight :: "'a rr_peer list \<Rightarrow> nat \<Rightarrow> int" where
  "peer_weight ps i = rr_weight (ps ! i)"

text \<open>The weights behind the reset, if there is one.\<close>

definition next_weights :: "'a rr_peer list \<Rightarrow> (nat \<Rightarrow> int) \<Rightarrow> nat \<Rightarrow> int" where
  "next_weights ps c = (if \<exists>i < length ps. 0 < c i then c else peer_weight ps)"

lemma length_left [simp]: "length (left_weights ps c) = length ps"
  by (simp add: left_weights_def)

lemma nth_left [simp]: "i < length ps \<Longrightarrow> left_weights ps c ! i = (ps ! i)\<lparr>rr_current_weight := c i\<rparr>"
  by (simp add: left_weights_def)

lemma has_weight_left: "has_weight (left_weights ps c) i \<longleftrightarrow> i < length ps \<and> 0 < c i"
  by (auto simp: has_weight_def)

lemma fresh_left: "fresh_peers (left_weights ps c) = left_weights ps (next_weights ps c)"
proof -
  have "gp_reset (left_weights ps c) (length (left_weights ps c)) = left_weights ps (peer_weight ps)"
    unfolding gp_reset_all by (rule nth_equalityI) (simp_all add: peer_weight_def)
  moreover have "(\<exists>n. has_weight (left_weights ps c) n) \<longleftrightarrow> (\<exists>i < length ps. 0 < c i)"
    by (auto simp: has_weight_left)
  ultimately show ?thesis unfolding fresh_peers_def next_weights_def
    by (cases "\<exists>i < length ps. 0 < c i") (simp_all only: if_True if_False simp_thms)
qed

lemma take_left: "n < length ps \<Longrightarrow> take_weight n (left_weights ps c) = left_weights ps (c(n := c n - 1))"
  by (rule nth_equalityI) (auto simp: take_weight_def nth_list_update)

lemma request_left:
  assumes g: "rr_group g" "\<forall>p \<in> set (rp_peer g). peer_ok p \<and> alive p"
    and w: "\<exists>i < length (rp_peer g). 0 < peer_weight (rp_peer g) i"
    and c: "\<forall>i < length (rp_peer g). c i \<le> peer_weight (rp_peer g) i"
  shows "\<exists>n < length (rp_peer g). 0 < next_weights (rp_peer g) c n \<and>
    rr_request pc now [g\<lparr>rp_peer := left_weights (rp_peer g) c\<rparr>] =
      Some (RR_OK, n, [g\<lparr>rp_peer := left_weights (rp_peer g)
        ((next_weights (rp_peer g) c)(n := next_weights (rp_peer g) c n - 1))\<rparr>])"
proof -
  let ?g = "g\<lparr>rp_peer := left_weights (rp_peer g) c\<rparr>" and ?c = "next_weights (rp_peer g) c"
  have "rr_group ?g" using g(1) by (simp add: rr_group_def left_weights_def)
  moreover have "\<forall>p \<in> set (rp_peer ?g). peer_ok p \<and> alive p"
  proof
    fix p assume "p \<in> set (rp_peer ?g)"
    then obtain i where i: "i < length (rp_peer g)" "p = (rp_peer g ! i)\<lparr>rr_current_weight := c i\<rparr>"
      by (auto simp: left_weights_def)
    then have "peer_ok (rp_peer g ! i)" "alive (rp_peer g ! i)" using g(2) by simp_all
    then show "peer_ok p \<and> alive p" using c i by (simp add: peer_ok_def alive_def peer_weight_def)
  qed
  moreover have "\<exists>i < length (rp_peer g). 0 < ?c i" using w by (auto simp: next_weights_def)
  then have "\<exists>n. has_weight (fresh_peers (rp_peer ?g)) n"
  proof -
    assume "\<exists>i < length (rp_peer g). 0 < ?c i"
    moreover have "rp_peer ?g = left_weights (rp_peer g) c" by simp
    ultimately show ?thesis by (simp only: fresh_left has_weight_left)
  qed
  ultimately obtain n where "rr_request pc now [?g] = Some (RR_OK, n,
      [?g\<lparr>rp_peer := take_weight n (fresh_peers (rp_peer ?g))\<rparr>])" "has_weight (fresh_peers (rp_peer ?g)) n"
    using rr_request_alive [of ?g pc now] by blast
  then show ?thesis by (auto simp: fresh_left has_weight_left take_left)
qed

lemma sum_upd:
  "finite A \<Longrightarrow> n \<in> A \<Longrightarrow> sum (c(n := c n - 1)) A = sum c A - (1 :: int)"
  by (simp add: sum.remove [of A n])

lemma serve_rest:
  assumes g: "rr_group g" "\<forall>p \<in> set (rp_peer g). peer_ok p \<and> alive p"
    and w: "\<exists>i < length (rp_peer g). 0 < peer_weight (rp_peer g) i"
  shows "\<forall>i < length (rp_peer g). 0 \<le> c i \<and> c i \<le> peer_weight (rp_peer g) i \<Longrightarrow>
    int (length nows) = sum (next_weights (rp_peer g) c) {..<length (rp_peer g)} \<Longrightarrow>
    \<exists>ns. rr_serve pc nows [g\<lparr>rp_peer := left_weights (rp_peer g) c\<rparr>] =
        Some (ns, [g\<lparr>rp_peer := left_weights (rp_peer g) (\<lambda>_. 0)\<rparr>]) \<and>
      set ns \<subseteq> {..<length (rp_peer g)} \<and>
      (\<forall>i < length (rp_peer g). int (count_list ns i) = next_weights (rp_peer g) c i)"
proof (induction nows arbitrary: c)
  case Nil
  let ?ps = "rp_peer g" and ?c = "next_weights (rp_peer g) c"
  have "0 \<le> ?c i" if "i < length ?ps" for i
    using that Nil(1) g(2) by (auto simp: next_weights_def peer_weight_def peer_ok_def)
  moreover have "\<exists>i < length ?ps. 0 < ?c i" using w by (auto simp: next_weights_def)
  ultimately have "0 < sum ?c {..<length ?ps}" by (auto intro: sum_pos2)
  then show ?case using Nil(2) by simp
next
  case (Cons now nows)
  let ?ps = "rp_peer g" and ?c = "next_weights (rp_peer g) c"
  obtain n where n: "n < length ?ps" "0 < ?c n"
    and req: "rr_request pc now [g\<lparr>rp_peer := left_weights ?ps c\<rparr>] =
      Some (RR_OK, n, [g\<lparr>rp_peer := left_weights ?ps (?c(n := ?c n - 1))\<rparr>])"
    using request_left [OF g w, of c pc now] Cons.prems(1) by blast
  define d where "d = ?c(n := ?c n - 1)"
  note req = req [folded d_def]
  have c: "0 \<le> ?c i \<and> ?c i \<le> peer_weight ?ps i" if "i < length ?ps" for i
    using that Cons.prems(1) g(2) by (auto simp: next_weights_def peer_weight_def peer_ok_def)
  then have d: "\<forall>i < length ?ps. 0 \<le> d i \<and> d i \<le> peer_weight ?ps i" using n(2) by (force simp: d_def)
  have sum: "sum d {..<length ?ps} = int (length nows)"
    using Cons.prems(2) sum_upd [of "{..<length ?ps}" n ?c] n(1) by (simp only: d_def) simp
  show ?case
  proof (cases "nows = []")
    case True
    then have "sum d {..<length ?ps} = 0" using sum by simp
    then have zero: "d i = 0" if "i < length ?ps" for i
      using d that sum_nonneg_eq_0_iff [of "{..<length ?ps}" d] by simp
    then have "left_weights ?ps d = left_weights ?ps (\<lambda>_. 0)" by (intro nth_equalityI) simp_all
    moreover have "?c i = (if i = n then 1 else 0)" if "i < length ?ps" for i
      using zero [OF that] by (auto simp: d_def split: if_splits)
    ultimately show ?thesis using True req n(1) by auto
  next
    case False
    then have "0 < sum d {..<length ?ps}" using sum by simp
    then have "\<exists>i < length ?ps. 0 < d i" by (metis lessThan_iff not_less sum_nonpos)
    then have nd: "next_weights ?ps d = d" by (simp add: next_weights_def)
    then obtain ns where "rr_serve pc nows [g\<lparr>rp_peer := left_weights ?ps d\<rparr>] =
        Some (ns, [g\<lparr>rp_peer := left_weights ?ps (\<lambda>_. 0)\<rparr>])" "set ns \<subseteq> {..<length ?ps}"
      "\<forall>i < length ?ps. int (count_list ns i) = d i"
      using Cons.IH [OF d] sum by auto
    moreover have "?c i = d i + (if i = n then 1 else 0)" for i by (simp add: d_def)
    ultimately show ?thesis using req n(1) by auto
  qed
qed

lemma serve_periods:
  assumes g: "rr_group g" "\<forall>p \<in> set (rp_peer g). peer_ok p \<and> alive p"
    and w: "\<exists>i < length (rp_peer g). 0 < peer_weight (rp_peer g) i"
  shows "next_weights (rp_peer g) c = peer_weight (rp_peer g) \<Longrightarrow>
    \<forall>i < length (rp_peer g). 0 \<le> c i \<and> c i \<le> peer_weight (rp_peer g) i \<Longrightarrow>
    int (length nows) = int m * sum (peer_weight (rp_peer g)) {..<length (rp_peer g)} \<Longrightarrow>
    \<exists>ns s. rr_serve pc nows [g\<lparr>rp_peer := left_weights (rp_peer g) c\<rparr>] = Some (ns, s) \<and>
      set ns \<subseteq> {..<length (rp_peer g)} \<and>
      (\<forall>i < length (rp_peer g). int (count_list ns i) = int m * peer_weight (rp_peer g) i)"
proof (induction m arbitrary: c nows)
  case (Suc m)
  let ?ps = "rp_peer g"
  define W where "W = nat (sum (peer_weight ?ps) {..<length ?ps})"
  have "0 \<le> sum (peer_weight ?ps) {..<length ?ps}"
    using g(2) by (intro sum_nonneg) (simp add: peer_weight_def peer_ok_def)
  then have W: "int W = sum (peer_weight ?ps) {..<length ?ps}" by (simp add: W_def)
  then have len: "int (length nows) = int W + int m * int W" using Suc.prems(3) by (simp add: algebra_simps)
  then have "W \<le> length nows" by (metis nat_int_comparison(3) of_nat_0_le_iff le_add_same_cancel1 of_nat_mult)
  then have "int (length (take W nows)) = int W" "int (length (drop W nows)) = int m * int W"
    using len by (simp_all add: of_nat_diff)
  then have take: "int (length (take W nows)) = sum (next_weights ?ps c) {..<length ?ps}"
    and drop: "int (length (drop W nows)) = int m * sum (peer_weight ?ps) {..<length ?ps}"
    using W Suc.prems(1) by simp_all
  obtain ns where ns: "rr_serve pc (take W nows) [g\<lparr>rp_peer := left_weights ?ps c\<rparr>] =
      Some (ns, [g\<lparr>rp_peer := left_weights ?ps (\<lambda>_. 0)\<rparr>])" "set ns \<subseteq> {..<length ?ps}"
    "\<forall>i < length ?ps. int (count_list ns i) = peer_weight ?ps i"
    using serve_rest [OF g w Suc.prems(2) take, where pc = pc] unfolding Suc.prems(1) by blast
  have "next_weights ?ps (\<lambda>_. 0) = peer_weight ?ps" by (simp add: next_weights_def)
  moreover have "\<forall>i < length ?ps. (0 :: int) \<le> 0 \<and> 0 \<le> peer_weight ?ps i"
    using g(2) by (simp add: peer_weight_def peer_ok_def)
  ultimately obtain ms s where ms: "rr_serve pc (drop W nows) [g\<lparr>rp_peer := left_weights ?ps (\<lambda>_. 0)\<rparr>] = Some (ms, s)"
    "set ms \<subseteq> {..<length ?ps}" "\<forall>i < length ?ps. int (count_list ms i) = int m * peer_weight ?ps i"
    using Suc.IH [OF _ _ drop] by blast
  then show ?case
    using ns rr_serve_append [of pc "take W nows" "drop W nows"] by (auto simp: count_list_append algebra_simps)
qed (simp add: count_list_0_iff)

text \<open>
  C8. The balancer is fair: while all peers are alive, the requests of any whole number of periods,
  a period being as many requests as the sum of the weights, go to each peer as often as its
  weight says, \<open>m\<close> times its weight in \<open>m\<close> periods; so no peer with a weight is starved.
\<close>

theorem ngx_http_upstream_round_robin_fair:
  assumes "rr_group g" "\<forall>p \<in> set (rp_peer g). peer_ok p \<and> alive p \<and> rr_current_weight p = rr_weight p"
    "\<exists>p \<in> set (rp_peer g). 0 < rr_weight p"
    "int (length nows) = int m * sum_list (map rr_weight (rp_peer g))"
  shows "\<exists>ns s. rr_serve pc nows [g] = Some (ns, s) \<and> set ns \<subseteq> {..<length (rp_peer g)} \<and>
    (\<forall>i < length (rp_peer g). int (count_list ns i) = int m * rr_weight (rp_peer g ! i))"
proof -
  let ?ps = "rp_peer g"
  have "left_weights ?ps (peer_weight ?ps) = ?ps"
    using assms(2) by (intro nth_equalityI) (simp_all add: peer_weight_def)
  then have "g\<lparr>rp_peer := left_weights ?ps (peer_weight ?ps)\<rparr> = g" by simp
  moreover have "\<exists>i < length ?ps. 0 < peer_weight ?ps i"
    using assms(3) by (auto simp: peer_weight_def in_set_conv_nth)
  moreover have "sum (peer_weight ?ps) {..<length ?ps} = sum_list (map rr_weight ?ps)"
    by (simp add: sum_list_sum_nth peer_weight_def atLeast0LessThan)
  ultimately show ?thesis
    using serve_periods [of g "peer_weight ?ps" nows m pc] assms
    by (simp add: next_weights_def peer_weight_def peer_ok_def)
qed

lemma all_less_two: "(\<forall>i < Suc (Suc 0). P i) \<longleftrightarrow> P 0 \<and> P 1"
  by (auto simp: less_Suc_eq)

theorem ngx_http_upstream_round_robin_fair_witness:
  "\<exists>ns s. rr_serve \<lparr>pc_connection = None, pc_cached = False, pc_sockaddr = None, pc_name = None, pc_tries = 0\<rparr>
     [10, 11, 12, 13, 14, 15]
     [\<lparr>rp_single = False, rp_number = 2, rp_last_cached = 0, rp_cached = ([] :: nat list), rp_name = 99,
       rp_peer = [implicit_peer (1 :: nat)\<lparr>rr_current_weight := 2, rr_weight := 2\<rparr>, implicit_peer 2]\<rparr>] = Some (ns, s) \<and>
     count_list ns 0 = 4 \<and> count_list ns 1 = 2"
  using ngx_http_upstream_round_robin_fair [where m = 2 and nows = "[10, 11, 12, 13, 14, 15]" and
      pc = "\<lparr>pc_connection = None, pc_cached = False, pc_sockaddr = None, pc_name = None, pc_tries = 0\<rparr>" and
      g = "\<lparr>rp_single = False, rp_number = 2, rp_last_cached = 0, rp_cached = ([] :: nat list), rp_name = 99,
       rp_peer = [implicit_peer (1 :: nat)\<lparr>rr_current_weight := 2, rr_weight := 2\<rparr>, implicit_peer 2]\<rparr>"]
  by (fastforce simp: rr_group_def peer_ok_def alive_def implicit_peer_def all_less_two)

section \<open>Well-formed groups\<close>





lemma length_set_tried [simp]: "length (lo_tried (set_tried l)) = length (lo_tried l)"
  "lo_peer (set_tried l) = lo_peer l" "lo_current (set_tried l) = lo_current l"
  by (simp_all add: set_tried_def)





























section \<open>Histories\<close>












section \<open>The set-up\<close>







section \<open>The choice by address\<close>

lemma ip_test_alive:
  assumes "tried_word (lo_current l) < length (lo_tried l)" "lo_tried l ! tried_word (lo_current l) = 0"
    "unat (lo_current l) < length (lo_peer l)" "alive (lo_peer l ! unat (lo_current l))"
  shows "ip_test now l = Some (True, l)"
  using assms by (auto simp: ip_test_def alive_def)

text \<open>The peer that belongs to an address.\<close>

definition ip_peer :: "u_char list \<Rightarrow> nat \<Rightarrow> nat" where
  "ip_peer addr n = unat (ip_hash_round addr 89) mod n"

text \<open>
  C38. The choice by address is sticky: while the peers are alive, all requests from the same /24
  network go to the same peer, the one its hash says, whatever the weights and failures are and
  whatever has been served before.
\<close>

theorem ngx_http_upstream_ip_hash_sticky:
  assumes "rr_group g" "\<forall>p \<in> set (rp_peer g). alive p"
    "ngx_http_upstream_init_ip_hash_peer (\<lambda>_. True) [g] in_addr = Some (RR_OK, Some (iphp, tries))"
  shows "\<exists>iphp' pc'. ngx_http_upstream_get_ip_hash_peer now [g] (pc\<lparr>pc_tries := tries\<rparr>) iphp =
      Some (RR_OK, [g], pc', iphp') \<and>
    pc_sockaddr pc' = Some (rr_sockaddr (rp_peer g !
      ip_peer (case in_addr of Some a \<Rightarrow> take 3 a | None \<Rightarrow> [0, 0, 0]) (length (rp_peer g))))"
proof -
  let ?n = "length (rp_peer g)" and ?addr = "case in_addr of Some a \<Rightarrow> take 3 a | None \<Rightarrow> [0, 0, 0]"
  have n: "unat (rp_number g) = ?n" "0 < ?n" "?n < 2 ^ 32" "\<not> rp_single g" using assms(1) by (simp_all add: rr_group_def)
  obtain tried where init: "ngx_http_upstream_init_round_robin_peer (\<lambda>_. True) [g] =
      Some (RR_OK, Some (\<lparr>rd_peers = 0, rd_current = 0, rd_tried = tried\<rparr>, rp_number g))"
    and tried: "\<forall>w \<in> set tried. w = 0" "?n \<le> 64 * length tried"
    using init_peer_single [OF n(1,3)] by blast
  have iphp: "iphp = \<lparr>ih_rrp = \<lparr>rd_peers = 0, rd_current = 0, rd_tried = tried\<rparr>, ih_hash = 89, ih_addr = ?addr,
      ih_tries = 0\<rparr>"
    using assms(3) init by (simp add: ngx_http_upstream_init_ip_hash_peer_def)
  define c where "c = ip_hash_round ?addr 89 mod rp_number g"
  have c: "unat c = ip_peer ?addr ?n" by (simp add: c_def ip_peer_def unat_mod n(1))
  then have less: "unat c < ?n" using n(2) by (simp add: ip_peer_def)
  then have tw: "tried_word c < length tried"
    using tried(2) unfolding tried_word_def by (simp add: less_mult_imp_div_less mult.commute)
  define l where "l = \<lparr>lo_peer = rp_peer g, lo_current = c, lo_tried = tried, lo_tries = tries\<rparr>"
  have "ip_test now l = Some (True, l)"
    using tw tried(1) assms(2) less by (intro ip_test_alive) (simp_all add: l_def)
  then have "ip_hash_loop now (rp_number g) ?addr 89 0 \<lparr>lo_peer = rp_peer g, lo_current = 0, lo_tried = tried, lo_tries = tries\<rparr> =
      Some (True, ip_hash_round ?addr 89, 0, l)"
    using n(1,2) by (subst ip_hash_loop.simps) (auto simp: Let_def c_def [symmetric] l_def)
  then show ?thesis
    using n(4) less c by (simp add: ngx_http_upstream_get_ip_hash_peer_def iphp Let_def l_def)
qed

section \<open>Witnesses and findings\<close>

definition demo_pc :: "(nat, nat) peer_connection" where
  "demo_pc = \<lparr>pc_connection = None, pc_cached = False, pc_sockaddr = None, pc_name = None, pc_tries = 0\<rparr>"

definition demo_group :: "nat rr_peer list \<Rightarrow> (nat, nat) rr_peers" where
  "demo_group ps = \<lparr>rp_single = False, rp_number = word_of_nat (length ps), rp_last_cached = 0, rp_cached = [],
     rp_name = 99, rp_peer = ps\<rparr>"






theorem ngx_http_upstream_ip_hash_sticky_witness:
  "\<exists>iphp' pc'. ngx_http_upstream_get_ip_hash_peer 100 [demo_group [implicit_peer 1, implicit_peer 2, implicit_peer 3]]
      (demo_pc\<lparr>pc_tries := 3\<rparr>) \<lparr>ih_rrp = \<lparr>rd_peers = 0, rd_current = 0, rd_tried = [0]\<rparr>, ih_hash = 89,
        ih_addr = [192, 168, 1], ih_tries = 0\<rparr> =
      Some (RR_OK, [demo_group [implicit_peer 1, implicit_peer 2, implicit_peer 3]], pc', iphp') \<and>
    pc_sockaddr pc' = Some 2"
proof -
  let ?g = "demo_group [implicit_peer 1, implicit_peer 2, implicit_peer 3]"
  have g: "rr_group ?g" "\<forall>p \<in> set (rp_peer ?g). alive p"
    by (simp_all add: rr_group_def demo_group_def alive_def implicit_peer_def)
  have init: "ngx_http_upstream_init_ip_hash_peer (\<lambda>_. True) [?g] (Some [192, 168, 1, 77]) =
      Some (RR_OK, Some (\<lparr>ih_rrp = \<lparr>rd_peers = 0, rd_current = 0, rd_tried = [0]\<rparr>, ih_hash = 89,
        ih_addr = [192, 168, 1], ih_tries = 0\<rparr>, 3))"
    by (simp add: ngx_http_upstream_init_ip_hash_peer_def ngx_http_upstream_init_round_robin_peer_def demo_group_def at_def)
  have "take 3 [192, 168, 1, 77 :: u_char] = [192, 168, 1]" "length (rp_peer ?g) = 3"
    by (simp_all add: demo_group_def)
  moreover have "rr_sockaddr (rp_peer ?g ! ip_peer [192, 168, 1] 3) = 2"
    by (simp add: ip_peer_def ip_hash_round_def demo_group_def implicit_peer_def)
  ultimately show ?thesis
    using ngx_http_upstream_ip_hash_sticky [OF g init, of 100 demo_pc] by (simp only: option.case)
qed

definition demo_server :: "nat \<Rightarrow> ngx_uint_t \<Rightarrow> bool \<Rightarrow> bool \<Rightarrow> nat us_server" where
  "demo_server a w down backup = \<lparr>us_addrs = [a], us_weight = w, us_max_fails = 1, us_fail_timeout = 10,
     us_down = down, us_backup = backup\<rparr>"

definition demo_store :: "nat us_server list \<Rightarrow> (nat, nat) rr_peers list" where
  "demo_store servers = snd (ngx_http_upstream_init_round_robin (\<lambda>_. True) None
     \<lparr>us_servers = Some servers, us_host = 99, us_port = 0, us_default_port = 0\<rparr>)"

definition busy_after :: "nat us_server list \<Rightarrow> (rr_rc \<times> rr_rc) option" where
  "busy_after servers = do {
     (rc, n, store) \<leftarrow> rr_request demo_pc 100 (demo_store servers);
     (rc', n, store) \<leftarrow> rr_request demo_pc 101 store;
     Some (rc, rc') }"

text \<open>
  A backup server that is marked as down keeps its weight: as soon as the weights of the others
  are used up it is the only choice, and no reset comes. Here the backup server 2 is up and idle,
  and the second request is refused.
\<close>

theorem ngx_http_upstream_backup_down_blocks:
  "busy_after [demo_server 0 1 True False, demo_server 1 5 True True, demo_server 2 1 False True] =
   Some (RR_OK, RR_BUSY)"
  by code_simp

text \<open>With 64 backup servers two words are cleared, but one is allocated.\<close>

theorem ngx_http_upstream_tried_overrun:
  "ngx_http_upstream_init_round_robin_peer (\<lambda>_. True) [demo_group [implicit_peer 1], demo_group (replicate 64 (implicit_peer 2))] =
     Some (RR_OK, Some (\<lparr>rd_peers = 0, rd_current = 0, rd_tried = [0]\<rparr>, 1))"
  "ngx_http_upstream_get_round_robin_peer 100 [demo_group [implicit_peer 1], demo_group (replicate 64 (implicit_peer 2))]
     (demo_pc\<lparr>pc_tries := 1\<rparr>) \<lparr>rd_peers = 0, rd_current = 0, rd_tried = [0]\<rparr> = None"
  by code_simp+

text \<open>With backup servers only the primary group is empty, and its first peer is read all the same.\<close>

theorem ngx_http_upstream_backups_only:
  "rr_request demo_pc 100 (demo_store [demo_server 1 1 False True]) = None"
  by code_simp

end
