(* ===== verification/Ngx_Queue.thy ===== *)
theory Ngx_Queue
  imports Ngx_Sort
begin

text \<open>
  The intrusive doubly linked queues of \<open>src/src/core/ngx_queue.h\<close> and
  \<open>src/src/core/ngx_queue.c\<close>: a ring of nodes through a sentinel. The links of all nodes form
  the memory, each operation updates it, and the refinement lemmas say which operation on lists
  it performs, for every way the nodes are placed.
\<close>

section \<open>Model\<close>

record 'p ngx_queue_t =
  q_prev :: 'p
  q_next :: 'p

type_synonym 'p links = "'p \<Rightarrow> 'p ngx_queue_t"

abbreviation set_prev :: "'p \<Rightarrow> 'p \<Rightarrow> 'p links \<Rightarrow> 'p links" where
  "set_prev q x m \<equiv> m(q := (m q)\<lparr>q_prev := x\<rparr>)"

abbreviation set_next :: "'p \<Rightarrow> 'p \<Rightarrow> 'p links \<Rightarrow> 'p links" where
  "set_next q x m \<equiv> m(q := (m q)\<lparr>q_next := x\<rparr>)"

subsection \<open>The macros\<close>

definition ngx_queue_init :: "'p \<Rightarrow> 'p links \<Rightarrow> 'p links" where
  "ngx_queue_init q m = set_next q q (set_prev q q m)"

definition ngx_queue_empty :: "'p \<Rightarrow> 'p links \<Rightarrow> bool" where
  "ngx_queue_empty h m \<longleftrightarrow> h = q_prev (m h)"

definition ngx_queue_insert_head :: "'p \<Rightarrow> 'p \<Rightarrow> 'p links \<Rightarrow> 'p links" where
  "ngx_queue_insert_head h x m =
     (let m = set_next x (q_next (m h)) m;
          m = set_prev (q_next (m x)) x m;
          m = set_prev x h m
      in set_next h x m)"

definition ngx_queue_insert_after :: "'p \<Rightarrow> 'p \<Rightarrow> 'p links \<Rightarrow> 'p links" where
  "ngx_queue_insert_after h x m = ngx_queue_insert_head h x m"

definition ngx_queue_insert_tail :: "'p \<Rightarrow> 'p \<Rightarrow> 'p links \<Rightarrow> 'p links" where
  "ngx_queue_insert_tail h x m =
     (let m = set_prev x (q_prev (m h)) m;
          m = set_next (q_prev (m x)) x m;
          m = set_next x h m
      in set_prev h x m)"

definition ngx_queue_head :: "'p \<Rightarrow> 'p links \<Rightarrow> 'p" where
  "ngx_queue_head h m = q_next (m h)"

definition ngx_queue_last :: "'p \<Rightarrow> 'p links \<Rightarrow> 'p" where
  "ngx_queue_last h m = q_prev (m h)"

definition ngx_queue_next :: "'p \<Rightarrow> 'p links \<Rightarrow> 'p" where
  "ngx_queue_next q m = q_next (m q)"

definition ngx_queue_prev :: "'p \<Rightarrow> 'p links \<Rightarrow> 'p" where
  "ngx_queue_prev q m = q_prev (m q)"

text \<open>\<open>NGX_DEBUG\<close> is not defined: the links of the removed node stay.\<close>

definition ngx_queue_remove :: "'p \<Rightarrow> 'p links \<Rightarrow> 'p links" where
  "ngx_queue_remove x m =
     (let m = set_prev (q_next (m x)) (q_prev (m x)) m
      in set_next (q_prev (m x)) (q_next (m x)) m)"

definition ngx_queue_split :: "'p \<Rightarrow> 'p \<Rightarrow> 'p \<Rightarrow> 'p links \<Rightarrow> 'p links" where
  "ngx_queue_split h q n m =
     (let m = set_prev n (q_prev (m h)) m;
          m = set_next (q_prev (m n)) n m;
          m = set_next n q m;
          m = set_prev h (q_prev (m q)) m;
          m = set_next (q_prev (m h)) h m
      in set_prev q n m)"

definition ngx_queue_add :: "'p \<Rightarrow> 'p \<Rightarrow> 'p links \<Rightarrow> 'p links" where
  "ngx_queue_add h n m =
     (let m = set_next (q_prev (m h)) (q_next (m n)) m;
          m = set_prev (q_next (m n)) (q_prev (m h)) m;
          m = set_prev h (q_prev (m n)) m
      in set_next (q_prev (m h)) h m)"

subsection \<open>The loops\<close>

text \<open>The loops follow links; on memory that is not a queue they may not end.\<close>

partial_function (option) middle_loop :: "'p links \<Rightarrow> 'p \<Rightarrow> 'p \<Rightarrow> 'p \<Rightarrow> 'p option" where
  "middle_loop m queue middle nxt =
     (let middle = ngx_queue_next middle m; nxt = ngx_queue_next nxt m in
      if nxt = ngx_queue_last queue m then Some middle
      else
        (let nxt = ngx_queue_next nxt m in
         if nxt = ngx_queue_last queue m then Some middle else middle_loop m queue middle nxt))"

definition ngx_queue_middle :: "'p links \<Rightarrow> 'p \<Rightarrow> 'p option" where
  "ngx_queue_middle m queue =
     (let middle = ngx_queue_head queue m in
      if middle = ngx_queue_last queue m then Some middle
      else middle_loop m queue middle (ngx_queue_head queue m))"

partial_function (option) sort_back ::
  "('p \<Rightarrow> 'p \<Rightarrow> ngx_int_t) \<Rightarrow> 'p links \<Rightarrow> 'p \<Rightarrow> 'p \<Rightarrow> 'p \<Rightarrow> 'p option" where
  "sort_back cmp m queue q prv =
     (if cmp prv q \<le>s 0 then Some prv
      else
        (let prv = ngx_queue_prev prv m in
         if prv \<noteq> queue then sort_back cmp m queue q prv else Some prv))"

partial_function (option) sort_loop ::
  "('p \<Rightarrow> 'p \<Rightarrow> ngx_int_t) \<Rightarrow> 'p links \<Rightarrow> 'p \<Rightarrow> 'p \<Rightarrow> 'p links option" where
  "sort_loop cmp m queue q =
     (if q = queue then Some m
      else
        (let prv = ngx_queue_prev q m;
             nxt = ngx_queue_next q m;
             m = ngx_queue_remove q m
         in do {
           prv \<leftarrow> sort_back cmp m queue q prv;
           sort_loop cmp (ngx_queue_insert_after prv q m) queue nxt }))"

definition ngx_queue_sort :: "('p \<Rightarrow> 'p \<Rightarrow> ngx_int_t) \<Rightarrow> 'p links \<Rightarrow> 'p \<Rightarrow> 'p links option" where
  "ngx_queue_sort cmp m queue =
     (let q = ngx_queue_head queue m in
      if q = ngx_queue_last queue m then Some m
      else sort_loop cmp m queue (ngx_queue_next q m))"

section \<open>Queues as lists\<close>

text \<open>Following a link function from \<open>a\<close> passes the nodes \<open>xs\<close> and arrives at \<open>b\<close>.\<close>

fun path :: "('p \<Rightarrow> 'p) \<Rightarrow> 'p \<Rightarrow> 'p list \<Rightarrow> 'p \<Rightarrow> bool" where
  "path f a [] b \<longleftrightarrow> f a = b"
| "path f a (x # xs) b \<longleftrightarrow> f a = x \<and> path f x xs b"

abbreviation nxt :: "'p links \<Rightarrow> 'p \<Rightarrow> 'p" where
  "nxt m \<equiv> \<lambda>z. q_next (m z)"

abbreviation prv :: "'p links \<Rightarrow> 'p \<Rightarrow> 'p" where
  "prv m \<equiv> \<lambda>z. q_prev (m z)"

text \<open>The ring of the sentinel \<open>h\<close> holds the nodes \<open>xs\<close>.\<close>

definition is_queue :: "'p links \<Rightarrow> 'p \<Rightarrow> 'p list \<Rightarrow> bool" where
  "is_queue m h xs \<longleftrightarrow> distinct (h # xs) \<and> path (nxt m) h xs h \<and> path (prv m) h (rev xs) h"

declare path.simps [simp del]

subsection \<open>Paths\<close>

lemma path_append: "path f a (xs @ y # ys) b \<longleftrightarrow> path f a xs y \<and> path f y ys b"
proof (induction xs arbitrary: a)
  case (Cons x xs)
  show ?case by (simp add: Cons.IH path.simps)
qed (simp add: path.simps)

lemma path_snoc: "path f a (xs @ [y]) b \<longleftrightarrow> path f a xs y \<and> f y = b"
  by (simp add: path_append path.simps)

lemma path_cong:
  assumes "\<And>z. z \<in> insert a (set xs) \<Longrightarrow> f' z = f z"
  shows "path f' a xs b \<longleftrightarrow> path f a xs b"
  using assms
proof (induction xs arbitrary: a)
  case (Cons x xs)
  have "path f' x xs b \<longleftrightarrow> path f x xs b"
    by (rule Cons.IH, rule Cons.prems, auto)
  then show ?case using Cons.prems [of a] by (simp add: path.simps)
qed (simp add: path.simps)

lemma path_first: "path f a xs b \<Longrightarrow> f a = hd (xs @ [b])"
  by (cases xs) (simp_all add: path.simps)

lemma path_last: "path f a xs b \<Longrightarrow> f (last (a # xs)) = b"
  by (cases xs rule: rev_cases) (simp_all add: path_snoc path.simps)

text \<open>A path from another node that leads to the same first node, and a path with another end.\<close>

lemma path_start:
  assumes "path f a xs b" and "f' a' = f a" and "\<And>z. z \<in> set xs \<Longrightarrow> f' z = f z"
  shows "path f' a' xs b"
proof (cases xs)
  case (Cons x ys)
  have "path f' x ys b \<longleftrightarrow> path f x ys b" by (rule path_cong) (simp add: assms(3) Cons)
  with assms(1,2) show ?thesis by (simp add: Cons path.simps)
qed (use assms in \<open>simp add: path.simps\<close>)

lemma path_end:
  assumes "path f a xs b" and "distinct (a # xs)"
    and "\<And>z. z \<in> set (a # xs) \<Longrightarrow> f' z = (if z = last (a # xs) then b' else f z)"
  shows "path f' a xs b'"
proof (cases xs rule: rev_cases)
  case (snoc ys y)
  have "f' z = f z" if "z \<in> insert a (set ys)" for z
    using assms(3) [of z] assms(2) that snoc by auto
  then have "path f' a ys y \<longleftrightarrow> path f a ys y" by (intro path_cong) simp
  with assms(1) assms(3) [of y] show ?thesis by (simp add: snoc path_snoc)
qed (use assms(3) [of a] in \<open>simp add: path.simps\<close>)

text \<open>Two stretches become one when the end of the first is led to the first node of the second.\<close>

lemma path_join:
  assumes "path f a xs x" and "path f y ys b" and "distinct (a # xs @ ys)"
    and "\<And>z. z \<in> set (a # xs @ ys) \<Longrightarrow> f' z = (if z = last (a # xs) then hd (ys @ [b]) else f z)"
  shows "path f' a (xs @ ys) b"
proof (cases ys)
  case Nil
  have "path f' a xs b"
    by (rule path_end [OF assms(1)]) (use assms(3) Nil in \<open>auto simp: assms(4)\<close>)
  then show ?thesis by (simp add: Nil)
next
  case (Cons z zs)
  have "path f' a xs z"
    by (rule path_end [OF assms(1)]) (use assms(3) Cons in \<open>auto simp: assms(4)\<close>)
  moreover have "f' w = f w" if "w \<in> set ys" for w
  proof -
    have "w \<noteq> last (a # xs)" using that assms(3) by (metis Cons_eq_appendI append_Cons
        disjoint_iff distinct_append last_in_set list.distinct(1))
    with assms(4) [of w] that show ?thesis by simp
  qed
  then have "path f' z zs b \<longleftrightarrow> path f z zs b" by (intro path_cong) (simp add: Cons)
  ultimately show ?thesis using assms(2) by (simp add: Cons path_append path.simps)
qed

lemma last_rev: "last (h # rev xs) = hd (xs @ [h])"
  by (cases xs) simp_all

lemma hd_rev_append: "hd (rev xs @ [h]) = last (h # xs)"
  by (cases xs rule: rev_cases) simp_all

subsection \<open>Reading a queue\<close>

lemma is_queue_init: "is_queue (ngx_queue_init h m) h []"
  by (simp add: is_queue_def ngx_queue_init_def path.simps)

lemma is_queue_head: "is_queue m h xs \<Longrightarrow> ngx_queue_head h m = hd (xs @ [h])"
  using path_first [of "nxt m" h xs h] by (simp add: is_queue_def ngx_queue_head_def)

lemma is_queue_last: "is_queue m h xs \<Longrightarrow> ngx_queue_last h m = last (h # xs)"
  using path_first [of "prv m" h "rev xs" h]
  by (simp add: is_queue_def ngx_queue_last_def hd_rev_append del: last.simps)

lemma is_queue_empty:
  assumes "is_queue m h xs"
  shows "ngx_queue_empty h m \<longleftrightarrow> xs = []"
proof -
  have "q_prev (m h) = last (h # xs)" "h \<notin> set xs"
    using is_queue_last [OF assms] assms by (simp_all add: is_queue_def ngx_queue_last_def)
  moreover have "xs \<noteq> [] \<Longrightarrow> last xs \<in> set xs" by simp
  ultimately show ?thesis by (auto simp only: ngx_queue_empty_def last.simps split: if_splits)
qed

lemma is_queue_mid:
  "is_queue m h (xs @ x # ys) \<longleftrightarrow> distinct (h # xs @ x # ys) \<and>
     path (nxt m) h xs x \<and> path (nxt m) x ys h \<and>
     path (prv m) h (rev ys) x \<and> path (prv m) x (rev xs) h"
  by (auto simp: is_queue_def path_append)

lemma is_queue_next:
  "is_queue m h (xs @ q # ys) \<Longrightarrow> ngx_queue_next q m = hd (ys @ [h])"
  using path_first [of "nxt m" q ys h] by (simp add: is_queue_mid ngx_queue_next_def)

lemma is_queue_prev:
  "is_queue m h (xs @ q # ys) \<Longrightarrow> ngx_queue_prev q m = last (h # xs)"
  using path_first [of "prv m" q "rev xs" h]
  by (simp add: is_queue_mid ngx_queue_prev_def hd_rev_append del: last.simps)

subsection \<open>Changing a queue\<close>

lemma is_queue_insert_head:
  assumes "is_queue m h xs" and "x \<notin> set (h # xs)"
  shows "is_queue (ngx_queue_insert_head h x m) h (x # xs)"
proof -
  let ?m = "ngx_queue_insert_head h x m"
  define y where "y = hd (xs @ [h])"
  have d: "distinct (x # h # xs)" and f: "path (nxt m) h xs h" "path (prv m) h (rev xs) h"
    and n: "q_next (m h) = y"
    using assms is_queue_head [OF assms(1)]
    by (auto simp: is_queue_def ngx_queue_head_def y_def)
  have y: "y \<noteq> x" "y = last (h # rev xs)" "y = h \<longleftrightarrow> xs = []"
    using d by (cases xs; auto simp: y_def)+
  have m: "q_next (?m z) = (if z = h then x else if z = x then y else q_next (m z))"
    "q_prev (?m z) = (if z = x then h else if z = y then x else q_prev (m z))" for z
    using d y(1) by (auto simp: ngx_queue_insert_head_def Let_def n)
  have "path (nxt ?m) x xs h"
    by (rule path_start [OF f(1)]) (use d in \<open>auto simp: m n\<close>)
  moreover have "path (prv ?m) h (rev xs) x"
    by (rule path_end [OF f(2)]) (use d y(2) in \<open>auto simp: m\<close>)
  ultimately show ?thesis using d by (auto simp: is_queue_def path.simps path_snoc m)
qed

lemma is_queue_insert_tail:
  assumes "is_queue m h xs" and "x \<notin> set (h # xs)"
  shows "is_queue (ngx_queue_insert_tail h x m) h (xs @ [x])"
proof -
  let ?m = "ngx_queue_insert_tail h x m"
  define y where "y = last (h # xs)"
  have d: "distinct (x # h # xs)" and f: "path (nxt m) h xs h" "path (prv m) h (rev xs) h"
    and n: "q_prev (m h) = y"
    using assms is_queue_last [OF assms(1)]
    by (auto simp: is_queue_def ngx_queue_last_def y_def)
  have y: "y \<noteq> x" using d by (auto simp: y_def)
  have m: "q_next (?m z) = (if z = x then h else if z = y then x else q_next (m z))"
    "q_prev (?m z) = (if z = h then x else if z = x then y else q_prev (m z))" for z
    using d y by (auto simp: ngx_queue_insert_tail_def Let_def n)
  have "path (nxt ?m) h xs x"
    by (rule path_end [OF f(1)]) (use d in \<open>auto simp: m y_def\<close>)
  moreover have "path (prv ?m) x (rev xs) h"
    by (rule path_start [OF f(2)]) (use d in \<open>auto simp: m n\<close>)
  ultimately show ?thesis using d by (auto simp: is_queue_def path.simps path_snoc m)
qed

text \<open>Insertion behind a node of the ring.\<close>

lemma is_queue_insert_after:
  assumes "is_queue m h (xs @ p # ys)" and "x \<notin> set (h # xs @ p # ys)"
  shows "is_queue (ngx_queue_insert_after p x m) h (xs @ p # x # ys)"
proof -
  let ?m = "ngx_queue_insert_after p x m"
  define y where "y = hd (ys @ [h])"
  have d: "distinct (x # h # xs @ p # ys)"
    and f: "path (nxt m) h xs p" "path (nxt m) p ys h" "path (prv m) h (rev ys) p" "path (prv m) p (rev xs) h"
    using assms by (auto simp: is_queue_mid)
  have n: "q_next (m p) = y" using path_first [OF f(2)] by (simp add: y_def)
  have y: "y \<noteq> x" "y \<noteq> p" "y \<notin> set xs" "y = last (h # rev ys)"
    using d by (cases ys; auto simp: y_def)+
  have m: "q_next (?m z) = (if z = p then x else if z = x then y else q_next (m z))"
    "q_prev (?m z) = (if z = x then p else if z = y then x else q_prev (m z))" for z
    using d y(1) by (auto simp: ngx_queue_insert_after_def ngx_queue_insert_head_def Let_def n)
  have "path (nxt ?m) h xs p \<longleftrightarrow> path (nxt m) h xs p"
    by (rule path_cong) (use d in \<open>auto simp: m\<close>)
  moreover have "path (nxt ?m) x ys h"
    by (rule path_start [OF f(2)]) (use d in \<open>auto simp: m n\<close>)
  moreover have "path (prv ?m) h (rev ys) x"
    by (rule path_end [OF f(3)]) (use d y(4) in \<open>auto simp: m\<close>)
  moreover have "path (prv ?m) p (rev xs) h \<longleftrightarrow> path (prv m) p (rev xs) h"
    by (rule path_cong) (use d y(2,3) in \<open>auto simp: m\<close>)
  ultimately show ?thesis using d f by (auto simp: is_queue_mid path.simps path_snoc m)
qed

lemma is_queue_remove:
  assumes "is_queue m h (xs @ x # ys)"
  shows "is_queue (ngx_queue_remove x m) h (xs @ ys)"
proof -
  let ?m = "ngx_queue_remove x m"
  define p y where "p = last (h # xs)" and "y = hd (ys @ [h])"
  have d: "distinct (h # xs @ x # ys)"
    and f: "path (nxt m) h xs x" "path (nxt m) x ys h" "path (prv m) h (rev ys) x" "path (prv m) x (rev xs) h"
    using assms by (auto simp: is_queue_mid)
  have n: "q_next (m x) = y" "q_prev (m x) = p"
    using path_first [OF f(2)] path_first [OF f(4)] by (simp_all add: y_def p_def hd_rev_append del: last.simps)
  have y: "y \<noteq> x" "p \<noteq> x" using d by (cases ys; auto simp: y_def p_def)+
  have m: "q_next (?m z) = (if z = p then y else q_next (m z))"
    "q_prev (?m z) = (if z = y then p else q_prev (m z))" for z
    using y by (auto simp: ngx_queue_remove_def Let_def n)
  have ends: "last (h # rev ys) = y" "hd (rev xs @ [h]) = p"
    by (simp_all add: p_def y_def last_rev hd_rev_append del: last.simps)
  have "path (nxt ?m) h (xs @ ys) h"
    by (rule path_join [OF f(1,2)]) (use d in \<open>auto simp: m simp del: last.simps simp flip: p_def y_def\<close>)
  moreover have "path (prv ?m) h (rev ys @ rev xs) h"
    by (rule path_join [OF f(3,4)]) (use d in \<open>auto simp: m ends simp del: last.simps\<close>)
  ultimately show ?thesis using d by (simp add: is_queue_def)
qed

text \<open>The links \<open>ngx_queue_split\<close> changes.\<close>

lemma links_split:
  assumes "q_prev (m h) = y" "q_prev (m q) = p"
    and "n \<noteq> h" "n \<noteq> q" "q \<noteq> h" "p \<noteq> n" "y \<noteq> n" "y \<noteq> h" "y \<noteq> p"
  shows "q_next (ngx_queue_split h q n m z) = (if z = n then q else if z = p then h
      else if z = y then n else q_next (m z))"
    and "q_prev (ngx_queue_split h q n m z) = (if z = n then y else if z = q then n
      else if z = h then p else q_prev (m z))"
proof -
  have "q = y \<Longrightarrow> q_prev (m y) = p" "h = p \<Longrightarrow> q_prev (m p) = y" using assms(1,2) by simp_all
  then show "q_next (ngx_queue_split h q n m z) = (if z = n then q else if z = p then h
      else if z = y then n else q_next (m z))"
    "q_prev (ngx_queue_split h q n m z) = (if z = n then y else if z = q then n
      else if z = h then p else q_prev (m z))"
    using assms(3-) by (cases "q = y"; auto simp: ngx_queue_split_def Let_def assms(1,2))+
qed
text \<open>
  \<open>ngx_queue_split\<close> cuts the ring before \<open>q\<close>; the nodes from \<open>q\<close> on go to the sentinel \<open>n\<close>.
\<close>

lemma is_queue_split:
  assumes "is_queue m h (xs @ q # ys)" and "n \<notin> set (h # xs @ q # ys)"
  shows "is_queue (ngx_queue_split h q n m) h xs" and "is_queue (ngx_queue_split h q n m) n (q # ys)"
proof -
  let ?m = "ngx_queue_split h q n m"
  define p y where "p = last (h # xs)" and "y = last (q # ys)"
  have d: "distinct (n # h # xs @ q # ys)"
    and f: "path (nxt m) h xs q" "path (nxt m) q ys h" "path (prv m) h (rev ys) q" "path (prv m) q (rev xs) h"
    using assms by (auto simp: is_queue_mid)
  have e: "q_prev (m h) = y" using is_queue_last [OF assms(1)] by (simp add: y_def ngx_queue_last_def)
  have e2: "q_prev (m q) = p"
    using path_first [OF f(4)] by (simp add: p_def hd_rev_append del: last.simps)
  have "y \<in> set (q # ys)" unfolding y_def by (rule last_in_set) simp
  moreover have "p \<in> set (h # xs)" unfolding p_def by (rule last_in_set) simp
  ultimately have n: "p \<noteq> n" "y \<noteq> n" "y \<noteq> h" "y \<noteq> p" "y \<notin> set xs" "p \<notin> set (q # ys)"
    using d by auto
  have "n \<noteq> h" "n \<noteq> q" "q \<noteq> h" using d by auto
  note m = links_split [OF e e2 this n(1-4)]
  have 1: "path (nxt ?m) h xs h"
    by (rule path_end [OF f(1)]) (use d n in \<open>auto simp: m p_def\<close>)
  have 2: "path (prv ?m) h (rev xs) h"
    by (rule path_start [OF f(4)]) (use d in \<open>auto simp: m e2\<close>)
  have 3: "path (nxt ?m) q ys n"
    by (rule path_end [OF f(2)]) (use d n in \<open>auto simp: m y_def\<close>)
  have "path (prv ?m) n (rev ys) q"
    by (rule path_start [OF f(3)]) (use d in \<open>auto simp: m e\<close>)
  moreover have "prv ?m q = n" "nxt ?m n = q" using d by (auto simp: m)
  ultimately show "is_queue ?m n (q # ys)"
    using d 3 by (simp add: is_queue_def path.simps path_snoc)
  show "is_queue ?m h xs" using d 1 2 by (simp add: is_queue_def)
qed

text \<open>\<open>ngx_queue_add\<close> appends the nodes of a queue that is not empty; its sentinel is left over.\<close>

lemma is_queue_add:
  assumes "is_queue m h xs" and "is_queue m n ys" and "ys \<noteq> []"
    and "set (h # xs) \<inter> set (n # ys) = {}"
  shows "is_queue (ngx_queue_add h n m) h (xs @ ys)"
proof -
  let ?m = "ngx_queue_add h n m"
  define p y l where "p = last (h # xs)" and "y = hd ys" and "l = last ys"
  have d: "distinct (h # n # xs @ ys)"
    and f: "path (nxt m) h xs h" "path (prv m) h (rev xs) h" "path (nxt m) n ys n" "path (prv m) n (rev ys) n"
    using assms by (auto simp: is_queue_def)
  have e: "q_prev (m h) = p" "q_next (m n) = y" "q_prev (m n) = l"
    using is_queue_last [OF assms(1)] is_queue_last [OF assms(2)] is_queue_head [OF assms(2)] assms(3)
    by (simp_all add: p_def y_def l_def ngx_queue_last_def ngx_queue_head_def del: last.simps) simp
  have e_h: "p = h \<Longrightarrow> q_prev (m p) = p" using e by simp
  have yl: "y \<in> set ys" "l \<in> set ys" using assms(3) by (simp_all add: y_def l_def)
  then have ne: "y \<noteq> h" "l \<noteq> h" "y \<noteq> n" "l \<noteq> n" "p \<noteq> n" "p \<notin> set ys" "y \<notin> set xs"
    using d by (auto simp: p_def split: if_splits dest: last_in_set)
  have m: "q_next (?m z) = (if z = l then h else if z = p then y else q_next (m z))"
    "q_prev (?m z) = (if z = h then l else if z = y then p else q_prev (m z))" for z
    using d ne e e_h by (auto simp: ngx_queue_add_def Let_def)
  have ends: "last (h # rev ys) = y" "hd (rev xs @ [h]) = p"
    using assms(3) by (simp_all add: p_def y_def last_rev hd_rev_append del: last.simps)
  have l: "l \<notin> set (h # xs)" "l \<noteq> p" using ne yl d by auto
  let ?f = "(nxt m)(l := h)" and ?g = "(prv m)(h := l, n := p)"
  have "path ?f h xs h \<longleftrightarrow> path (nxt m) h xs h"
    by (rule path_cong) (use l in auto)
  moreover have "path ?f n ys h"
    by (rule path_end [OF f(3)]) (use assms(3) ne d in \<open>auto simp: l_def\<close>)
  ultimately have "path (nxt ?m) h (xs @ ys) h"
    using f(1) by (intro path_join [of ?f h xs h n ys h])
      (use d l(2) assms(3) in \<open>auto simp: m simp del: last.simps simp flip: p_def y_def\<close>)
  moreover have "path ?g h (rev ys) n"
    by (rule path_start [OF f(4)]) (use d in \<open>auto simp: e\<close>)
  then have "path (prv ?m) h (rev ys @ rev xs) h"
    by (rule path_join [of ?g h "rev ys" n n "rev xs" h])
      (use d ne in \<open>auto simp: m e ends simp del: last.simps intro!: path_start [OF f(2)]\<close>)
  ultimately show ?thesis using d by (simp add: is_queue_def)
qed

subsection \<open>The loops\<close>

lemma is_queue_nth_next:
  assumes "is_queue m h xs" and "i < length xs"
  shows "ngx_queue_next (xs ! i) m = (xs @ [h]) ! Suc i"
proof -
  have "xs = take i xs @ xs ! i # drop (Suc i) xs" using assms(2) by (simp add: id_take_nth_drop)
  then have "ngx_queue_next (xs ! i) m = hd (drop (Suc i) xs @ [h])"
    using is_queue_next [of m h "take i xs" "xs ! i" "drop (Suc i) xs"] assms(1) by simp
  also have "drop (Suc i) xs @ [h] = drop (Suc i) (xs @ [h])" using assms(2) by simp
  finally show ?thesis using assms(2) by (simp add: hd_drop_conv_nth del: drop_append)
qed

lemma is_queue_nth_last:
  assumes "is_queue m h xs" and "i < length xs"
  shows "xs ! i = ngx_queue_last h m \<longleftrightarrow> Suc i = length xs"
proof -
  have "xs \<noteq> []" using assms(2) by auto
  then have "ngx_queue_last h m = xs ! (length xs - 1)"
    using is_queue_last [OF assms(1)] by (simp add: last_conv_nth)
  then show ?thesis using assms nth_eq_iff_index_eq [of xs i "length xs - 1"]
    by (auto simp: is_queue_def)
qed

lemma middle_loop_eq:
  assumes "is_queue m h xs" and "2 * i + 1 < length xs"
  shows "middle_loop m h (xs ! i) (xs ! (2 * i)) = Some (xs ! (length xs div 2))"
  using assms(2)
proof (induction "length xs - 2 * i" arbitrary: i rule: less_induct)
  case less
  have n: "ngx_queue_next (xs ! j) m = xs ! Suc j" if "Suc j < length xs" for j
    using is_queue_nth_next [OF assms(1), of j] that by (simp add: nth_append)
  note l = is_queue_nth_last [OF assms(1)]
  show ?case
  proof (cases "length xs = 2 * i + 2 \<or> length xs = 2 * i + 3")
    case True
    then have "length xs div 2 = Suc i" by auto
    with True show ?thesis
      by (subst middle_loop.simps) (auto simp: Let_def n l)
  next
    case False
    with less.prems have "middle_loop m h (xs ! i) (xs ! (2 * i)) =
        middle_loop m h (xs ! Suc i) (xs ! (2 * Suc i))"
      by (subst middle_loop.simps) (simp add: Let_def n l)
    with False less.hyps [of "Suc i"] less.prems show ?thesis by simp
  qed
qed

lemma is_queue_middle:
  assumes "is_queue m h xs"
  shows "ngx_queue_middle m h = Some ((xs @ [h]) ! (length xs div 2))"
proof (cases "length xs \<le> 1")
  case True
  then show ?thesis using is_queue_head [OF assms] is_queue_last [OF assms]
    by (cases xs) (auto simp: ngx_queue_middle_def)
next
  case False
  then have "ngx_queue_head h m = xs ! 0" "xs ! 0 \<noteq> ngx_queue_last h m"
    using is_queue_head [OF assms] is_queue_nth_last [OF assms, of 0] by (cases xs; simp)+
  then show ?thesis using middle_loop_eq [OF assms, of 0] False
    by (auto simp: ngx_queue_middle_def nth_append)
qed

text \<open>What the sort does to the list: each node is put behind the last node it may follow.\<close>

definition queue_put :: "('p \<Rightarrow> 'p \<Rightarrow> ngx_int_t) \<Rightarrow> 'p \<Rightarrow> 'p list \<Rightarrow> 'p list" where
  "queue_put cmp q ys =
     rev (dropWhile (\<lambda>x. \<not> cmp x q \<le>s 0) (rev ys)) @ q # rev (takeWhile (\<lambda>x. \<not> cmp x q \<le>s 0) (rev ys))"

definition queue_sort :: "('p \<Rightarrow> 'p \<Rightarrow> ngx_int_t) \<Rightarrow> 'p list \<Rightarrow> 'p list" where
  "queue_sort cmp xs = fold (queue_put cmp) xs []"

lemma mset_queue_put [simp]: "mset (queue_put cmp q ys) = add_mset q (mset ys)"
proof -
  let ?P = "\<lambda>x. \<not> cmp x q \<le>s 0"
  have "mset (takeWhile ?P (rev ys)) + mset (dropWhile ?P (rev ys)) = mset (rev ys)"
    by (metis mset_append takeWhile_dropWhile_id)
  then show ?thesis by (simp add: queue_put_def ac_simps)
qed

lemma mset_queue_sort [simp]: "mset (queue_sort cmp xs) = mset xs"
proof -
  have "mset (fold (queue_put cmp) xs ys) = mset xs + mset ys" for ys
    by (induction xs arbitrary: ys) auto
  then show ?thesis by (simp add: queue_sort_def)
qed

lemma set_queue_sort [simp]: "set (queue_sort cmp xs) = set xs"
  by (metis mset_queue_sort set_mset_mset)

lemma size_list_queue_sort [simp]: "size_list f (queue_sort cmp xs) = size_list f xs"
proof -
  have "sum_list (map f (queue_sort cmp xs)) = sum_list (map f xs)"
    by (metis mset_map mset_queue_sort sum_mset_sum_list)
  moreover have "length (queue_sort cmp xs) = length xs"
    by (metis mset_queue_sort size_mset)
  ultimately show ?thesis by (simp add: size_list_conv_sum_list)
qed

lemma sort_back_eq:
  assumes "is_queue m h (ys @ zs)" and "ys \<noteq> []"
  shows "sort_back cmp m h q (last ys) = Some (last (h # rev (dropWhile (\<lambda>x. \<not> cmp x q \<le>s 0) (rev ys))))"
  using assms
proof (induction ys arbitrary: zs rule: rev_induct)
  case (snoc y ys)
  have p: "ngx_queue_prev y m = last (h # ys)" and "h \<notin> set ys"
    using snoc.prems is_queue_prev [of m h ys y zs] by (simp_all add: is_queue_def)
  moreover have "ys \<noteq> [] \<Longrightarrow> last ys \<in> set ys" by simp
  ultimately show ?case
    using snoc.IH [of "y # zs"] snoc.prems(1)
    by (subst sort_back.simps) (auto simp: Let_def)
qed simp

lemma sort_loop_eq:
  assumes "is_queue m h (ys @ zs)" and "ys \<noteq> []"
  shows "\<exists>m'. sort_loop cmp m h (hd (zs @ [h])) = Some m' \<and> is_queue m' h (fold (queue_put cmp) zs ys)"
  using assms
proof (induction zs arbitrary: m ys)
  case Nil
  then show ?case by (subst sort_loop.simps) simp
next
  case (Cons q zs)
  let ?P = "\<lambda>x. \<not> cmp x q \<le>s 0"
  define as bs where "as = rev (dropWhile ?P (rev ys))" and "bs = rev (takeWhile ?P (rev ys))"
  have ys: "ys = as @ bs"
    unfolding as_def bs_def by (metis rev_append rev_rev_ident takeWhile_dropWhile_id)
  let ?m = "ngx_queue_remove q m"
  have m: "is_queue ?m h (ys @ zs)" by (rule is_queue_remove [OF Cons.prems(1)])
  have q: "q \<notin> set (h # as @ bs @ zs)" using Cons.prems(1) by (auto simp: is_queue_def ys)
  have "is_queue (ngx_queue_insert_after (last (h # as)) q ?m) h (as @ q # bs @ zs)"
  proof (cases as rule: rev_cases)
    case Nil
    then show ?thesis using is_queue_insert_head [OF m] q
      by (simp add: ys ngx_queue_insert_after_def)
  next
    case (snoc as' p)
    then show ?thesis using is_queue_insert_after [of ?m h as' p "bs @ zs" q] m q by (simp add: ys)
  qed
  moreover have "queue_put cmp q ys = as @ q # bs"
    by (simp add: queue_put_def as_def bs_def)
  ultimately have "is_queue (ngx_queue_insert_after (last (h # as)) q ?m) h (queue_put cmp q ys @ zs)"
    by simp
  moreover have "queue_put cmp q ys \<noteq> []" by (simp add: queue_put_def)
  ultimately obtain m' where m':
    "sort_loop cmp (ngx_queue_insert_after (last (h # as)) q ?m) h (hd (zs @ [h])) = Some m'"
    "is_queue m' h (fold (queue_put cmp) zs (queue_put cmp q ys))"
    using Cons.IH by blast
  have "q \<noteq> h" using q by simp
  moreover have "ngx_queue_prev q m = last ys" "ngx_queue_next q m = hd (zs @ [h])"
    using is_queue_prev [OF Cons.prems(1)] is_queue_next [OF Cons.prems(1)] Cons.prems(2) by simp_all
  moreover have "sort_back cmp ?m h q (last ys) = Some (last (h # as))"
    using sort_back_eq [OF m Cons.prems(2)] by (simp add: as_def)
  ultimately have "sort_loop cmp m h q = Some m'"
    using m'(1) by (subst sort_loop.simps) (simp add: Let_def del: last.simps)
  with m'(2) show ?case by simp
qed

lemma is_queue_sort:
  assumes "is_queue m h xs"
  shows "\<exists>m'. ngx_queue_sort cmp m h = Some m' \<and> is_queue m' h (queue_sort cmp xs)"
proof (cases "length xs \<le> 1")
  case True
  then show ?thesis using assms is_queue_head [OF assms] is_queue_last [OF assms]
    by (cases xs) (auto simp: ngx_queue_sort_def queue_sort_def queue_put_def)
next
  case False
  then obtain x y zs where xs: "xs = x # y # zs" by (metis One_nat_def Suc_le_mono length_Cons
      le_zero_eq list.exhaust list.size(3) not_less_eq_eq zero_le)
  have "x \<noteq> ngx_queue_last h m"
    using is_queue_nth_last [OF assms, of 0] by (simp add: xs)
  moreover have "ngx_queue_head h m = x" using is_queue_head [OF assms] by (simp add: xs)
  moreover have "ngx_queue_next x m = y" using is_queue_nth_next [OF assms, of 0] by (simp add: xs)
  ultimately show ?thesis
    using sort_loop_eq [of m h "[x]" "y # zs" cmp] assms
    by (simp add: ngx_queue_sort_def queue_sort_def xs) (simp add: queue_put_def)
qed

section \<open>Sorting\<close>

context comparison begin

lemma queue_put_put:
  assumes "sorted (map f ys)"
  shows "queue_put cmp q ys = rev (put q (rev ys))"
proof -
  have P: "\<not> cmp x q \<le>s 0 \<longleftrightarrow> f q < f x" for x
    using cmp_pos [of x q] by (simp add: signed.not_le)
  have "put q zs = takeWhile (\<lambda>x. f q < f x) zs @ q # dropWhile (\<lambda>x. f q < f x) zs" for zs
    by (induction zs) auto
  then show ?thesis by (simp add: queue_put_def P)
qed

lemma queue_sort_sort_key: "queue_sort cmp xs = sort_key f xs"
proof -
  have "mset (fold (queue_put cmp) zs ys) = mset (ys @ zs) \<and> sorted (map f (fold (queue_put cmp) zs ys)) \<and>
      (\<forall>k. filter (\<lambda>x. k = f x) (fold (queue_put cmp) zs ys) = filter (\<lambda>x. k = f x) (ys @ zs))"
    if "sorted (map f ys)" for ys zs
    using that
  proof (induction zs arbitrary: ys)
    case (Cons z zs)
    have s: "sorted (map f (rev (put z (rev ys))))" using sorted_put [of "rev ys"] Cons.prems by simp
    have "filter (\<lambda>x. k = f x) (rev (put z (rev ys))) = filter (\<lambda>x. k = f x) (ys @ [z])" for k
      using filter_put [of "rev ys" k z] Cons.prems by (simp add: rev_filter [symmetric])
    with Cons.IH [OF s] Cons.prems show ?case by (simp add: queue_put_put)
  qed simp
  from this [of "[]" xs] show ?thesis
    unfolding queue_sort_def by (intro properties_for_sort_key [symmetric]) auto
qed

end

text \<open>
  C9. \<open>ngx_queue_sort\<close> on a queue of any nodes ends, and relinks them into the stable sort of the
  queue, for every comparison function that is positive exactly where the first node has to stand
  behind the second.
\<close>

theorem ngx_queue_sort_stable:
  fixes f :: "'p \<Rightarrow> 'k :: linorder"
  assumes "is_queue m h xs" and "\<And>x y. 0 <s cmp x y \<longleftrightarrow> f y < f x"
  shows "\<exists>m'. ngx_queue_sort cmp m h = Some m' \<and> is_queue m' h (sort_key f xs)"
  using is_queue_sort [OF assms(1), of cmp] comparison.queue_sort_sort_key [of cmp f xs] assms(2)
  by (simp add: comparison_def)

text \<open>Five nodes with keys; the nodes 2 and 5 have the same key and keep their order.\<close>

definition ring :: "nat list \<Rightarrow> nat links" where
  "ring ns = (\<lambda>q. \<lparr>q_prev = ns ! ((q + length ns - 1) mod length ns), q_next = ns ! ((q + 1) mod length ns)\<rparr>)"

theorem ngx_queue_sort_stable_witness:
  "\<exists>m'. ngx_queue_sort (\<lambda>x y. if y mod 3 < x mod 3 then 1 else 0) (ring [0..<6]) 0 = Some m' \<and>
     is_queue m' 0 [3, 1, 4, 2, 5 :: nat]"
proof -
  have "is_queue (ring [0..<6]) 0 [1, 2, 3, 4, 5 :: nat]"
    by (simp add: is_queue_def path.simps ring_def upt_rec)
  moreover have "sort_key (\<lambda>x. x mod 3) [1, 2, 3, 4, 5 :: nat] = [3, 1, 4, 2, 5]"
    by (simp add: insort_key.simps)
  moreover have "0 <s (if y mod 3 < x mod 3 then 1 else 0 :: ngx_int_t) \<longleftrightarrow> y mod 3 < x mod 3" for x y :: nat
    by (simp add: word_sless_alt)
  ultimately show ?thesis
    using ngx_queue_sort_stable [of "ring [0..<6]" 0 "[1, 2, 3, 4, 5]"
        "\<lambda>x y. if y mod 3 < x mod 3 then 1 else 0" "\<lambda>x :: nat. x mod 3"]
    by simp
qed

text \<open>
  C39. \<open>ngx_queue_split\<close> before a node and \<open>ngx_queue_add\<close> of the cut off part give back the queue;
  in between, the two rings hold the two parts. \<open>ngx_queue_middle\<close> finds the node at the half of the
  length, rounded down, and the sentinel on an empty queue.
\<close>

theorem ngx_queue_split_add:
  assumes "is_queue m h (xs @ q # ys)" and "n \<notin> set (h # xs @ q # ys)"
  shows "(let m' = ngx_queue_split h q n m in
      is_queue m' h xs \<and> is_queue m' n (q # ys) \<and>
      is_queue (ngx_queue_add h n m') h (xs @ q # ys)) \<and>
    ngx_queue_middle m h = Some ((xs @ q # ys @ [h]) ! (length (xs @ q # ys) div 2))"
proof -
  have d: "distinct (n # h # xs @ q # ys)" using assms by (simp add: is_queue_def)
  note s = is_queue_split [OF assms]
  have "is_queue (ngx_queue_add h n (ngx_queue_split h q n m)) h (xs @ q # ys)"
    by (rule is_queue_add [OF s]) (use d in auto)
  then show ?thesis using s is_queue_middle [OF assms(1)] by (simp add: Let_def)
qed

theorem ngx_queue_split_add_witness:
  "is_queue (ngx_queue_split 0 3 9 (ring [0..<6])) 0 [1, 2 :: nat] \<and>
   is_queue (ngx_queue_split 0 3 9 (ring [0..<6])) 9 [3, 4, 5 :: nat] \<and>
   ngx_queue_middle (ring [0..<6]) 0 = Some 3"
proof -
  have "is_queue (ring [0..<6]) 0 ([1, 2] @ 3 # [4, 5 :: nat])"
    by (simp add: is_queue_def path.simps ring_def upt_rec)
  from ngx_queue_split_add [OF this, of 9] show ?thesis by (simp add: Let_def)
qed

end
