(* ===== verification/Ngx_Http_Locations.thy ===== *)
theory Ngx_Http_Locations
  imports Ngx_Queue Ngx_String_Search "HOL-Library.List_Lexorder" "HOL-Library.Product_Lexorder"
begin

text \<open>
  How nginx finds the configuration of a request: the locations of a server, and the locations
  nested in them, are queued in the order of the configuration file
  (\<open>ngx_http_add_location\<close>), sorted, split by kind, joined and put into trees
  (\<open>ngx_http_init_locations\<close>, \<open>ngx_http_init_static_location_trees\<close> of
  \<open>src/src/http/ngx_http.c\<close>); a request walks the trees and the lists of regular expressions
  (\<open>ngx_http_core_find_location\<close> of \<open>src/src/http/ngx_http_core_module.c\<close>).

  A queue is the list of its elements, which \<open>Ngx_Queue\<close> justifies. Regular expressions are a
  parameter: \<open>exec\<close> is \<open>ngx_http_regex_exec\<close>.
\<close>

section \<open>Model\<close>

subsection \<open>Data\<close>

text \<open>
  The fields of \<open>ngx_http_core_loc_conf_t\<close> that select a location; \<open>lc_conf\<close> is \<open>loc_conf\<close>, the
  configurations of all modules. \<open>ngx_http_location_queue_t\<close> is a queue element,
  \<open>ngx_http_location_tree_node_t\<close> a node of a tree, \<open>No_node\<close> the null pointer. The arrays of
  pointers to regular expression locations end with a null pointer.
\<close>

datatype ('re, 'c) clcf = Clcf
    (lc_conf: 'c) (lc_name: bytes) (lc_noname: bool) (lc_named: bool) (lc_exact_match: bool)
    (lc_noregex: bool) (lc_auto_redirect: bool) (lc_regex: "'re option")
    (lc_locations: "('re, 'c) location_queue list option")
    (lc_static_locations: "('re, 'c) location_tree")
    (lc_regex_locations: "('re, 'c) clcf option list option")
and ('re, 'c) location_queue = Location_queue
    (lq_exact: "('re, 'c) clcf option") (lq_inclusive: "('re, 'c) clcf option") (lq_name: bytes)
    (lq_list: "('re, 'c) location_queue list")
and ('re, 'c) location_tree =
    No_node
  | Tree_node "('re, 'c) location_tree" "('re, 'c) location_tree" "('re, 'c) location_tree"
      "('re, 'c) clcf option" "('re, 'c) clcf option" bool u_char bytes

fun set_locations :: "('re, 'c) location_queue list \<Rightarrow> ('re, 'c) clcf \<Rightarrow> ('re, 'c) clcf" where
  "set_locations ls (Clcf conf nm nn nd em nr ar re _ st rl) = Clcf conf nm nn nd em nr ar re (Some ls) st rl"

fun set_static_locations :: "('re, 'c) location_tree \<Rightarrow> ('re, 'c) clcf \<Rightarrow> ('re, 'c) clcf" where
  "set_static_locations t (Clcf conf nm nn nd em nr ar re ls _ rl) = Clcf conf nm nn nd em nr ar re ls t rl"

fun set_regex_locations :: "('re, 'c) clcf option list \<Rightarrow> ('re, 'c) clcf \<Rightarrow> ('re, 'c) clcf" where
  "set_regex_locations cs (Clcf conf nm nn nd em nr ar re ls st _) = Clcf conf nm nn nd em nr ar re ls st (Some cs)"

text \<open>\<open>lq->exact ? lq->exact : lq->inclusive\<close>, and the update of the structure it points to.\<close>

definition lq_clcf :: "('re, 'c) location_queue \<Rightarrow> ('re, 'c) clcf option" where
  "lq_clcf lq = (if lq_exact lq \<noteq> None then lq_exact lq else lq_inclusive lq)"

fun lq_update :: "('re, 'c) clcf \<Rightarrow> ('re, 'c) location_queue \<Rightarrow> ('re, 'c) location_queue" where
  "lq_update c (Location_queue (Some _) inc nm ls) = Location_queue (Some c) inc nm ls"
| "lq_update c (Location_queue None (Some _) nm ls) = Location_queue None (Some c) nm ls"
| "lq_update c (Location_queue None None nm ls) = Location_queue None None nm ls"

subsection \<open>Queueing the locations\<close>

text \<open>
  \<open>palloc n\<close> says whether \<open>n\<close> bytes can be allocated; a queue element has 72 bytes. The result is
  \<open>*locations\<close>, \<open>None\<close> is \<open>NGX_ERROR\<close>.
\<close>

definition ngx_http_add_location ::
  "(nat \<Rightarrow> bool) \<Rightarrow> ('re, 'c) location_queue list option \<Rightarrow> ('re, 'c) clcf \<Rightarrow>
   ('re, 'c) location_queue list option" where
  "ngx_http_add_location palloc locations clcf = do {
     locations \<leftarrow> (case locations of None \<Rightarrow> if palloc 72 then Some [] else None | Some ls \<Rightarrow> Some ls);
     if \<not> palloc 72 then None
     else
       (let lq = (if lc_exact_match clcf \<or> lc_regex clcf \<noteq> None \<or> lc_named clcf \<or> lc_noname clcf
                  then Location_queue (Some clcf) None (lc_name clcf) []
                  else Location_queue None (Some clcf) (lc_name clcf) [])
        in Some (locations @ [lq])) }"

text \<open>
  \<open>strcmp\<close> on two strings without their terminating zeros, which are compared as well.
\<close>

fun ngx_strcmp :: "bytes \<Rightarrow> bytes \<Rightarrow> ngx_int_t" where
  "ngx_strcmp [] [] = 0"
| "ngx_strcmp [] (b # bs) = 0 - ucast b"
| "ngx_strcmp (a # as) [] = ucast a"
| "ngx_strcmp (a # as) (b # bs) =
     (if a \<noteq> b then ucast a - ucast b else if a = 0 then 0 else ngx_strcmp as bs)"

definition cmp_clcf :: "('re, 'c) clcf \<Rightarrow> ('re, 'c) clcf \<Rightarrow> ngx_int_t" where
  "cmp_clcf a b =
     (if lc_noname a \<and> \<not> lc_noname b then 1
      else if \<not> lc_noname a \<and> lc_noname b then - 1
      else if lc_noname a \<or> lc_noname b then 0
      else if lc_named a \<and> \<not> lc_named b then 1
      else if \<not> lc_named a \<and> lc_named b then - 1
      else if lc_named a \<and> lc_named b then ngx_strcmp (lc_name a) (lc_name b)
      else if lc_regex a \<noteq> None \<and> lc_regex b = None then 1
      else if lc_regex a = None \<and> lc_regex b \<noteq> None then - 1
      else if lc_regex a \<noteq> None \<or> lc_regex b \<noteq> None then 0
      else
        (let rc = ngx_strcmp (lc_name a) (lc_name b) in
         if rc = 0 \<and> \<not> lc_exact_match a \<and> lc_exact_match b then 1 else rc))"

text \<open>An element without a configuration does not occur; a null pointer stands in front.\<close>

definition ngx_http_cmp_locations :: "('re, 'c) location_queue \<Rightarrow> ('re, 'c) location_queue \<Rightarrow> ngx_int_t" where
  "ngx_http_cmp_locations one two =
     (case (lq_clcf one, lq_clcf two) of
        (Some a, Some b) \<Rightarrow> cmp_clcf a b | (Some _, None) \<Rightarrow> 1 | _ \<Rightarrow> 0)"

subsection \<open>Splitting them by kind\<close>

lemma size_lq_clcf: "lq_clcf q = Some c \<Longrightarrow> size c < size q"
  by (cases q) (auto simp: lq_clcf_def split: if_splits option.splits)

lemma size_lc_locations: "lc_locations c = Some ls \<Longrightarrow> size_list size ls < size c"
  by (cases c) auto

text \<open>
  \<open>init_loop\<close> is the loop over the sorted queue:
  it returns the queue with the nested locations initialised, the index where it stopped, the index
  of the first named location and their number, and the same for regular expressions. \<open>cscf\<close> says
  whether the pointer to the server is given; the second result is \<open>cscf->named_locations\<close>, when it
  is set.
\<close>

function (sequential) ngx_http_init_locations ::
    "(nat \<Rightarrow> bool) \<Rightarrow> bool \<Rightarrow> ('re, 'c) clcf \<Rightarrow> (('re, 'c) clcf \<times> ('re, 'c) clcf option list option) outcome"
  and init_loop ::
    "(nat \<Rightarrow> bool) \<Rightarrow> ('re, 'c) location_queue list \<Rightarrow> nat \<Rightarrow> nat option \<Rightarrow> nat \<Rightarrow> nat option \<Rightarrow> nat \<Rightarrow>
     (('re, 'c) location_queue list \<times> nat \<times> nat option \<times> nat \<times> nat option \<times> nat) outcome"
where
  "ngx_http_init_locations palloc cscf pclcf =
     (case lc_locations pclcf of
        None \<Rightarrow> Done (pclcf, None)
      | Some locations \<Rightarrow>
          and_then (init_loop palloc (queue_sort ngx_http_cmp_locations locations) 0 None 0 None 0)
            (\<lambda>(locations, q, named, n, regex, r).
               let locations = take q locations in
               if named \<noteq> None \<and> \<not> palloc ((n + 1) * 8) then Failed
               else if named \<noteq> None \<and> \<not> cscf then Undefined
               else
                 (let (named_locations, locations) =
                    (case named of
                       None \<Rightarrow> (None, locations)
                     | Some i \<Rightarrow> (Some (map lq_exact (drop i locations) @ [None]), take i locations))
                  in
                  (case regex of
                     None \<Rightarrow> Done (set_locations locations pclcf, named_locations)
                   | Some i \<Rightarrow>
                       if \<not> palloc ((r + 1) * 8) then Failed
                       else
                         Done (set_locations (take i locations)
                                (set_regex_locations (map lq_exact (drop i locations) @ [None]) pclcf),
                              named_locations)))))"
| "init_loop palloc [] i named n regex r = Done ([], i, named, n, regex, r)"
| "init_loop palloc (lq # qs) i named n regex r =
     (case lq_clcf lq of
        None \<Rightarrow> Undefined
      | Some clcf \<Rightarrow>
          and_then (ngx_http_init_locations palloc False clcf) (\<lambda>(clcf', _).
            let lq = lq_update clcf' lq;
                next_lq = (\<lambda>named n regex r.
                  and_then (init_loop palloc qs (i + 1) named n regex r) (\<lambda>(qs, res). Done (lq # qs, res)))
            in
            if lc_regex clcf \<noteq> None then next_lq named n (if regex = None then Some i else regex) (r + 1)
            else if lc_named clcf then next_lq (if named = None then Some i else named) (n + 1) regex r
            else if lc_noname clcf then Done (lq # qs, i, named, n, regex, r)
            else next_lq named n regex r))"
  by pat_completeness auto
termination
  by (relation "measure (\<lambda>x. case x of Inl (_, _, c) \<Rightarrow> size c | Inr (_, qs, _) \<Rightarrow> size_list size qs)")
    (auto dest: size_lc_locations size_lq_clcf)

subsection \<open>The trees of static locations\<close>

function ngx_http_join_exact_locations ::
  "('re, 'c) location_queue list \<Rightarrow> ('re, 'c) location_queue list option" where
  "ngx_http_join_exact_locations [] = Some []"
| "ngx_http_join_exact_locations [lq] = Some [lq]"
| "ngx_http_join_exact_locations (lq # lx # ls) =
     (if ngx_strcmp (lq_name lq) (lq_name lx) = 0 then
        (if lq_exact lq \<noteq> None \<and> lq_exact lx \<noteq> None \<or> lq_inclusive lq \<noteq> None \<and> lq_inclusive lx \<noteq> None
         then None
         else ngx_http_join_exact_locations
                (Location_queue (lq_exact lq) (lq_inclusive lx) (lq_name lq) (lq_list lq) # ls))
      else map_option (Cons lq) (ngx_http_join_exact_locations (lx # ls)))"
  by pat_completeness auto
termination by (relation "measure length") simp_all

text \<open>
  The condition under which the loop of \<open>ngx_http_create_locations_list\<close> goes on; the first test
  keeps the reads of \<open>ngx_strncmp\<close> inside the names.
\<close>

definition in_location :: "('re, 'c) location_queue \<Rightarrow> ('re, 'c) location_queue \<Rightarrow> bool" where
  "in_location lq lx \<longleftrightarrow>
     (let len = length (lq_name lq) in
      \<not> (len > length (lq_name lx) \<or>
         ngx_strncmp (lq_name lq @ [0]) 0 (lq_name lx @ [0]) 0 len \<noteq> Some 0))"

lemma size_list_takeWhile: "size_list f (takeWhile P xs) \<le> size_list f xs"
  by (induction xs) auto

lemma size_list_dropWhile: "size_list f (dropWhile P xs) \<le> size_list f xs"
  by (induction xs) auto

text \<open>The queue from the element \<open>q\<close> on.\<close>

function ngx_http_create_locations_list ::
  "('re, 'c) location_queue list \<Rightarrow> ('re, 'c) location_queue list" where
  "ngx_http_create_locations_list [] = []"
| "ngx_http_create_locations_list [lq] = [lq]"
| "ngx_http_create_locations_list (lq # lx # ls) =
     (if lq_inclusive lq = None then lq # ngx_http_create_locations_list (lx # ls)
      else
        (let inside = takeWhile (in_location lq) (lx # ls);
             outside = dropWhile (in_location lq) (lx # ls) in
         if inside = [] then lq # ngx_http_create_locations_list outside
         else
           (let lq' = Location_queue (lq_exact lq) (lq_inclusive lq) (lq_name lq)
              (ngx_http_create_locations_list (lq_list lq @ inside)) in
            if outside = [] then [lq'] else lq' # ngx_http_create_locations_list outside)))"
  by pat_completeness auto
termination
proof (relation "measure (size_list size)", goal_cases)
  case (4 lq lx ls inside outside)
  then have "size_list size inside \<le> size_list size (lx # ls)" by (simp only: size_list_takeWhile)
  then show ?case by (cases lq) simp
qed (auto simp: less_Suc_eq_le add.assoc intro: trans_le_add2 size_list_dropWhile le_SucI)

lemma size_list_split:
  assumes "i < length xs"
  shows "size_list f xs = size_list f (take i xs) + Suc (f (xs ! i)) + size_list f (drop (Suc i) xs)"
proof -
  have "xs = take i xs @ xs ! i # drop (Suc i) xs" using assms by (simp add: id_take_nth_drop)
  then have "size_list f xs = size_list f (take i xs @ xs ! i # drop (Suc i) xs)" by simp
  then show ?thesis by simp
qed

text \<open>The node for the element \<open>lq\<close>, whose name is stored from the offset \<open>pre\<close> on.\<close>

definition make_tree_node ::
  "('re, 'c) location_queue \<Rightarrow> nat \<Rightarrow> ('re, 'c) location_tree \<Rightarrow> ('re, 'c) location_tree \<Rightarrow>
   ('re, 'c) location_tree \<Rightarrow> ('re, 'c) location_tree" where
  "make_tree_node lq pre left right tree =
     (let len = length (lq_name lq) - pre in
      Tree_node left right tree (lq_exact lq) (lq_inclusive lq)
        ((case lq_exact lq of None \<Rightarrow> False | Some c \<Rightarrow> lc_auto_redirect c) \<or>
         (case lq_inclusive lq of None \<Rightarrow> False | Some c \<Rightarrow> lc_auto_redirect c))
        (word_of_nat len) (take len (drop pre (lq_name lq))))"

text \<open>The offset of \<open>name\<close> in a node is 42. The queue that is passed is never empty.\<close>

function ngx_http_create_locations_tree ::
  "(nat \<Rightarrow> bool) \<Rightarrow> ('re, 'c) location_queue list \<Rightarrow> nat \<Rightarrow> ('re, 'c) location_tree outcome" where
  "ngx_http_create_locations_tree palloc [] pre = Undefined"
| "ngx_http_create_locations_tree palloc (l # ls) pre =
     (let q = length (l # ls) div 2;
          lq = (l # ls) ! q;
          left = take q (l # ls);
          tail = drop (Suc q) (l # ls) in
      if length (lq_name lq) < pre then Undefined
      else if \<not> palloc (42 + (length (lq_name lq) - pre)) then Failed
      else
        and_then (if left = [] then Done No_node else ngx_http_create_locations_tree palloc left pre) (\<lambda>left'.
        and_then (if left = [] \<or> tail = [] then Done No_node
                  else ngx_http_create_locations_tree palloc tail pre) (\<lambda>right'.
        and_then (if lq_list lq = [] then Done No_node
                  else ngx_http_create_locations_tree palloc (lq_list lq) (pre + (length (lq_name lq) - pre)))
          (\<lambda>tree. Done (make_tree_node lq pre left' right' tree)))))"
  by pat_completeness auto
termination
proof (relation "measure (\<lambda>(_, ls, _). size_list size ls)", goal_cases)
  case (2 palloc l ls pre q lq left)
  with size_list_split [of q "l # ls" size] show ?case by simp
next
  case (3 palloc l ls pre q lq left tail)
  with size_list_split [of q "l # ls" size] show ?case by simp
next
  case (4 palloc l ls pre q lq)
  then have "size_list size (l # ls) > size lq" using size_list_split [of q "l # ls" size] by simp
  then show ?case by (cases lq) simp
qed simp

text \<open>The nested locations come first; \<open>locations\<close> is left empty.\<close>

function (sequential) ngx_http_init_static_location_trees ::
    "(nat \<Rightarrow> bool) \<Rightarrow> ('re, 'c) clcf \<Rightarrow> ('re, 'c) clcf outcome"
  and static_loop ::
    "(nat \<Rightarrow> bool) \<Rightarrow> ('re, 'c) location_queue list \<Rightarrow> ('re, 'c) location_queue list outcome"
where
  "ngx_http_init_static_location_trees palloc pclcf =
     (case lc_locations pclcf of
        None \<Rightarrow> Done pclcf
      | Some [] \<Rightarrow> Done pclcf
      | Some (l # ls) \<Rightarrow>
          and_then (static_loop palloc (l # ls)) (\<lambda>locations.
            (case ngx_http_join_exact_locations locations of
               None \<Rightarrow> Failed
             | Some locations \<Rightarrow>
                 and_then
                   (ngx_http_create_locations_tree palloc (ngx_http_create_locations_list locations) 0)
                   (\<lambda>tree. Done (set_static_locations tree (set_locations [] pclcf))))))"
| "static_loop palloc [] = Done []"
| "static_loop palloc (lq # qs) =
     (case lq_clcf lq of
        None \<Rightarrow> Undefined
      | Some clcf \<Rightarrow>
          and_then (ngx_http_init_static_location_trees palloc clcf) (\<lambda>clcf'.
          and_then (static_loop palloc qs) (\<lambda>qs. Done (lq_update clcf' lq # qs))))"
  by pat_completeness auto
termination
  by (relation "measure (\<lambda>x. case x of Inl (_, c) \<Rightarrow> size c | Inr (_, qs) \<Rightarrow> size_list size qs)")
    (auto dest: size_lc_locations size_lq_clcf)

subsection \<open>Finding a location\<close>

datatype loc_rc = Loc_OK | Loc_DONE | Loc_AGAIN | Loc_DECLINED | Loc_ERROR

text \<open>
  The loop of \<open>ngx_http_core_find_static_location\<close> for the rest \<open>uri\<close> of the URI, with the value
  \<open>rv\<close> and the configuration \<open>r->loc_conf\<close>; both are returned. \<open>ngx_filename_cmp\<close> is
  \<open>ngx_memcmp\<close>.
\<close>

fun find_static :: "bytes \<Rightarrow> ('re, 'c) location_tree \<Rightarrow> loc_rc \<Rightarrow> ('re, 'c) clcf \<Rightarrow> (loc_rc \<times> ('re, 'c) clcf) option" where
  "find_static uri No_node rv loc = Some (rv, loc)"
| "find_static uri (Tree_node left right tree exact inclusive auto_redirect nlen name) rv loc =
     (let len = length uri; n = (if len \<le> unat nlen then len else unat nlen) in do {
        rc \<leftarrow> ngx_memcmp uri 0 name 0 n;
        if rc \<noteq> 0 then (if rc <s 0 then find_static uri left rv loc else find_static uri right rv loc)
        else if len > unat nlen then
          (case inclusive of
             Some c \<Rightarrow> find_static (drop n uri) tree Loc_AGAIN c
           | None \<Rightarrow> find_static uri right rv loc)
        else if len = unat nlen then
          (case exact of
             Some c \<Rightarrow> Some (Loc_OK, c)
           | None \<Rightarrow> map_option (Pair Loc_AGAIN) inclusive)
        else if len + 1 = unat nlen \<and> auto_redirect then
          (case (if exact \<noteq> None then exact else inclusive) of
             None \<Rightarrow> None
           | Some c \<Rightarrow> find_static uri left Loc_DONE c)
        else find_static uri left rv loc })"

definition ngx_http_core_find_static_location ::
  "bytes \<Rightarrow> ('re, 'c) location_tree \<Rightarrow> ('re, 'c) clcf \<Rightarrow> (loc_rc \<times> ('re, 'c) clcf) option" where
  "ngx_http_core_find_static_location uri node loc = find_static uri node Loc_DECLINED loc"

datatype regex_rc = Regex_OK | Regex_DECLINED | Regex_ERROR

lemma find_static_size:
  "find_static uri t rv loc = Some (rc, c) \<Longrightarrow> c = loc \<and> rc = rv \<or> size c < size t"
  by (induction uri t rv loc rule: find_static.induct)
    (fastforce simp: Let_def split: option.splits if_splits Option.bind_splits)+

lemma size_lc_static_locations: "size (lc_static_locations c) < size c"
  by (cases c) simp

lemma size_lc_regex_locations: "lc_regex_locations c = Some cs \<Longrightarrow> size_list (size_option size) cs < size c"
  by (cases c) auto

text \<open>
  \<open>regex_loop\<close> is the loop over the array of regular expression locations, which ends at the null
  pointer; \<open>rc\<close> and \<open>loc\<close> are what the static locations gave.
\<close>

function (sequential) ngx_http_core_find_location ::
    "('re \<Rightarrow> bytes \<Rightarrow> regex_rc) \<Rightarrow> bytes \<Rightarrow> ('re, 'c) clcf \<Rightarrow> (loc_rc \<times> ('re, 'c) clcf) option"
  and regex_loop ::
    "('re \<Rightarrow> bytes \<Rightarrow> regex_rc) \<Rightarrow> bytes \<Rightarrow> ('re, 'c) clcf option list \<Rightarrow> loc_rc \<Rightarrow> ('re, 'c) clcf \<Rightarrow>
     (loc_rc \<times> ('re, 'c) clcf) option"
where
  "ngx_http_core_find_location exec uri pclcf = do {
     (rc, clcf) \<leftarrow> ngx_http_core_find_static_location uri (lc_static_locations pclcf) pclcf;
     (rc, noregex, loc) \<leftarrow>
       (if rc = Loc_AGAIN then do {
          (rc, loc) \<leftarrow> ngx_http_core_find_location exec uri clcf;
          Some (rc, lc_noregex clcf, loc) }
        else Some (rc, False, clcf));
     if rc = Loc_OK \<or> rc = Loc_DONE then Some (rc, loc)
     else if \<not> noregex then
       (case lc_regex_locations pclcf of
          None \<Rightarrow> Some (rc, loc)
        | Some clcfp \<Rightarrow> regex_loop exec uri clcfp rc loc)
     else Some (rc, loc) }"
| "regex_loop exec uri [] rc loc = None"
| "regex_loop exec uri (None # clcfp) rc loc = Some (rc, loc)"
| "regex_loop exec uri (Some clcf # clcfp) rc loc = do {
     re \<leftarrow> lc_regex clcf;
     (case exec re uri of
        Regex_OK \<Rightarrow> do {
          (rc, loc) \<leftarrow> ngx_http_core_find_location exec uri clcf;
          Some (if rc = Loc_ERROR then rc else Loc_OK, loc) }
      | Regex_DECLINED \<Rightarrow> regex_loop exec uri clcfp rc loc
      | Regex_ERROR \<Rightarrow> Some (Loc_ERROR, loc)) }"
  by pat_completeness auto
termination
proof (relation "measure (\<lambda>x. case x of Inl (_, _, c) \<Rightarrow> size c
      | Inr (_, _, cs, _) \<Rightarrow> size_list (size_option size) cs)", goal_cases)
  case (2 exec uri pclcf x rc clcf)
  then have "size clcf < size (lc_static_locations pclcf)"
    using find_static_size [of uri "lc_static_locations pclcf" Loc_DECLINED pclcf rc clcf]
    by (auto simp: ngx_http_core_find_static_location_def)
  then show ?case using size_lc_static_locations [of pclcf] by simp
qed (auto dest: size_lc_regex_locations)

text \<open>What \<open>ngx_http_block\<close> does for each server.\<close>

definition init_server ::
  "(nat \<Rightarrow> bool) \<Rightarrow> ('re, 'c) clcf \<Rightarrow> (('re, 'c) clcf \<times> ('re, 'c) clcf option list option) outcome" where
  "init_server palloc clcf =
     and_then (ngx_http_init_locations palloc True clcf) (\<lambda>(clcf, named_locations).
     and_then (ngx_http_init_static_location_trees palloc clcf) (\<lambda>clcf. Done (clcf, named_locations)))"

subsection \<open>The location directive and the phase\<close>

text \<open>
  \<open>ngx_http_core_location\<close> makes a configuration from the arguments of the directive, which are one
  or two; a string is followed by a zero. \<open>compile\<close> is \<open>ngx_http_regex_compile\<close>. \<open>None\<close> is
  \<open>NGX_CONF_ERROR\<close>.
\<close>

definition c_byte :: "bytes \<Rightarrow> nat \<Rightarrow> u_char" where
  "c_byte s i = (if i < length s then s ! i else 0)"

definition ngx_http_core_regex_location ::
  "(bytes \<Rightarrow> bool \<Rightarrow> 're option) \<Rightarrow> 'c \<Rightarrow> bytes \<Rightarrow> bool \<Rightarrow> ('re, 'c) clcf option" where
  "ngx_http_core_regex_location compile conf regex caseless =
     (case compile regex caseless of
        None \<Rightarrow> None
      | Some re \<Rightarrow> Some (Clcf conf regex False False False False False (Some re) None No_node None))"

fun location_args ::
  "(bytes \<Rightarrow> bool \<Rightarrow> 're option) \<Rightarrow> 'c \<Rightarrow> bytes list \<Rightarrow> ('re, 'c) clcf option" where
  "location_args compile conf [md, name] =
     (let clcf = (\<lambda>exact noregex. Clcf conf name False False exact noregex False None None No_node None) in
      if length md = 1 \<and> c_byte md 0 = c_eq then Some (clcf True False)
      else if length md = 2 \<and> c_byte md 0 = 0x5e \<and> c_byte md 1 = 0x7e then Some (clcf False True)
      else if length md = 1 \<and> c_byte md 0 = 0x7e then ngx_http_core_regex_location compile conf name False
      else if length md = 2 \<and> c_byte md 0 = 0x7e \<and> c_byte md 1 = c_star
      then ngx_http_core_regex_location compile conf name True
      else None)"
| "location_args compile conf [name] =
     (let clcf = (\<lambda>name named exact noregex. Clcf conf name False named exact noregex False None None No_node None) in
      if c_byte name 0 = c_eq then Some (clcf (drop 1 name) False True False)
      else if c_byte name 0 = 0x5e \<and> c_byte name 1 = 0x7e then Some (clcf (drop 2 name) False False True)
      else if c_byte name 0 = 0x7e then
        (let name = drop 1 name in
         if c_byte name 0 = c_star then ngx_http_core_regex_location compile conf (drop 1 name) True
         else ngx_http_core_regex_location compile conf name False)
      else Some (clcf name (c_byte name 0 = 0x40) False False))"
| "location_args compile conf _ = None"

text \<open>
  The directive inside \<open>pclcf\<close>, up to the parsing of its block: the new location and the queue with
  it. \<open>conf\<close> is \<open>ctx->loc_conf\<close>, which the modules make, or \<open>None\<close> when one of the
  allocations for it fails.
\<close>

definition ngx_http_core_location ::
  "(bytes \<Rightarrow> bool \<Rightarrow> 're option) \<Rightarrow> (nat \<Rightarrow> bool) \<Rightarrow> 'c option \<Rightarrow> ('re, 'c) clcf \<Rightarrow> bytes list \<Rightarrow>
   (('re, 'c) clcf \<times> ('re, 'c) location_queue list) option" where
  "ngx_http_core_location compile palloc conf pclcf value = do {
     conf \<leftarrow> conf;
     clcf \<leftarrow> location_args compile conf value;
     if length (lc_name pclcf) \<noteq> 0 \<and>
        (lc_exact_match pclcf \<or> lc_named pclcf \<or> lc_named clcf \<or>
         lc_regex clcf = None \<and>
         ngx_strncmp (lc_name clcf @ [0]) 0 (lc_name pclcf @ [0]) 0 (length (lc_name pclcf)) \<noteq> Some 0)
     then None
     else map_option (Pair clcf) (ngx_http_add_location palloc (lc_locations pclcf) clcf) }"

text \<open>
  \<open>ngx_http_core_find_config_phase\<close>: the request is finalised with a status, and with the value of
  the header \<open>Location\<close> for a redirect, or it goes on with the location found. \<open>internal_conf\<close> and
  \<open>client_max_body_size\<close> read these fields of a configuration; \<open>list_push\<close> says whether the header
  can be allocated, \<open>palloc\<close> its value. What \<open>ngx_http_update_location_config\<close> copies into the request and the
  discarding of the body do not change the outcome.
\<close>

record find_config_request =
  r_internal :: bool
  r_content_length_n :: ngx_int_t
  r_discard_body :: bool
  r_args :: bytes

datatype ('re, 'c) phase_result =
    Finalize nat "bytes option"
  | Next_phase "('re, 'c) clcf"

definition ngx_http_core_find_config_phase ::
  "('re \<Rightarrow> bytes \<Rightarrow> regex_rc) \<Rightarrow> bool \<Rightarrow> (nat \<Rightarrow> bool) \<Rightarrow> ('c \<Rightarrow> bool) \<Rightarrow> ('c \<Rightarrow> ngx_int_t) \<Rightarrow>
   find_config_request \<Rightarrow> bytes \<Rightarrow> ('re, 'c) clcf \<Rightarrow> ('re, 'c) phase_result option" where
  "ngx_http_core_find_config_phase exec list_push palloc internal_conf client_max_body_size r uri pclcf = do {
     (rc, clcf) \<leftarrow> ngx_http_core_find_location exec uri pclcf;
     Some
      (if rc = Loc_ERROR then Finalize 500 None
       else if \<not> r_internal r \<and> internal_conf (lc_conf clcf) then Finalize 404 None
       else if r_content_length_n r \<noteq> - 1 \<and> \<not> r_discard_body r \<and>
         client_max_body_size (lc_conf clcf) \<noteq> 0 \<and>
         client_max_body_size (lc_conf clcf) <s r_content_length_n r
       then Finalize 413 None
       else if rc = Loc_DONE then
         (if \<not> list_push then Finalize 500 None
          else if r_args r = [] then Finalize 301 (Some (lc_name clcf))
          else if \<not> palloc (length (lc_name clcf) + 1 + length (r_args r)) then Finalize 500 None
          else Finalize 301 (Some (lc_name clcf @ c_quest # r_args r)))
       else Next_phase clcf) }"

section \<open>Comparing names\<close>

lemma sint_ucast_diff:
  fixes a b :: u_char
  shows "sint (ucast a - ucast b :: 64 word) = int (unat a) - int (unat b)"
proof -
  have "int (unat a) - int (unat b) < 256" "- 256 < int (unat a) - int (unat b)"
    using unat_u_char_less [of a] unat_u_char_less [of b] by linarith+
  then have "signed_take_bit 63 (int (unat a) - int (unat b)) = int (unat a) - int (unat b)"
    by (intro signed_take_bit_int_eq_self) simp_all
  moreover have "(ucast a - ucast b :: 64 word) = word_of_int (int (unat a) - int (unat b))"
    by simp
  ultimately show ?thesis by (simp only: sint_sbintrunc') simp
qed

lemma byte_diff_pos:
  fixes a b :: u_char
  shows "0 <s (ucast a - ucast b :: 64 word) \<longleftrightarrow> b < a"
  unfolding word_sless_alt sint_ucast_diff word_less_nat_alt signed_0 by linarith

lemma byte_diff_neg:
  fixes a b :: u_char
  shows "(ucast a - ucast b :: 64 word) <s 0 \<longleftrightarrow> a < b"
  unfolding word_sless_alt sint_ucast_diff word_less_nat_alt signed_0 by linarith

text \<open>The bytes of a C string up to its terminating zero.\<close>

abbreviation c_string :: "bytes \<Rightarrow> bytes" where
  "c_string s \<equiv> takeWhile (\<lambda>b. b \<noteq> 0) s"

lemma ngx_strcmp_pos: "0 <s ngx_strcmp a b \<longleftrightarrow> c_string b < c_string a"
proof (induction a b rule: ngx_strcmp.induct)
  case (2 b bs)
  then show ?case using byte_diff_pos [of 0 b] by (auto simp: word_gt_0)
next
  case (3 a as)
  then show ?case using byte_diff_pos [of a 0] by (auto simp: word_gt_0)
next
  case (4 a as b bs)
  then show ?case using byte_diff_pos [of a b] by (auto simp: word_gt_0)
qed simp

lemma ngx_strcmp_zero: "ngx_strcmp a b = 0 \<longleftrightarrow> c_string a = c_string b"
proof (induction a b rule: ngx_strcmp.induct)
  case (4 a as b bs)
  then show ?case by auto
qed auto

lemma c_string_id [simp]: "0 \<notin> set s \<Longrightarrow> c_string s = s"
  by (auto simp: takeWhile_eq_all_conv)

section \<open>The order of the locations\<close>

text \<open>
  The key of a location: static locations by name, the exact one first, then the regular
  expressions, the named locations by name and the locations without a name.
\<close>

definition location_key :: "('re, 'c) location_queue \<Rightarrow> nat \<times> bytes \<times> nat" where
  "location_key q =
     (case lq_clcf q of
        None \<Rightarrow> (0, [], 0)
      | Some c \<Rightarrow>
          (if lc_noname c then (4, [], 0)
           else if lc_named c then (3, c_string (lc_name c), 0)
           else if lc_regex c \<noteq> None then (2, [], 0)
           else (1, c_string (lc_name c), if lc_exact_match c then 0 else 1)))"

lemma cmp_locations_key:
  "0 <s ngx_http_cmp_locations x y \<longleftrightarrow> location_key y < location_key x"
proof -
  have s: "0 <s (1 :: 64 word)" "\<not> 0 <s (- 1 :: 64 word)" by (simp_all add: word_sless_alt)
  show ?thesis
    by (cases "lq_clcf x"; cases "lq_clcf y")
      (auto simp: ngx_http_cmp_locations_def location_key_def cmp_clcf_def Let_def s ngx_strcmp_pos ngx_strcmp_zero)
qed

interpretation locations: comparison ngx_http_cmp_locations location_key
  by unfold_locales (rule cmp_locations_key)

end
