(* ===== verification/Ngx_Http_Location_Tree.thy ===== *)
theory Ngx_Http_Location_Tree
  imports Ngx_Http_Locations "HOL-Library.Sublist"
begin

text \<open>
  One level of locations: what \<open>ngx_http_join_exact_locations\<close>,
  \<open>ngx_http_create_locations_list\<close> and \<open>ngx_http_create_locations_tree\<close> make of the sorted static
  locations, what \<open>ngx_http_core_find_static_location\<close> finds in the tree, and the specification
  \<open>location_found\<close> that it meets.
\<close>

section \<open>Prefixes in the lexicographic order\<close>

lemma prefix_le: "prefix a b \<Longrightarrow> a \<le> (b :: bytes)"
proof (induction a arbitrary: b)
  case (Cons c a)
  then obtain b' where "b = c # b'" "prefix a b'" by (auto elim: prefixE)
  with Cons.IH show ?case by simp
qed simp

lemma prefix_between: "a \<le> y \<Longrightarrow> y \<le> x \<Longrightarrow> prefix a x \<Longrightarrow> prefix a (y :: bytes)"
proof (induction a arbitrary: x y)
  case (Cons c a)
  then obtain x' where x: "x = c # x'" "prefix a x'" by (auto elim: prefixE)
  with Cons.prems obtain d y' where y: "y = d # y'" by (cases y) auto
  with Cons.prems x have "d = c" "a \<le> y'" "y' \<le> x'" by auto
  with Cons.IH [of y' x'] x y show ?case by simp
qed simp

lemma prefix_extend_less:
  "n < u \<Longrightarrow> \<not> prefix n u \<Longrightarrow> prefix n x \<Longrightarrow> x < u \<and> \<not> prefix x (u :: bytes)"
  using prefix_between [of n u x] prefix_order.order_trans [of n x u] by (meson leI less_imp_le)

lemma prefixes_less: "prefix a u \<Longrightarrow> prefix b u \<Longrightarrow> a \<le> b \<Longrightarrow> prefix a (b :: bytes)"
  using prefix_between prefix_le by blast

lemma not_prefix_less: "u < x \<Longrightarrow> \<not> prefix x (u :: bytes)"
  using prefix_le by fastforce

text \<open>The comparison of the search: as many bytes as both strings have.\<close>

lemma ngx_memcmp_order:
  assumes "n \<le> length v - s" and "n \<le> length w - s" and "n = length v - s \<or> n = length w - s"
    and "s \<le> length v" and "s \<le> length w"
  shows "\<exists>rc. ngx_memcmp v s w s n = Some rc \<and>
    (rc = 0 \<longleftrightarrow> prefix (drop s v) (drop s w) \<or> prefix (drop s w) (drop s v)) \<and>
    (rc \<noteq> 0 \<longrightarrow> (rc <s 0 \<longleftrightarrow> drop s v < drop s w))"
  using assms
proof (induction n arbitrary: s)
  case (Suc n)
  then have s: "s < length v" "s < length w" by simp_all
  then have d: "drop s v = v ! s # drop (Suc s) v" "drop s w = w ! s # drop (Suc s) w"
    by (simp_all add: Cons_nth_drop_Suc)
  show ?case
  proof (cases "v ! s = w ! s")
    case True
    have "n \<le> length v - Suc s" "n \<le> length w - Suc s" "n = length v - Suc s \<or> n = length w - Suc s"
      "Suc s \<le> length v" "Suc s \<le> length w" using Suc.prems s by auto
    from Suc.IH [OF this] show ?thesis using s True by (auto simp: d)
  next
    case False
    then show ?thesis using s by (auto simp: d byte_diff_neg)
  qed
qed auto

lemma ngx_memcmp_min:
  obtains rc where "ngx_memcmp v 0 w 0 (if length v \<le> length w then length v else length w) = Some rc"
    and "rc = 0 \<longleftrightarrow> prefix v w \<or> prefix w v" and "rc \<noteq> 0 \<Longrightarrow> rc <s 0 \<longleftrightarrow> v < w"
proof -
  let ?n = "if length v \<le> length w then length v else length w"
  have "\<exists>rc. ngx_memcmp v 0 w 0 ?n = Some rc \<and> (rc = 0 \<longleftrightarrow> prefix v w \<or> prefix w v) \<and>
      (rc \<noteq> 0 \<longrightarrow> (rc <s 0 \<longleftrightarrow> v < w))"
    using ngx_memcmp_order [of ?n v 0 w] by simp
  then show ?thesis using that by blast
qed

section \<open>What the search finds\<close>

text \<open>
  All elements of a queue and of the queues inside it, in the order of their names, and the shape
  that \<open>ngx_http_create_locations_list\<close> gives a queue: an element that is inclusive has the
  elements it is a prefix of inside.
\<close>

function flat :: "('re, 'c) location_queue list \<Rightarrow> ('re, 'c) location_queue list" where
  "flat [] = []"
| "flat (Location_queue ex inc nm ls # qs) = Location_queue ex inc nm [] # flat ls @ flat qs"
  by pat_completeness auto
termination by (relation "measure (size_list size)") auto

function forest :: "('re, 'c) location_queue list \<Rightarrow> bool" where
  "forest [] \<longleftrightarrow> True"
| "forest (Location_queue ex inc nm ls # qs) \<longleftrightarrow>
     (ex \<noteq> None \<or> inc \<noteq> None) \<and> (ls \<noteq> [] \<longrightarrow> inc \<noteq> None) \<and> forest ls \<and>
     (\<forall>x \<in> set (flat ls). prefix nm (lq_name x)) \<and>
     (inc \<noteq> None \<longrightarrow> (\<forall>x \<in> set (flat qs). \<not> prefix nm (lq_name x))) \<and> forest qs"
  by pat_completeness auto
termination by (relation "measure (size_list size)") auto

lemma flat_append [simp]: "flat (xs @ ys) = flat xs @ flat ys"
  by (induction xs rule: flat.induct) auto

lemma flat_Cons: "flat (q # qs) = Location_queue (lq_exact q) (lq_inclusive q) (lq_name q) [] # flat (lq_list q) @ flat qs"
  by (cases q) simp

lemma forest_Cons: "forest (q # qs) \<longleftrightarrow>
     (lq_exact q \<noteq> None \<or> lq_inclusive q \<noteq> None) \<and> (lq_list q \<noteq> [] \<longrightarrow> lq_inclusive q \<noteq> None) \<and>
     forest (lq_list q) \<and> (\<forall>x \<in> set (flat (lq_list q)). prefix (lq_name q) (lq_name x)) \<and>
     (lq_inclusive q \<noteq> None \<longrightarrow> (\<forall>x \<in> set (flat qs). \<not> prefix (lq_name q) (lq_name x))) \<and> forest qs"
  by (cases q) simp

lemma forest_append: "forest (xs @ ys) \<Longrightarrow> forest xs \<and> forest ys"
  by (induction xs) (auto simp: forest_Cons)

lemma forest_before:
  "forest (xs @ ys) \<Longrightarrow> x \<in> set (flat xs) \<Longrightarrow> lq_inclusive x \<noteq> None \<Longrightarrow> y \<in> set (flat ys) \<Longrightarrow>
   \<not> prefix (lq_name x) (lq_name y)"
proof (induction xs)
  case (Cons q qs)
  then consider "x = Location_queue (lq_exact q) (lq_inclusive q) (lq_name q) []"
    | "x \<in> set (flat (lq_list q))" | "x \<in> set (flat qs)" by (auto simp: flat_Cons)
  then show ?case
  proof cases
    case 2
    then have "lq_inclusive q \<noteq> None" "prefix (lq_name q) (lq_name x)"
      using Cons.prems by (auto simp: forest_Cons)
    then show ?thesis using Cons.prems(1,4) by (auto simp: forest_Cons dest: prefix_order.order_trans)
  qed (use Cons in \<open>auto simp: forest_Cons\<close>)
qed simp

definition lq_auto_redirect :: "('re, 'c) location_queue \<Rightarrow> bool" where
  "lq_auto_redirect q \<longleftrightarrow>
     (\<exists>c. lq_exact q = Some c \<and> lc_auto_redirect c) \<or> (\<exists>c. lq_inclusive q = Some c \<and> lc_auto_redirect c)"

text \<open>
  The outcomes of a search for \<open>u\<close>: a location of that name; a redirect to a location whose name has
  one character more; the longest inclusive location that is a prefix of \<open>u\<close>, or what was found
  before. A redirect is certain if its location comes next to \<open>u\<close> in the order of names.
\<close>

definition matched :: "('re, 'c) location_queue set \<Rightarrow> bytes \<Rightarrow> loc_rc \<Rightarrow> ('re, 'c) clcf \<Rightarrow> bool" where
  "matched F u rc c \<longleftrightarrow> (\<exists>q \<in> F. lq_name q = u \<and>
     (lq_exact q = Some c \<and> rc = Loc_OK \<or> lq_exact q = None \<and> lq_inclusive q = Some c \<and> rc = Loc_AGAIN))"

definition redirected :: "('re, 'c) location_queue set \<Rightarrow> bytes \<Rightarrow> loc_rc \<Rightarrow> ('re, 'c) clcf \<Rightarrow> bool" where
  "redirected F u rc c \<longleftrightarrow> rc = Loc_DONE \<and>
     (\<exists>q \<in> F. \<exists>ch. lq_name q = u @ [ch] \<and> lq_auto_redirect q \<and> lq_clcf q = Some c)"

definition longest_prefix ::
  "('re, 'c) location_queue set \<Rightarrow> bytes \<Rightarrow> loc_rc \<Rightarrow> ('re, 'c) clcf \<Rightarrow> loc_rc \<Rightarrow> ('re, 'c) clcf \<Rightarrow> bool" where
  "longest_prefix F u rv loc rc c \<longleftrightarrow>
     (\<exists>q \<in> F. lq_inclusive q = Some c \<and> prefix (lq_name q) u \<and> rc = Loc_AGAIN \<and>
        (\<forall>x \<in> F. lq_inclusive x \<noteq> None \<and> prefix (lq_name x) u \<longrightarrow> prefix (lq_name x) (lq_name q))) \<or>
     (\<forall>x \<in> F. lq_inclusive x \<noteq> None \<longrightarrow> \<not> prefix (lq_name x) u) \<and> rc = rv \<and> c = loc"

definition must_redirect :: "('re, 'c) location_queue set \<Rightarrow> bytes \<Rightarrow> bool" where
  "must_redirect F u \<longleftrightarrow> (\<exists>q \<in> F. \<exists>ch. lq_name q = u @ [ch] \<and> lq_auto_redirect q \<and>
     (\<forall>x \<in> F. u < lq_name x \<longrightarrow> lq_name q \<le> lq_name x))"

definition found ::
  "('re, 'c) location_queue set \<Rightarrow> bytes \<Rightarrow> loc_rc \<Rightarrow> ('re, 'c) clcf \<Rightarrow> loc_rc \<Rightarrow> ('re, 'c) clcf \<Rightarrow> bool" where
  "found F u rv loc rc c \<longleftrightarrow>
     (if \<exists>q \<in> F. lq_name q = u then matched F u rc c
      else redirected F u rc c \<or> longest_prefix F u rv loc rc c \<and> \<not> must_redirect F u)"

text \<open>Elements that are neither \<open>u\<close> nor an inclusive prefix of it can be left out of the search.\<close>

lemma found_mono:
  assumes "found G u rv loc rc c" and "G \<subseteq> F"
    and "\<And>x. x \<in> F - G \<Longrightarrow> lq_name x \<noteq> u \<and> \<not> (lq_inclusive x \<noteq> None \<and> prefix (lq_name x) u)"
    and "must_redirect F u \<Longrightarrow> must_redirect G u"
  shows "found F u rv loc rc c"
proof -
  have "(\<exists>q \<in> F. lq_name q = u) \<longleftrightarrow> (\<exists>q \<in> G. lq_name q = u)" using assms(2,3) by blast
  moreover have "matched G u rc c \<Longrightarrow> matched F u rc c" "redirected G u rc c \<Longrightarrow> redirected F u rc c"
    using assms(2) unfolding matched_def redirected_def by blast+
  moreover have "longest_prefix G u rv loc rc c \<Longrightarrow> longest_prefix F u rv loc rc c"
  proof -
    have sub: "x \<in> G" if "x \<in> F" "lq_inclusive x \<noteq> None" "prefix (lq_name x) u" for x
      using assms(3) [of x] that by blast
    assume "longest_prefix G u rv loc rc c"
    then show ?thesis
      unfolding longest_prefix_def using assms(2) sub by (elim disjE) (blast, metis)
  qed
  ultimately show ?thesis using assms(1,4) unfolding found_def by (auto split: if_splits)
qed

text \<open>Below the inclusive element \<open>q\<close>.\<close>

lemma found_below:
  assumes "found G u Loc_AGAIN c0 rc c" and "G \<subseteq> F"
    and "q \<in> F" "lq_inclusive q = Some c0" "prefix (lq_name q) u" "lq_name q \<noteq> u"
    and "\<And>x. x \<in> G \<Longrightarrow> prefix (lq_name q) (lq_name x)"
    and "\<And>x. x \<in> F - G \<Longrightarrow> lq_name x \<noteq> lq_name q \<Longrightarrow>
      lq_name x \<noteq> u \<and> \<not> (lq_inclusive x \<noteq> None \<and> prefix (lq_name x) u)"
    and "must_redirect F u \<Longrightarrow> must_redirect G u"
  shows "found F u rv loc rc c"
proof -
  have "(\<exists>q \<in> F. lq_name q = u) \<longleftrightarrow> (\<exists>q \<in> G. lq_name q = u)"
  proof
    assume "\<exists>q \<in> F. lq_name q = u"
    then obtain x where "x \<in> F" "lq_name x = u" by blast
    then show "\<exists>q \<in> G. lq_name q = u" using assms(8) [of x] assms(6) by (cases "x \<in> G") auto
  qed (use assms(2) in blast)
  moreover have "matched G u rc c \<Longrightarrow> matched F u rc c" "redirected G u rc c \<Longrightarrow> redirected F u rc c"
    using assms(2) unfolding matched_def redirected_def by blast+
  moreover have "longest_prefix F u rv loc rc c" if "longest_prefix G u Loc_AGAIN c0 rc c"
  proof -
    have other: "prefix (lq_name x) (lq_name q)"
      if "x \<in> F - G" "lq_inclusive x \<noteq> None" "prefix (lq_name x) u" for x
      using assms(8) [of x] that by fastforce
    show ?thesis
      using that unfolding longest_prefix_def
    proof (elim disjE bexE conjE)
      fix y
      assume y: "y \<in> G" "lq_inclusive y = Some c" "prefix (lq_name y) u" "rc = Loc_AGAIN"
        and *: "\<forall>x \<in> G. lq_inclusive x \<noteq> None \<and> prefix (lq_name x) u \<longrightarrow> prefix (lq_name x) (lq_name y)"
      have "prefix (lq_name x) (lq_name y)" if "x \<in> F" "lq_inclusive x \<noteq> None" "prefix (lq_name x) u" for x
        using * other [of x] assms(7) [OF y(1)] that by (metis DiffI prefix_order.order_trans)
      then show "(\<exists>q \<in> F. lq_inclusive q = Some c \<and> prefix (lq_name q) u \<and> rc = Loc_AGAIN \<and>
          (\<forall>x \<in> F. lq_inclusive x \<noteq> None \<and> prefix (lq_name x) u \<longrightarrow> prefix (lq_name x) (lq_name q))) \<or>
          (\<forall>x \<in> F. lq_inclusive x \<noteq> None \<longrightarrow> \<not> prefix (lq_name x) u) \<and> rc = rv \<and> c = loc"
        using y assms(2) by blast
    next
      assume "\<forall>x \<in> G. lq_inclusive x \<noteq> None \<longrightarrow> \<not> prefix (lq_name x) u" "rc = Loc_AGAIN" "c = c0"
      then show "(\<exists>q \<in> F. lq_inclusive q = Some c \<and> prefix (lq_name q) u \<and> rc = Loc_AGAIN \<and>
          (\<forall>x \<in> F. lq_inclusive x \<noteq> None \<and> prefix (lq_name x) u \<longrightarrow> prefix (lq_name x) (lq_name q))) \<or>
          (\<forall>x \<in> F. lq_inclusive x \<noteq> None \<longrightarrow> \<not> prefix (lq_name x) u) \<and> rc = rv \<and> c = loc"
        using assms(3-5) other by blast
    qed
  qed
  ultimately show ?thesis using assms(1,9) unfolding found_def by (auto split: if_splits)
qed

text \<open>A tree for a queue: \<open>pre\<close> bytes of the names are left out.\<close>

inductive tree_of :: "nat \<Rightarrow> ('re, 'c) location_tree \<Rightarrow> ('re, 'c) location_queue list \<Rightarrow> bool" where
  tree_of_Nil: "tree_of pre No_node []"
| tree_of_node: "\<lbrakk>tree_of pre left as; tree_of pre right bs; tree_of (length (lq_name q)) tree (lq_list q);
     pre \<le> length (lq_name q); length (lq_name q) - pre < 256\<rbrakk>
   \<Longrightarrow> tree_of pre (make_tree_node q pre left right tree) (as @ q # bs)"

lemma create_tree_tree_of:
  "ngx_http_create_locations_tree palloc ls pre = Done t \<Longrightarrow>
   (\<And>x. x \<in> set (flat ls) \<Longrightarrow> length (lq_name x) < 256) \<Longrightarrow> tree_of pre t ls"
proof (induction palloc ls pre arbitrary: t rule: ngx_http_create_locations_tree.induct)
  case (2 palloc l ls pre)
  let ?q = "length (l # ls) div 2"
  define lq left tail where "lq = (l # ls) ! ?q" and "left = take ?q (l # ls)" and "tail = drop (Suc ?q) (l # ls)"
  have split: "l # ls = left @ lq # tail"
    unfolding lq_def left_def tail_def by (rule id_take_nth_drop) simp
  have names: "length (lq_name x) < 256" if "x \<in> set (flat left) \<union> set (flat tail) \<union> set (flat (lq_list lq))" for x
    using 2(5) [of x] that unfolding split by (auto simp: flat_Cons)
  have lq: "length (lq_name lq) < 256"
    using 2(5) [of "Location_queue (lq_exact lq) (lq_inclusive lq) (lq_name lq) []"]
    unfolding split by (simp add: flat_Cons)
  have tail: "tail = []" if "left = []"
    using that by (cases ls) (auto simp: left_def tail_def)
  let ?left = "if left = [] then Done No_node else ngx_http_create_locations_tree palloc left pre"
  let ?right = "if left = [] \<or> tail = [] then Done No_node else ngx_http_create_locations_tree palloc tail pre"
  let ?tree = "if lq_list lq = [] then Done No_node
    else ngx_http_create_locations_tree palloc (lq_list lq) (pre + (length (lq_name lq) - pre))"
  have "ngx_http_create_locations_tree palloc (l # ls) pre =
     (if length (lq_name lq) < pre then Undefined
      else if \<not> palloc (42 + (length (lq_name lq) - pre)) then Failed
      else and_then ?left (\<lambda>l'. and_then ?right (\<lambda>r'. and_then ?tree (\<lambda>t'.
        Done (make_tree_node lq pre l' r' t')))))"
    by (simp only: ngx_http_create_locations_tree.simps Let_def lq_def left_def tail_def)
  with 2(4) have "\<not> length (lq_name lq) < pre \<and> palloc (42 + (length (lq_name lq) - pre)) \<and>
      (\<exists>l' r' t'. ?left = Done l' \<and> ?right = Done r' \<and> ?tree = Done t' \<and> t = make_tree_node lq pre l' r' t')"
    by (simp only: and_then_eq_Done if_outcome_eq_Done) blast
  then obtain l' r' t' where
    t: "\<not> length (lq_name lq) < pre" "palloc (42 + (length (lq_name lq) - pre))"
      "t = make_tree_node lq pre l' r' t'"
    and l': "?left = Done l'" and r': "?right = Done r'" and t': "?tree = Done t'"
    by blast
  note IH = 2(1-3) [OF refl lq_def left_def tail_def t(1)]
  have "tree_of pre l' left"
    using l' IH(1) t(2) names by (auto simp: tree_of_Nil split: if_splits)
  moreover have "tree_of pre r' tail"
    using r' IH(2) t(2) names tail l' by (auto simp: tree_of_Nil split: if_splits)
  moreover have "tree_of (length (lq_name lq)) t' (lq_list lq)"
    using t' IH(3) t names l' r' by (auto simp: tree_of_Nil split: if_splits)
  ultimately show ?case
    unfolding split t(3) using t(1) lq by (intro tree_of_node) auto
qed simp

abbreviation in_order :: "('re, 'c) location_queue list \<Rightarrow> bool" where
  "in_order ls \<equiv> sorted_wrt (\<lambda>a b. lq_name a < lq_name b) ls"

lemma lq_auto_redirect_clcf: "lq_auto_redirect q \<Longrightarrow> \<exists>c. lq_clcf q = Some c"
  by (auto simp: lq_auto_redirect_def lq_clcf_def)

lemma less_snoc [simp]: "u < u @ [ch :: u_char]"
  by (induction u) auto

lemma in_order_mid:
  assumes "in_order (flat (as @ q # bs))"
  shows "\<And>x. x \<in> set (flat as) \<Longrightarrow> lq_name x < lq_name q"
    and "\<And>x. x \<in> set (flat (lq_list q)) \<Longrightarrow> lq_name q < lq_name x"
    and "\<And>x. x \<in> set (flat bs) \<Longrightarrow> lq_name q < lq_name x"
    and "in_order (flat as)" and "in_order (flat (lq_list q))" and "in_order (flat bs)"
  using assms by (simp_all add: flat_Cons sorted_wrt_append ball_Un)

text \<open>The element of a tree node and everything around it, for a search of \<open>u\<close>.\<close>

lemma found_left:
  assumes f: "forest (as @ q # bs)" and s: "in_order (flat (as @ q # bs))"
    and less: "u < lq_name q"
    and res: "found (set (flat as)) u rv loc rc c"
    and auto: "\<And>ch. lq_name q = u @ [ch] \<Longrightarrow> \<not> lq_auto_redirect q"
  shows "found (set (flat (as @ q # bs))) u rv loc rc c"
  using res
proof (rule found_mono)
  let ?F = "set (flat (as @ q # bs))" and ?G = "set (flat as)"
  have after: "lq_name q \<le> lq_name x" if "x \<in> ?F - ?G" for x
    using that in_order_mid [OF s] by (auto simp: flat_Cons intro: less_imp_le)
  show "?G \<subseteq> ?F" by auto
  show "lq_name x \<noteq> u \<and> \<not> (lq_inclusive x \<noteq> None \<and> prefix (lq_name x) u)" if "x \<in> ?F - ?G" for x
    using after [OF that] less not_prefix_less [of u "lq_name x"] by auto
  assume "must_redirect ?F u"
  then obtain y ch where y: "y \<in> ?F" "lq_name y = u @ [ch]" "lq_auto_redirect y"
    "\<And>x. x \<in> ?F \<Longrightarrow> u < lq_name x \<Longrightarrow> lq_name y \<le> lq_name x" unfolding must_redirect_def by blast
  have "lq_name y \<le> lq_name q"
    using y(4) [of "Location_queue (lq_exact q) (lq_inclusive q) (lq_name q) []"] less
    by (simp add: flat_Cons)
  have "y \<in> ?G"
  proof (rule ccontr)
    assume "y \<notin> ?G"
    then have "lq_name y = lq_name q" using after [of y] y(1) \<open>lq_name y \<le> lq_name q\<close> by auto
    with \<open>y \<notin> ?G\<close> y(1) in_order_mid [OF s] have "y = Location_queue (lq_exact q) (lq_inclusive q) (lq_name q) []"
      by (fastforce simp: flat_Cons)
    with y(2,3) auto [of ch] show False by (simp add: lq_auto_redirect_def)
  qed
  with y show "must_redirect ?G u" unfolding must_redirect_def by (metis \<open>?G \<subseteq> ?F\<close> subsetD)
qed

lemma found_left_redirect:
  assumes f: "forest (as @ q # bs)" and s: "in_order (flat (as @ q # bs))"
    and q: "lq_name q = u @ [ch]" "lq_auto_redirect q" "lq_clcf q = Some c0"
    and res: "found (set (flat as)) u Loc_DONE c0 rc c"
  shows "found (set (flat (as @ q # bs))) u rv loc rc c"
proof -
  let ?F = "set (flat (as @ q # bs))" and ?G = "set (flat as)"
  have less: "u < lq_name q" by (simp add: q(1))
  have sub: "?G \<subseteq> ?F" by auto
  have names: "(\<exists>x \<in> ?F. lq_name x = u) \<longleftrightarrow> (\<exists>x \<in> ?G. lq_name x = u)"
    using in_order_mid [OF s] less by (fastforce simp: flat_Cons)
  have not_inside: "\<not> prefix (lq_name x) u" if "x \<in> ?G" "lq_inclusive x \<noteq> None" for x
  proof
    assume "prefix (lq_name x) u"
    then have "prefix (lq_name x) (lq_name q)" by (simp add: q(1))
    then show False
      using forest_before [OF f that, of "Location_queue (lq_exact q) (lq_inclusive q) (lq_name q) []"]
      by (simp add: flat_Cons)
  qed
  have "redirected ?F u Loc_DONE c0"
    unfolding redirected_def
    by (auto simp: q flat_Cons lq_auto_redirect_def lq_clcf_def intro!: exI [of _ ch])
      (use q in \<open>auto simp: lq_auto_redirect_def lq_clcf_def\<close>)
  moreover have "redirected ?G u rc c \<Longrightarrow> redirected ?F u rc c" "matched ?G u rc c \<Longrightarrow> matched ?F u rc c"
    using sub unfolding redirected_def matched_def by blast+
  moreover have "longest_prefix ?G u Loc_DONE c0 rc c \<Longrightarrow> rc = Loc_DONE \<and> c = c0"
    using not_inside unfolding longest_prefix_def by blast
  ultimately show ?thesis using res names unfolding found_def by (auto split: if_splits)
qed

lemma found_right:
  assumes f: "forest (as @ q # bs)" and s: "in_order (flat (as @ q # bs))"
    and less: "lq_name q < u" and inc: "prefix (lq_name q) u \<Longrightarrow> lq_inclusive q = None"
    and res: "found (set (flat bs)) u rv loc rc c"
  shows "found (set (flat (as @ q # bs))) u rv loc rc c"
  using res
proof (rule found_mono)
  let ?F = "set (flat (as @ q # bs))" and ?G = "set (flat bs)"
  let ?q = "Location_queue (lq_exact q) (lq_inclusive q) (lq_name q) []"
  show "?G \<subseteq> ?F" by (auto simp: flat_Cons)
  have before: "lq_name x < u \<and> \<not> (lq_inclusive x \<noteq> None \<and> prefix (lq_name x) u)" if x: "x \<in> ?F - ?G" for x
  proof -
    consider "x = ?q" | "x \<in> set (flat as)" | "x \<in> set (flat (lq_list q))"
      using x by (auto simp: flat_Cons)
    then show ?thesis
    proof cases
      case 1
      with less inc show ?thesis by auto
    next
      case 2
      then have x: "lq_name x < lq_name q" using in_order_mid [OF s] by simp
      have "\<not> prefix (lq_name x) u" if "lq_inclusive x \<noteq> None"
        using forest_before [OF f 2 that, of ?q] prefix_between [of "lq_name x" "lq_name q" u] x less
        by (auto simp: flat_Cons less_imp_le)
      with x less show ?thesis by auto
    next
      case 3
      then have "lq_list q \<noteq> []" "prefix (lq_name q) (lq_name x)"
        using forest_append [OF f] by (auto simp: forest_Cons)
      moreover have "lq_inclusive q \<noteq> None"
        using \<open>lq_list q \<noteq> []\<close> forest_append [OF f] by (auto simp: forest_Cons)
      ultimately have "\<not> prefix (lq_name q) u" "prefix (lq_name q) (lq_name x)" using inc by auto
      then show ?thesis using prefix_extend_less [OF less, of "lq_name x"] by simp
    qed
  qed
  show "lq_name x \<noteq> u \<and> \<not> (lq_inclusive x \<noteq> None \<and> prefix (lq_name x) u)" if "x \<in> ?F - ?G" for x
    using before [OF that] by auto
  assume "must_redirect ?F u"
  then obtain y ch where y: "y \<in> ?F" "lq_name y = u @ [ch]" "lq_auto_redirect y"
    "\<And>x. x \<in> ?F \<Longrightarrow> u < lq_name x \<Longrightarrow> lq_name y \<le> lq_name x" unfolding must_redirect_def by blast
  have "u < lq_name y" by (simp add: y(2))
  then have "y \<in> ?G" using before [of y] y(1) by (meson DiffI not_less_iff_gr_or_eq)
  with y show "must_redirect ?G u" unfolding must_redirect_def by (metis \<open>?G \<subseteq> ?F\<close> subsetD)
qed


lemma found_inside:
  assumes f: "forest (as @ q # bs)" and s: "in_order (flat (as @ q # bs))"
    and q: "lq_inclusive q = Some c0" "prefix (lq_name q) u" "lq_name q \<noteq> u"
    and res: "found (set (flat (lq_list q))) u Loc_AGAIN c0 rc c"
  shows "found (set (flat (as @ q # bs))) u rv loc rc c"
  using res
proof (rule found_below)
  let ?F = "set (flat (as @ q # bs))" and ?G = "set (flat (lq_list q))"
  let ?q = "Location_queue (lq_exact q) (lq_inclusive q) (lq_name q) []"
  show "?G \<subseteq> ?F" "?q \<in> ?F" by (auto simp: flat_Cons)
  show "lq_inclusive ?q = Some c0" "prefix (lq_name ?q) u" "lq_name ?q \<noteq> u" using q by simp_all
  show "prefix (lq_name ?q) (lq_name x)" if "x \<in> ?G" for x
    using that forest_append [OF f] by (auto simp: forest_Cons)
  have less: "lq_name q < u" using prefix_le [OF q(2)] q(3) by simp
  have out: "lq_name x < u \<and> \<not> (lq_inclusive x \<noteq> None \<and> prefix (lq_name x) u) \<or> \<not> prefix (lq_name q) (lq_name x) \<and> \<not> prefix (lq_name x) u"
    if x: "x \<in> ?F - ?G" "lq_name x \<noteq> lq_name q" for x
  proof -
    consider "x \<in> set (flat as)" | "x \<in> set (flat bs)"
      using x by (auto simp: flat_Cons)
    then show ?thesis
    proof cases
      case 1
      then have less': "lq_name x < lq_name q" using in_order_mid [OF s] by simp
      have "\<not> prefix (lq_name x) u" if "lq_inclusive x \<noteq> None"
        using forest_before [OF f 1 that, of ?q] prefixes_less [of "lq_name x" u "lq_name q"] q(2) less'
        by (auto simp: flat_Cons less_imp_le)
      with less less' show ?thesis by auto
    next
      case 2
      then have "\<not> prefix (lq_name q) (lq_name x)" "lq_name q < lq_name x"
        using forest_append [OF f] q(1) in_order_mid [OF s] by (auto simp: forest_Cons)
      then show ?thesis using prefixes_less [of "lq_name q" u "lq_name x"] q(2)
        by (auto simp: less_imp_le)
    qed
  qed
  show "lq_name x \<noteq> u \<and> \<not> (lq_inclusive x \<noteq> None \<and> prefix (lq_name x) u)"
    if "x \<in> ?F - ?G" "lq_name x \<noteq> lq_name ?q" for x
  proof -
    have "lq_name x \<noteq> lq_name q" using that(2) by simp
    from out [OF that(1) this] show ?thesis using q(2) by blast
  qed
  assume "must_redirect ?F u"
  then obtain y ch where y: "y \<in> ?F" "lq_name y = u @ [ch]" "lq_auto_redirect y"
    "\<And>x. x \<in> ?F \<Longrightarrow> u < lq_name x \<Longrightarrow> lq_name y \<le> lq_name x" unfolding must_redirect_def by blast
  have "u < lq_name y" by (simp add: y(2))
  moreover have "prefix (lq_name q) (lq_name y)" using q(2) by (simp add: y(2))
  moreover have "lq_name y \<noteq> lq_name q" using less \<open>u < lq_name y\<close> by auto
  ultimately have "y \<in> ?G" using out [of y] y(1) not_less_iff_gr_or_eq by blast
  then show "must_redirect ?G u"
    unfolding must_redirect_def using y(2-4) \<open>?G \<subseteq> ?F\<close> by blast
qed

lemma found_here:
  assumes s: "in_order (flat (as @ q # bs))" and u: "lq_name q = u"
    and res: "lq_exact q = Some c \<and> rc = Loc_OK \<or> lq_exact q = None \<and> lq_inclusive q = Some c \<and> rc = Loc_AGAIN"
  shows "found (set (flat (as @ q # bs))) u rv loc rc c"
proof -
  have "matched (set (flat (as @ q # bs))) u rc c"
    unfolding matched_def using res u by (auto simp: flat_Cons)
  then show ?thesis unfolding found_def matched_def by auto
qed

lemma append_less [simp]: "p @ a < p @ b \<longleftrightarrow> a < (b :: bytes)"
  by (induction p) auto

text \<open>The search in a tree finds what the queue holds.\<close>

lemma find_static_found:
  "tree_of pre t ls \<Longrightarrow> forest ls \<Longrightarrow> in_order (flat ls) \<Longrightarrow> length p = pre \<Longrightarrow>
   (\<And>x. x \<in> set (flat ls) \<Longrightarrow> prefix p (lq_name x)) \<Longrightarrow>
   \<exists>rc c. find_static v t rv loc = Some (rc, c) \<and> found (set (flat ls)) (p @ v) rv loc rc c"
proof (induction arbitrary: p v rv loc rule: tree_of.induct)
  case (tree_of_Nil pre)
  then show ?case by (auto simp: found_def longest_prefix_def must_redirect_def)
next
  case (tree_of_node pre left as right bs q tree)
  let ?q = "Location_queue (lq_exact q) (lq_inclusive q) (lq_name q) []"
  let ?u = "p @ v"
  note s = tree_of_node.prems(2) and f = tree_of_node.prems(1)
  have f': "forest as" "forest bs" "forest (lq_list q)" "lq_exact q \<noteq> None \<or> lq_inclusive q \<noteq> None"
    "lq_list q \<noteq> [] \<Longrightarrow> lq_inclusive q \<noteq> None"
    using forest_append [OF f] by (auto simp: forest_Cons)
  note s' = in_order_mid(4-6) [OF s]
  have "prefix p (lq_name q)" using tree_of_node.prems(4) [of ?q] by (simp add: flat_Cons)
  then obtain w where w: "lq_name q = p @ w" by (auto elim: prefixE)
  have n: "unat (word_of_nat (length w) :: u_char) = length w" "length (lq_name q) = pre + length w"
    using tree_of_node.hyps(5) tree_of_node.prems(3)
    by (simp_all add: w unsigned_of_nat take_bit_nat_eq_self)
  obtain rc where cmp: "ngx_memcmp v 0 w 0 (if length v \<le> length w then length v else length w) = Some rc"
    and rc: "rc = 0 \<longleftrightarrow> prefix v w \<or> prefix w v" "rc \<noteq> 0 \<Longrightarrow> rc <s 0 \<longleftrightarrow> v < w"
    by (rule ngx_memcmp_min [of v w]) blast
  define auto where "auto = lq_auto_redirect q"
  have node: "make_tree_node q pre left right tree =
      Tree_node left right tree (lq_exact q) (lq_inclusive q) auto (word_of_nat (length w)) w"
    using tree_of_node.prems(3)
    by (auto simp: make_tree_node_def auto_def lq_auto_redirect_def w split: option.splits)
  have pas: "\<And>x. x \<in> set (flat as) \<Longrightarrow> prefix p (lq_name x)" and pbs: "\<And>x. x \<in> set (flat bs) \<Longrightarrow> prefix p (lq_name x)"
    using tree_of_node.prems(4) by (auto simp: flat_Cons)
  note left = tree_of_node.IH(1) [OF f'(1) s'(1) tree_of_node.prems(3) pas, of v]
    and right = tree_of_node.IH(2) [OF f'(2) s'(3) tree_of_node.prems(3) pbs, of v]
  have step: "find_static v (make_tree_node q pre left right tree) rv loc =
      (if rc \<noteq> 0 then (if rc <s 0 then find_static v left rv loc else find_static v right rv loc)
       else if length v > length w then
         (case lq_inclusive q of
            Some c \<Rightarrow> find_static (drop (if length v \<le> length w then length v else length w) v) tree Loc_AGAIN c
          | None \<Rightarrow> find_static v right rv loc)
       else if length v = length w then
         (case lq_exact q of Some c \<Rightarrow> Some (Loc_OK, c) | None \<Rightarrow> map_option (Pair Loc_AGAIN) (lq_inclusive q))
       else if length v + 1 = length w \<and> auto then
         (case lq_clcf q of None \<Rightarrow> None | Some c \<Rightarrow> find_static v left Loc_DONE c)
       else find_static v left rv loc)"
    unfolding node find_static.simps n(1) Let_def cmp Option.bind.simps lq_clcf_def ..
  let ?goal = "\<exists>rc c. find_static v (make_tree_node q pre left right tree) rv loc = Some (rc, c) \<and>
    found (set (flat (as @ q # bs))) ?u rv loc rc c"
  consider (less) "rc \<noteq> 0" "rc <s 0" | (greater) "rc \<noteq> 0" "\<not> rc <s 0"
    | (down) "rc = 0" "length w < length v" | (here) "rc = 0" "length v = length w"
    | (above) "rc = 0" "length v < length w" by linarith
  then show ?goal
  proof cases
    case less
    then have "?u < lq_name q" "\<not> prefix ?u (lq_name q)" using rc by (auto simp: w)
    from left [of rv loc] pas obtain rc' c' where
      res: "find_static v left rv loc = Some (rc', c')" "found (set (flat as)) ?u rv loc rc' c'" by blast
    have "found (set (flat (as @ q # bs))) ?u rv loc rc' c'"
      by (rule found_left [OF f s \<open>?u < lq_name q\<close> res(2)]) (metis \<open>\<not> prefix ?u (lq_name q)\<close> prefixI)
    then show ?thesis using less res(1) by (auto simp: step)
  next
    case greater
    then have "w \<noteq> v" "\<not> v < w" using rc by auto
    then have "lq_name q < ?u" "\<not> prefix (lq_name q) ?u" using rc greater by (auto simp: w)
    then show ?thesis
      using right [of rv loc] greater found_right [OF f s, of ?u rv loc] by (auto simp: step)
  next
    case down
    then have pre: "prefix w v" "w \<noteq> v" using rc by (auto dest: prefix_length_le)
    then have "w < v" using prefix_le [of w v] by simp
    show ?thesis
    proof (cases "lq_inclusive q")
      case None
      then show ?thesis
        using right [of rv loc] down found_right [OF f s, of ?u rv loc] \<open>w < v\<close>
        by (auto simp: step w)
    next
      case (Some c0)
      have v: "v = w @ drop (length w) v" using pre(1) by (auto elim: prefixE)
      have "\<exists>rc c. find_static (drop (length w) v) tree Loc_AGAIN c0 = Some (rc, c) \<and>
          found (set (flat (lq_list q))) (lq_name q @ drop (length w) v) Loc_AGAIN c0 rc c"
        by (rule tree_of_node.IH(3) [OF f'(3) s'(2)])
          (use forest_append [OF f] in \<open>auto simp: forest_Cons\<close>)
      moreover have "lq_name q @ drop (length w) v = ?u" using v by (simp add: w)
      ultimately show ?thesis
        using found_inside [OF f s Some, of ?u _ _ rv loc] down pre
        by (auto simp: step Some w)
    qed
  next
    case here
    then have "w = v" using rc(1) by (auto elim!: prefixE)
    then show ?thesis
      using found_here [OF s, of ?u _ _ rv loc] here f'(4) w
      by (cases "lq_exact q") (auto simp: step)
  next
    case above
    then have pre: "prefix v w" "w \<noteq> v" using rc by (auto dest: prefix_length_le)
    then have "?u < lq_name q" using prefix_le [of v w] by (simp add: w)
    show ?thesis
    proof (cases "length v + 1 = length w \<and> auto")
      case True
      then obtain c0 where c0: "lq_clcf q = Some c0" using lq_auto_redirect_clcf auto_def by blast
      obtain z where "w = v @ z" using pre(1) by (auto elim: prefixE)
      with True obtain ch where "w = v @ [ch]" by (cases z) auto
      then have "lq_name q = ?u @ [ch]" by (simp add: w)
      moreover from left [of Loc_DONE c0] pas obtain rc' c' where
        res: "find_static v left Loc_DONE c0 = Some (rc', c')" "found (set (flat as)) ?u Loc_DONE c0 rc' c'" by blast
      ultimately have "found (set (flat (as @ q # bs))) ?u rv loc rc' c'"
        using found_left_redirect [OF f s _ _ c0 res(2)] True auto_def by blast
      then show ?thesis using above True c0 res(1) by (auto simp: step)
    next
      case False
      from left [of rv loc] pas obtain rc' c' where
        res: "find_static v left rv loc = Some (rc', c')" "found (set (flat as)) ?u rv loc rc' c'" by blast
      have "found (set (flat (as @ q # bs))) ?u rv loc rc' c'"
        by (rule found_left [OF f s \<open>?u < lq_name q\<close> res(2)]) (use False in \<open>auto simp: w auto_def\<close>)
      then show ?thesis using above False res(1) by (auto simp: step)
    qed
  qed
qed

section \<open>From the queue to the tree\<close>

text \<open>A queue element as \<open>ngx_http_add_location\<close> makes it or as the join leaves it.\<close>

definition plain :: "('re, 'c) location_queue \<Rightarrow> bool" where
  "plain q \<longleftrightarrow> lq_list q = [] \<and> (lq_exact q \<noteq> None \<or> lq_inclusive q \<noteq> None) \<and> 0 \<notin> set (lq_name q)"

lemma flat_plain: "\<forall>q \<in> set qs. plain q \<Longrightarrow> flat qs = qs"
  by (induction qs rule: flat.induct) (auto simp: plain_def)

lemma ngx_strncmp_zero:
  "s + n \<le> length a \<Longrightarrow> s + n \<le> length b \<Longrightarrow> 0 \<notin> set a \<Longrightarrow>
   ngx_strncmp (a @ [0]) s (b @ [0]) s n = Some 0 \<longleftrightarrow> take n (drop s a) = take n (drop s b)"
proof (induction n arbitrary: s)
  case (Suc n)
  then have s: "s < length a" "s < length b" by simp_all
  then have d: "drop s a = a ! s # drop (Suc s) a" "drop s b = b ! s # drop (Suc s) b"
    by (simp_all add: Cons_nth_drop_Suc)
  have "a ! s \<noteq> 0" using s(1) Suc.prems(3) by (metis nth_mem)
  moreover have "ngx_strncmp (a @ [0]) (Suc s) (b @ [0]) (Suc s) n = Some 0 \<longleftrightarrow>
      take n (drop (Suc s) a) = take n (drop (Suc s) b)"
    by (rule Suc.IH) (use Suc.prems in auto)
  ultimately show ?case using s by (simp add: d nth_append)
qed simp

lemma in_location_iff:
  assumes "0 \<notin> set (lq_name q)"
  shows "in_location q x \<longleftrightarrow> prefix (lq_name q) (lq_name x)"
proof (cases "length (lq_name q) \<le> length (lq_name x)")
  case True
  then have "in_location q x \<longleftrightarrow> lq_name q = take (length (lq_name q)) (lq_name x)"
    using ngx_strncmp_zero [of 0 "length (lq_name q)" "lq_name q" "lq_name x"] assms
    by (auto simp: in_location_def Let_def)
  then show ?thesis by (metis take_is_prefix prefixE append_eq_conv_conj)
next
  case False
  then show ?thesis by (auto simp: in_location_def Let_def dest: prefix_length_le)
qed

text \<open>In an ordered queue the elements inside a location follow it without a gap.\<close>

lemma takeWhile_prefix:
  assumes "in_order (q # qs)"
  shows "\<forall>x \<in> set (dropWhile (\<lambda>x. prefix (lq_name q) (lq_name x)) qs). \<not> prefix (lq_name q) (lq_name x)"
  using assms
proof (induction qs)
  case (Cons y qs)
  show ?case
  proof (cases "prefix (lq_name q) (lq_name y)")
    case False
    have "\<not> prefix (lq_name q) (lq_name x)" if "x \<in> set qs" for x
    proof -
      have "lq_name q < lq_name y" "lq_name y < lq_name x" using Cons.prems that by simp_all
      then have "lq_name q \<le> lq_name y" "lq_name y \<le> lq_name x" using less_imp_le by blast+
      from prefix_between [OF this] False show ?thesis by blast
    qed
    with False show ?thesis by auto
  next
    case True
    have "in_order (q # qs)" using Cons.prems by simp
    from Cons.IH [OF this] show ?thesis using True by (simp only: dropWhile.simps if_True)
  qed
qed simp

lemma create_list_forest:
  "in_order ls \<Longrightarrow> \<forall>q \<in> set ls. plain q \<Longrightarrow>
   flat (ngx_http_create_locations_list ls) = ls \<and> forest (ngx_http_create_locations_list ls)"
proof (induction ls rule: ngx_http_create_locations_list.induct)
  case (2 q)
  then show ?case by (cases q) (simp add: plain_def)
next
  case (3 q y ls)
  let ?in = "takeWhile (in_location q) (y # ls)" and ?out = "dropWhile (in_location q) (y # ls)"
  have q: "plain q" "0 \<notin> set (lq_name q)" "lq_list q = []" using 3(6) by (auto simp: plain_def)
  have e: "in_location q = (\<lambda>x. prefix (lq_name q) (lq_name x))"
    using in_location_iff [OF q(2)] by (simp add: fun_eq_iff)
  have split: "?in @ ?out = y # ls" by (rule takeWhile_dropWhile_id)
  have tail: "in_order (y # ls)" "\<forall>x \<in> set (y # ls). plain x" using 3(5,6) by auto
  then have "in_order (?in @ ?out)" "\<forall>x \<in> set (?in @ ?out). plain x" by (simp_all only: split)
  then have parts: "in_order ?in" "in_order ?out" "\<forall>x \<in> set ?in. plain x" "\<forall>x \<in> set ?out. plain x"
    by (simp_all only: sorted_wrt_append set_append) blast+
  have inside: "\<forall>x \<in> set ?in. prefix (lq_name q) (lq_name x)"
    unfolding e by (metis set_takeWhileD)
  have outside: "\<forall>x \<in> set ?out. \<not> prefix (lq_name q) (lq_name x)"
    unfolding e by (rule takeWhile_prefix [OF 3(5)])
  show ?case
  proof (cases "lq_inclusive q = None")
    case True
    with 3(1) tail q show ?thesis by (cases q) (auto simp: plain_def)
  next
    case inc: False
    show ?thesis
    proof (cases "?in = []")
      case True
      then have out: "?out = y # ls" using split by simp
      have "flat (ngx_http_create_locations_list ?out) = ?out \<and> forest (ngx_http_create_locations_list ?out)"
        by (rule 3(2) [OF inc refl refl True parts(2,4)])
      then show ?thesis using inc True out outside q
        by (cases q) (auto simp: Let_def plain_def)
    next
      case False
      have "flat (ngx_http_create_locations_list ?in) = ?in \<and> forest (ngx_http_create_locations_list ?in)"
        using 3(3) [OF inc refl refl False] parts(1,3) q by simp
      moreover have "flat (ngx_http_create_locations_list ?out) = ?out \<and> forest (ngx_http_create_locations_list ?out)"
        if "?out \<noteq> []"
        by (rule 3(4) [OF inc refl refl False refl that parts(2,4)])
      ultimately show ?thesis using inc False split inside outside q
        by (cases q) (auto simp: Let_def plain_def simp del: takeWhile.simps dropWhile.simps)
    qed
  qed
qed simp

text \<open>What the elements of a queue stand for.\<close>

definition exacts :: "('re, 'c) location_queue list \<Rightarrow> (bytes \<times> ('re, 'c) clcf) set" where
  "exacts ls = {(lq_name q, c) | q c. q \<in> set ls \<and> lq_exact q = Some c}"

definition inclusives :: "('re, 'c) location_queue list \<Rightarrow> (bytes \<times> ('re, 'c) clcf) set" where
  "inclusives ls = {(lq_name q, c) | q c. q \<in> set ls \<and> lq_inclusive q = Some c}"

lemma exacts_Cons: "exacts (q # ls) = (case lq_exact q of None \<Rightarrow> {} | Some c \<Rightarrow> {(lq_name q, c)}) \<union> exacts ls"
  by (auto simp: exacts_def split: option.splits)

lemma inclusives_Cons:
  "inclusives (q # ls) = (case lq_inclusive q of None \<Rightarrow> {} | Some c \<Rightarrow> {(lq_name q, c)}) \<union> inclusives ls"
  by (auto simp: inclusives_def split: option.splits)

text \<open>The order the sort leaves: by name, and the exact one of two equal names first.\<close>

definition join_order :: "('re, 'c) location_queue \<Rightarrow> ('re, 'c) location_queue \<Rightarrow> bool" where
  "join_order a b \<longleftrightarrow> lq_name a < lq_name b \<or>
     lq_name a = lq_name b \<and> (lq_exact a = None \<longrightarrow> lq_exact b = None)"

lemma join_exact_locations:
  "ngx_http_join_exact_locations ls = Some ls' \<Longrightarrow> sorted_wrt join_order ls \<Longrightarrow> \<forall>q \<in> set ls. plain q \<Longrightarrow>
   in_order ls' \<and> (\<forall>q \<in> set ls'. plain q) \<and> exacts ls' = exacts ls \<and> inclusives ls' = inclusives ls \<and>
   lq_name ` set ls' = lq_name ` set ls"
proof (induction ls arbitrary: ls' rule: ngx_http_join_exact_locations.induct)
  case (3 q x ls)
  have p: "plain q" "plain x" "0 \<notin> set (lq_name q)" "0 \<notin> set (lq_name x)"
    using 3(5) by (simp_all add: plain_def)
  have eq: "ngx_strcmp (lq_name q) (lq_name x) = 0 \<longleftrightarrow> lq_name q = lq_name x"
    using p by (simp add: ngx_strcmp_zero)
  show ?case
  proof (cases "lq_name q = lq_name x")
    case True
    let ?q = "Location_queue (lq_exact q) (lq_inclusive x) (lq_name q) (lq_list q)"
    have no: "\<not> (lq_exact q \<noteq> None \<and> lq_exact x \<noteq> None \<or> lq_inclusive q \<noteq> None \<and> lq_inclusive x \<noteq> None)"
      using 3(3) True eq by (auto split: if_splits)
    have j: "join_order q x" using 3(4) by simp
    then have "lq_exact q \<noteq> None \<and> lq_exact x = None \<and> lq_inclusive q = None \<and> lq_inclusive x \<noteq> None"
      using no p True by (auto simp: join_order_def plain_def)
    then have ex: "lq_exact q \<noteq> None" "lq_exact x = None" "lq_inclusive q = None" by simp_all
    have "plain ?q" using p by (simp add: plain_def ex)
    moreover have "join_order ?q y \<longleftrightarrow> join_order q y" for y by (simp add: join_order_def)
    then have "sorted_wrt join_order (?q # ls)" using 3(4) by simp
    moreover have "ngx_http_join_exact_locations (?q # ls) = Some ls'"
      using 3(3) True eq no by (auto split: if_splits)
    ultimately have "in_order ls' \<and> (\<forall>q \<in> set ls'. plain q) \<and> exacts ls' = exacts (?q # ls) \<and>
        inclusives ls' = inclusives (?q # ls) \<and> lq_name ` set ls' = lq_name ` set (?q # ls)"
      using 3(1) [of ls'] True eq no 3(5) by simp
    then show ?thesis using ex True by (auto simp: exacts_Cons inclusives_Cons split: option.splits)
  next
    case False
    with 3(3) eq obtain l' where l': "ngx_http_join_exact_locations (x # ls) = Some l'" "ls' = q # l'" by auto
    have IH: "in_order l' \<and> (\<forall>q \<in> set l'. plain q) \<and> exacts l' = exacts (x # ls) \<and>
        inclusives l' = inclusives (x # ls) \<and> lq_name ` set l' = lq_name ` set (x # ls)"
      using 3(2) [OF _ l'(1)] False eq 3(4,5) by simp
    have "lq_name q < lq_name y" if "y \<in> set l'" for y
    proof -
      have "lq_name y \<in> lq_name ` set (x # ls)" using IH that by (metis imageI)
      then obtain z where z: "z \<in> set (x # ls)" "lq_name y = lq_name z" by blast
      have "lq_name q < lq_name x" using 3(4) False by (simp add: join_order_def)
      moreover have "lq_name x \<le> lq_name z" using 3(4) z(1) by (auto simp: join_order_def)
      ultimately show ?thesis using z(2) by simp
    qed
    with IH p(1) have "in_order ls'" "\<forall>q \<in> set ls'. plain q" by (simp_all add: l'(2))
    moreover have "exacts ls' = exacts (q # x # ls)" "inclusives ls' = inclusives (q # x # ls)"
      using IH by (simp_all only: l'(2) exacts_Cons inclusives_Cons)
    moreover have "lq_name ` set ls' = lq_name ` set (q # x # ls)"
      using IH by (simp only: l'(2) list.simps image_insert)
    ultimately show ?thesis by blast
  qed
qed auto

section \<open>The specification of a level\<close>

text \<open>The queue element of a location.\<close>

definition lq_of :: "('re, 'c) clcf \<Rightarrow> ('re, 'c) location_queue" where
  "lq_of c = (if lc_exact_match c \<or> lc_regex c \<noteq> None \<or> lc_named c \<or> lc_noname c
     then Location_queue (Some c) None (lc_name c) []
     else Location_queue None (Some c) (lc_name c) [])"

lemma ngx_http_add_location_eq:
  "ngx_http_add_location palloc None c = (if palloc 72 then Some [lq_of c] else None)"
  "ngx_http_add_location palloc (Some ls) c = (if palloc 72 then Some (ls @ [lq_of c]) else None)"
  by (simp_all add: ngx_http_add_location_def lq_of_def)

lemma lq_of_simps [simp]: "lq_name (lq_of c) = lc_name c" "lq_clcf (lq_of c) = Some c" "lq_list (lq_of c) = []"
  by (simp_all add: lq_of_def lq_clcf_def)

definition is_static :: "('re, 'c) clcf \<Rightarrow> bool" where
  "is_static c \<longleftrightarrow> \<not> lc_noname c \<and> \<not> lc_named c \<and> lc_regex c = None"

text \<open>
  What a URI finds among the static locations \<open>C\<close>: a location of that name, the exact one if there
  is one; else a redirect to an automatically redirecting location whose name has one character
  more; else the longest inclusive prefix, or nothing. The redirect takes place at least if no
  other name that extends the URI comes before it.
\<close>

definition location_matched :: "('re, 'c) clcf set \<Rightarrow> bytes \<Rightarrow> loc_rc \<Rightarrow> ('re, 'c) clcf \<Rightarrow> bool" where
  "location_matched C u rc c \<longleftrightarrow> c \<in> C \<and> lc_name c = u \<and>
     (if lc_exact_match c then rc = Loc_OK
      else rc = Loc_AGAIN \<and> (\<forall>x \<in> C. lc_exact_match x \<longrightarrow> lc_name x \<noteq> u))"

definition location_redirected :: "('re, 'c) clcf set \<Rightarrow> bytes \<Rightarrow> loc_rc \<Rightarrow> ('re, 'c) clcf \<Rightarrow> bool" where
  "location_redirected C u rc c \<longleftrightarrow> rc = Loc_DONE \<and> c \<in> C \<and> (\<exists>ch. lc_name c = u @ [ch]) \<and>
     (\<exists>x \<in> C. lc_name x = lc_name c \<and> lc_auto_redirect x) \<and>
     (lc_exact_match c \<or> (\<forall>x \<in> C. lc_exact_match x \<longrightarrow> lc_name x \<noteq> lc_name c))"

definition location_prefix ::
  "('re, 'c) clcf set \<Rightarrow> bytes \<Rightarrow> ('re, 'c) clcf \<Rightarrow> loc_rc \<Rightarrow> ('re, 'c) clcf \<Rightarrow> bool" where
  "location_prefix C u loc rc c \<longleftrightarrow>
     (c \<in> C \<and> \<not> lc_exact_match c \<and> prefix (lc_name c) u \<and> rc = Loc_AGAIN \<and>
        (\<forall>x \<in> C. \<not> lc_exact_match x \<and> prefix (lc_name x) u \<longrightarrow> prefix (lc_name x) (lc_name c))) \<or>
     (\<forall>x \<in> C. \<not> lc_exact_match x \<longrightarrow> \<not> prefix (lc_name x) u) \<and> rc = Loc_DECLINED \<and> c = loc"

definition redirect_next :: "('re, 'c) clcf set \<Rightarrow> bytes \<Rightarrow> bool" where
  "redirect_next C u \<longleftrightarrow> (\<exists>x \<in> C. \<exists>ch. lc_name x = u @ [ch] \<and> lc_auto_redirect x \<and>
     (\<forall>y \<in> C. strict_prefix u (lc_name y) \<longrightarrow> u @ [ch] \<le> lc_name y))"

definition location_found ::
  "('re, 'c) clcf set \<Rightarrow> bytes \<Rightarrow> ('re, 'c) clcf \<Rightarrow> loc_rc \<Rightarrow> ('re, 'c) clcf \<Rightarrow> bool" where
  "location_found C u loc rc c \<longleftrightarrow>
     (if \<exists>x \<in> C. lc_name x = u then location_matched C u rc c
      else location_redirected C u rc c \<or> location_prefix C u loc rc c \<and> \<not> redirect_next C u)"

lemma lq_of_static:
  "is_static c \<Longrightarrow> lq_exact (lq_of c) = (if lc_exact_match c then Some c else None)"
  "is_static c \<Longrightarrow> lq_inclusive (lq_of c) = (if lc_exact_match c then None else Some c)"
  by (simp_all add: lq_of_def is_static_def)

lemma exacts_lq_of:
  "\<forall>c \<in> set cs. is_static c \<Longrightarrow> exacts (map lq_of cs) = {(lc_name c, c) | c. c \<in> set cs \<and> lc_exact_match c}"
  by (induction cs) (auto simp: exacts_Cons lq_of_static, simp add: exacts_def)

lemma inclusives_lq_of:
  "\<forall>c \<in> set cs. is_static c \<Longrightarrow>
   inclusives (map lq_of cs) = {(lc_name c, c) | c. c \<in> set cs \<and> \<not> lc_exact_match c}"
  by (induction cs) (auto simp: inclusives_Cons lq_of_static, simp add: inclusives_def)

lemma in_order_unique: "in_order ls \<Longrightarrow> q \<in> set ls \<Longrightarrow> x \<in> set ls \<Longrightarrow> lq_name q = lq_name x \<Longrightarrow> q = x"
proof (induction ls)
  case (Cons y ls)
  then have "lq_name y < lq_name z" if "z \<in> set ls" for z using that by simp
  with Cons show ?case by (metis less_irrefl set_ConsD sorted_wrt.simps(2))
qed simp

lemma found_location_found:
  assumes "in_order ls" and "\<forall>c \<in> set cs. is_static c"
    and ex: "exacts ls = exacts (map lq_of cs)" and inc: "inclusives ls = inclusives (map lq_of cs)"
    and names: "lq_name ` set ls = lq_name ` set (map lq_of cs)"
    and "found (set ls) u Loc_DECLINED loc rc c"
  shows "location_found (set cs) u loc rc c"
proof -
  let ?C = "set cs" and ?F = "set ls"
  have E: "lq_exact q = Some c \<longleftrightarrow> c \<in> ?C \<and> lc_exact_match c \<and> lc_name c = lq_name q" if "q \<in> ?F" for q c
  proof
    assume "lq_exact q = Some c"
    then have "(lq_name q, c) \<in> exacts ls" using that by (auto simp: exacts_def)
    then show "c \<in> ?C \<and> lc_exact_match c \<and> lc_name c = lq_name q"
      using ex exacts_lq_of [OF assms(2)] by auto
  next
    assume "c \<in> ?C \<and> lc_exact_match c \<and> lc_name c = lq_name q"
    then have "(lq_name q, c) \<in> exacts ls" using ex exacts_lq_of [OF assms(2)] by auto
    then show "lq_exact q = Some c" using in_order_unique [OF assms(1) that] by (auto simp: exacts_def)
  qed
  have I: "lq_inclusive q = Some c \<longleftrightarrow> c \<in> ?C \<and> \<not> lc_exact_match c \<and> lc_name c = lq_name q" if "q \<in> ?F" for q c
  proof
    assume "lq_inclusive q = Some c"
    then have "(lq_name q, c) \<in> inclusives ls" using that by (auto simp: inclusives_def)
    then show "c \<in> ?C \<and> \<not> lc_exact_match c \<and> lc_name c = lq_name q"
      using inc inclusives_lq_of [OF assms(2)] by auto
  next
    assume "c \<in> ?C \<and> \<not> lc_exact_match c \<and> lc_name c = lq_name q"
    then have "(lq_name q, c) \<in> inclusives ls" using inc inclusives_lq_of [OF assms(2)] by auto
    then show "lq_inclusive q = Some c" using in_order_unique [OF assms(1) that] by (auto simp: inclusives_def)
  qed
  have N: "lq_name ` ?F = lc_name ` ?C" using names by (auto simp: image_image)
  have E0: "lq_exact q = None \<longleftrightarrow> (\<forall>x \<in> ?C. lc_exact_match x \<longrightarrow> lc_name x \<noteq> lq_name q)" if "q \<in> ?F" for q
    using E [OF that] by (metis not_None_eq)
  have I0: "lq_inclusive q \<noteq> None \<longleftrightarrow> (\<exists>x \<in> ?C. \<not> lc_exact_match x \<and> lc_name x = lq_name q)" if "q \<in> ?F" for q
    using I [OF that] by (metis not_None_eq)
  have A: "lq_auto_redirect q \<longleftrightarrow> (\<exists>x \<in> ?C. lc_name x = lq_name q \<and> lc_auto_redirect x)" if "q \<in> ?F" for q
    using E [OF that] I [OF that] by (auto simp: lq_auto_redirect_def)
  have named: "\<exists>q \<in> ?F. lq_name q = lc_name x" if "x \<in> ?C" for x
    using N that by (metis imageE imageI)
  have m: "matched ?F u rc c \<Longrightarrow> location_matched ?C u rc c"
    unfolding matched_def location_matched_def using E I E0 by auto
  have r: "redirected ?F u rc c \<Longrightarrow> location_redirected ?C u rc c"
  proof -
    assume "redirected ?F u rc c"
    then obtain q ch where q: "rc = Loc_DONE" "q \<in> ?F" "lq_name q = u @ [ch]" "lq_auto_redirect q" "lq_clcf q = Some c"
      unfolding redirected_def by blast
    have "c \<in> ?C \<and> lc_name c = lq_name q \<and> (lc_exact_match c \<or> (\<forall>x \<in> ?C. lc_exact_match x \<longrightarrow> lc_name x \<noteq> lc_name c))"
    proof -
      from q(5) have "lq_exact q = Some c \<or> lq_exact q = None \<and> lq_inclusive q = Some c"
        by (auto simp: lq_clcf_def split: if_splits)
      then show ?thesis using E [OF q(2), of c] I [OF q(2), of c] E0 [OF q(2)] by metis
    qed
    then show ?thesis
      unfolding location_redirected_def using q A [OF q(2)] by auto
  qed
  have p: "longest_prefix ?F u Loc_DECLINED loc rc c \<Longrightarrow> location_prefix ?C u loc rc c"
  proof -
    assume "longest_prefix ?F u Loc_DECLINED loc rc c"
    then show ?thesis
      unfolding longest_prefix_def
    proof (elim disjE bexE conjE)
      fix q
      assume q: "q \<in> ?F" "lq_inclusive q = Some c" "prefix (lq_name q) u" "rc = Loc_AGAIN"
        and *: "\<forall>x \<in> ?F. lq_inclusive x \<noteq> None \<and> prefix (lq_name x) u \<longrightarrow> prefix (lq_name x) (lq_name q)"
      have "prefix (lc_name x) (lq_name q)" if x: "x \<in> ?C" "\<not> lc_exact_match x" "prefix (lc_name x) u" for x
      proof -
        obtain y where y: "y \<in> ?F" "lq_name y = lc_name x" using named [OF x(1)] by blast
        then have "lq_inclusive y \<noteq> None" using I0 [OF y(1)] x by auto
        with * y x(3) show ?thesis by metis
      qed
      with q I [OF q(1)] show ?thesis unfolding location_prefix_def by auto
    next
      assume *: "\<forall>x \<in> ?F. lq_inclusive x \<noteq> None \<longrightarrow> \<not> prefix (lq_name x) u" "rc = Loc_DECLINED" "c = loc"
      have "\<not> prefix (lc_name x) u" if x: "x \<in> ?C" "\<not> lc_exact_match x" for x
      proof -
        obtain y where y: "y \<in> ?F" "lq_name y = lc_name x" using named [OF x(1)] by blast
        then have "lq_inclusive y \<noteq> None" using I0 [OF y(1)] x by auto
        with * y show ?thesis by metis
      qed
      with * show ?thesis unfolding location_prefix_def by auto
    qed
  qed
  have n: "redirect_next ?C u \<Longrightarrow> must_redirect ?F u"
  proof -
    assume "redirect_next ?C u"
    then obtain x ch where x: "x \<in> ?C" "lc_name x = u @ [ch]" "lc_auto_redirect x"
      and *: "\<And>y. y \<in> ?C \<Longrightarrow> strict_prefix u (lc_name y) \<Longrightarrow> u @ [ch] \<le> lc_name y"
      unfolding redirect_next_def by blast
    obtain q where q: "q \<in> ?F" "lq_name q = lc_name x" using named [OF x(1)] by blast
    have "u @ [ch] \<le> lq_name y" if y: "y \<in> ?F" "u < lq_name y" for y
    proof (cases "prefix u (lq_name y)")
      case True
      obtain z where "z \<in> ?C" "lc_name z = lq_name y" using N y(1) by (metis imageE imageI)
      with * [of z] True y(2) show ?thesis by (auto simp: strict_prefix_def)
    next
      case False
      with prefix_extend_less [OF y(2), of "u @ [ch]"] show ?thesis by (simp add: less_imp_le)
    qed
    with q x A [OF q(1)] show ?thesis unfolding must_redirect_def by auto
  qed
  have "(\<exists>q \<in> ?F. lq_name q = u) \<longleftrightarrow> (\<exists>x \<in> ?C. lc_name x = u)" using N by (metis imageE imageI)
  then show ?thesis using assms(6) m r p n unfolding found_def location_found_def by (auto split: if_splits)
qed


text \<open>
  The static locations \<open>cs\<close> of a level, sorted, joined and put into a tree: every search returns, and
  with what the specification says.
\<close>

lemma static_level:
  assumes "\<forall>c \<in> set cs. is_static c \<and> 0 \<notin> set (lc_name c) \<and> length (lc_name c) < 256"
    and "sorted_wrt join_order (map lq_of cs)"
    and "ngx_http_join_exact_locations (map lq_of cs) = Some ls"
    and "ngx_http_create_locations_tree palloc (ngx_http_create_locations_list ls) 0 = Done t"
  shows "\<exists>rc c. ngx_http_core_find_static_location u t loc = Some (rc, c) \<and> location_found (set cs) u loc rc c"
proof -
  have plain: "\<forall>q \<in> set (map lq_of cs). plain q"
    using assms(1) by (auto simp: plain_def lq_of_def)
  have join: "in_order ls" "\<forall>q \<in> set ls. plain q" "exacts ls = exacts (map lq_of cs)"
    "inclusives ls = inclusives (map lq_of cs)" "lq_name ` set ls = lq_name ` set (map lq_of cs)"
    using join_exact_locations [OF assms(3,2) plain] by blast+
  let ?ls = "ngx_http_create_locations_list ls"
  have forest: "flat ?ls = ls" "forest ?ls" using create_list_forest [OF join(1,2)] by blast+
  have "length (lq_name x) < 256" if "x \<in> set (flat ?ls)" for x
  proof -
    have "lq_name x \<in> lc_name ` set cs"
    proof -
      have "lq_name ` set ls = lc_name ` set cs" using join(5) by (simp add: image_image)
      then show ?thesis using that unfolding forest(1) by blast
    qed
    then show ?thesis using assms(1) by auto
  qed
  then have tree: "tree_of 0 t ?ls" by (rule create_tree_tree_of [OF assms(4)])
  obtain rc c where "find_static u t Loc_DECLINED loc = Some (rc, c)" "found (set ls) u Loc_DECLINED loc rc c"
    using find_static_found [OF tree forest(2), of "[]" u Loc_DECLINED loc] join(1) forest(1) by auto
  then show ?thesis
    using found_location_found [OF join(1) _ join(3-5)] assms(1)
    by (auto simp: ngx_http_core_find_static_location_def)
qed

end
