(* ===== verification/Ngx_Http_Location_Routes.thy ===== *)
theory Ngx_Http_Location_Routes
  imports Ngx_Http_Location_Tree
begin

text \<open>
  All levels of locations: what \<open>ngx_http_init_locations\<close> and
  \<open>ngx_http_init_static_location_trees\<close> make of a configuration file, the specification \<open>routes\<close> of
  the search for a request, and the properties of the router.
\<close>

section \<open>Initialisation\<close>

declare ngx_http_init_locations.simps [simp del] ngx_http_init_static_location_trees.simps [simp del]
  ngx_http_core_find_location.simps [simp del]

text \<open>The fields that come from the configuration file; the initialisation keeps them.\<close>

definition core :: "('re, 'c) clcf \<Rightarrow> 'c \<times> bytes \<times> bool \<times> bool \<times> bool \<times> bool \<times> bool \<times> 're option" where
  "core c = (lc_conf c, lc_name c, lc_noname c, lc_named c, lc_exact_match c, lc_noregex c,
     lc_auto_redirect c, lc_regex c)"

lemma core_fields:
  assumes "core a = core b"
  shows "lc_name a = lc_name b" "lc_noname a = lc_noname b" "lc_named a = lc_named b"
    "lc_exact_match a = lc_exact_match b" "lc_noregex a = lc_noregex b"
    "lc_auto_redirect a = lc_auto_redirect b" "lc_regex a = lc_regex b" "is_static a = is_static b"
  using assms by (simp_all add: core_def is_static_def)

lemma core_set [simp]: "core (set_locations ls c) = core c" "core (set_static_locations t c) = core c"
  "core (set_regex_locations cs c) = core c"
  by (cases c; simp add: core_def)+

lemma set_clcf_simps [simp]:
  "lc_locations (set_locations ls c) = Some ls" "lc_static_locations (set_locations ls c) = lc_static_locations c"
  "lc_regex_locations (set_locations ls c) = lc_regex_locations c"
  "lc_static_locations (set_static_locations t c) = t" "lc_regex_locations (set_static_locations t c) = lc_regex_locations c"
  "lc_locations (set_static_locations t c) = lc_locations c"
  "lc_regex_locations (set_regex_locations cs c) = Some cs" "lc_locations (set_regex_locations cs c) = lc_locations c"
  "lc_static_locations (set_regex_locations cs c) = lc_static_locations c"
  by (cases c; simp)+

lemma lq_update_lq_of: "core c' = core c \<Longrightarrow> lq_update c' (lq_of c) = lq_of c'"
  using core_fields [of c' c] by (simp add: lq_of_def)

lemma init_locations_core:
  "ngx_http_init_locations palloc cscf c = Done (c', nl) \<Longrightarrow> core c' = core c"
  by (subst (asm) ngx_http_init_locations.simps) (auto simp: Let_def split: option.splits if_splits)


text \<open>The loop over a sorted queue, stretch by stretch.\<close>

abbreviation initialised :: "(nat \<Rightarrow> bool) \<Rightarrow> ('re, 'c) clcf \<Rightarrow> ('re, 'c) clcf \<Rightarrow> bool" where
  "initialised palloc c c' \<equiv> \<exists>nl. ngx_http_init_locations palloc False c = Done (c', nl)"

lemma init_loop_static:
  "\<forall>c \<in> set cs. is_static c \<Longrightarrow>
   init_loop palloc (map lq_of cs @ qs) i named n regex r = Done (qs', res) \<Longrightarrow>
   \<exists>cs' rest. qs' = map lq_of cs' @ rest \<and> list_all2 (initialised palloc) cs cs' \<and>
     init_loop palloc qs (i + length cs) named n regex r = Done (rest, res)"
proof (induction cs arbitrary: i qs')
  case (Cons c cs)
  then obtain c' nl rest where c': "ngx_http_init_locations palloc False c = Done (c', nl)"
    and "init_loop palloc (map lq_of cs @ qs) (i + 1) named n regex r = Done (rest, res)"
    and "qs' = lq_update c' (lq_of c) # rest"
    by (auto simp: is_static_def Let_def)
  with Cons.IH [of "i + 1" rest] Cons.prems(1) lq_update_lq_of [OF init_locations_core [OF c']]
  show ?case by (fastforce intro: exI [of _ "c' # _"])
qed auto

lemma init_loop_regex:
  "\<forall>c \<in> set cs. lc_regex c \<noteq> None \<Longrightarrow>
   init_loop palloc (map lq_of cs @ qs) i named n regex r = Done (qs', res) \<Longrightarrow>
   \<exists>cs' rest. qs' = map lq_of cs' @ rest \<and> list_all2 (initialised palloc) cs cs' \<and>
     init_loop palloc qs (i + length cs) named n
       (if cs = [] \<or> regex \<noteq> None then regex else Some i) (r + length cs) = Done (rest, res)"
proof (induction cs arbitrary: i regex r qs')
  case (Cons c cs)
  then obtain c' nl rest where c': "ngx_http_init_locations palloc False c = Done (c', nl)"
    and l: "init_loop palloc (map lq_of cs @ qs) (i + 1) named n (if regex = None then Some i else regex) (r + 1)
        = Done (rest, res)"
    and qs': "qs' = lq_update c' (lq_of c) # rest"
    by (auto simp: Let_def)
  from Cons.IH [OF _ l] Cons.prems(1) obtain cs' rest' where
    "rest = map lq_of cs' @ rest'" "list_all2 (initialised palloc) cs cs'"
    "init_loop palloc qs (i + 1 + length cs) named n (if regex = None then Some i else regex) (r + 1 + length cs)
      = Done (rest', res)" by (auto split: if_splits)
  with c' qs' lq_update_lq_of [OF init_locations_core [OF c']] show ?case
    by (intro exI [of _ "c' # cs'"] exI [of _ rest'])
      (auto split: if_splits)
qed auto

lemma init_loop_named:
  "\<forall>c \<in> set cs. lc_regex c = None \<and> lc_named c \<Longrightarrow>
   init_loop palloc (map lq_of cs @ qs) i named n regex r = Done (qs', res) \<Longrightarrow>
   \<exists>cs' rest. qs' = map lq_of cs' @ rest \<and> list_all2 (initialised palloc) cs cs' \<and>
     init_loop palloc qs (i + length cs)
       (if cs = [] \<or> named \<noteq> None then named else Some i) (n + length cs) regex r = Done (rest, res)"
proof (induction cs arbitrary: i named n qs')
  case (Cons c cs)
  then obtain c' nl rest where c': "ngx_http_init_locations palloc False c = Done (c', nl)"
    and l: "init_loop palloc (map lq_of cs @ qs) (i + 1) (if named = None then Some i else named) (n + 1) regex r
        = Done (rest, res)"
    and qs': "qs' = lq_update c' (lq_of c) # rest"
    by (auto simp: Let_def)
  from Cons.IH [OF _ l] Cons.prems(1) obtain cs' rest' where
    "rest = map lq_of cs' @ rest'" "list_all2 (initialised palloc) cs cs'"
    "init_loop palloc qs (i + 1 + length cs) (if named = None then Some i else named) (n + 1 + length cs) regex r
      = Done (rest', res)" by (auto split: if_splits)
  with c' qs' lq_update_lq_of [OF init_locations_core [OF c']] show ?case
    by (intro exI [of _ "c' # cs'"] exI [of _ rest'])
      (auto split: if_splits)
qed auto

lemma init_loop_noname:
  "\<forall>c \<in> set cs. lc_regex c = None \<and> \<not> lc_named c \<and> lc_noname c \<Longrightarrow>
   init_loop palloc (map lq_of cs) i named n regex r = Done (qs', res) \<Longrightarrow>
   res = (i, named, n, regex, r)"
  by (cases cs) (auto simp: Let_def)

lemma init_loop_kinds:
  assumes "\<forall>c \<in> set S. is_static c" and "\<forall>c \<in> set R. lc_regex c \<noteq> None"
    and "\<forall>c \<in> set N. lc_regex c = None \<and> lc_named c"
    and "\<forall>c \<in> set Z. lc_regex c = None \<and> \<not> lc_named c \<and> lc_noname c"
    and "init_loop palloc (map lq_of (S @ R @ N @ Z)) 0 None 0 None 0 = Done (qs, q, named, n, regex, r)"
  obtains S' R' N' rest where "qs = map lq_of (S' @ R' @ N') @ rest"
    and "list_all2 (initialised palloc) S S'" and "list_all2 (initialised palloc) R R'"
    and "list_all2 (initialised palloc) N N'" and "q = length S + length R + length N"
    and "named = (if N = [] then None else Some (length S + length R))" and "n = length N"
    and "regex = (if R = [] then None else Some (length S))" and "r = length R"
proof -
  from assms(5) have "init_loop palloc (map lq_of S @ map lq_of (R @ N @ Z)) 0 None 0 None 0
      = Done (qs, q, named, n, regex, r)" by simp
  from init_loop_static [OF assms(1) this] obtain S' q1 where
    1: "qs = map lq_of S' @ q1" "list_all2 (initialised palloc) S S'"
      "init_loop palloc (map lq_of R @ map lq_of (N @ Z)) (length S) None 0 None 0 = Done (q1, q, named, n, regex, r)"
    by auto
  from init_loop_regex [OF assms(2) 1(3)] obtain R' q2 where
    2: "q1 = map lq_of R' @ q2" "list_all2 (initialised palloc) R R'"
      "init_loop palloc (map lq_of N @ map lq_of Z) (length S + length R) None 0
        (if R = [] then None else Some (length S)) (length R) = Done (q2, q, named, n, regex, r)"
    by auto
  from init_loop_named [OF assms(3) 2(3)] obtain N' q3 where
    3: "q2 = map lq_of N' @ q3" "list_all2 (initialised palloc) N N'"
      "init_loop palloc (map lq_of Z) (length S + length R + length N)
        (if N = [] then None else Some (length S + length R)) (length N)
        (if R = [] then None else Some (length S)) (length R) = Done (q3, q, named, n, regex, r)"
    by auto
  from init_loop_noname [OF assms(4) 3(3)] show ?thesis
    using that [of S' R' N' q3] 1 2 3 by simp
qed

subsection \<open>The sorted queue\<close>

definition kind :: "('re, 'c) clcf \<Rightarrow> nat" where
  "kind c = (if lc_noname c then 4 else if lc_named c then 3 else if lc_regex c \<noteq> None then 2 else 1)"

lemma kind_key: "fst (location_key (lq_of c)) = kind c"
  by (simp add: location_key_def kind_def)

lemma kind_static: "is_static c \<longleftrightarrow> kind c = 1"
  by (simp add: kind_def is_static_def)

abbreviation sort_locations :: "('re, 'c) clcf list \<Rightarrow> ('re, 'c) clcf list" where
  "sort_locations cs \<equiv> sort_key (\<lambda>c. location_key (lq_of c)) cs"

lemma map_sort_key: "map g (sort_key (\<lambda>x. f (g x)) xs) = sort_key f (map g xs)"
proof -
  have "map g (insort_key (\<lambda>x. f (g x)) x xs) = insort_key f (g x) (map g xs)" for x xs
    by (induction xs) simp_all
  then show ?thesis by (induction xs) simp_all
qed

lemma queue_sort_locations:
  "queue_sort ngx_http_cmp_locations (map lq_of cs) = map lq_of (sort_locations cs)"
  by (simp add: locations.queue_sort_sort_key map_sort_key)

lemma sorted_split:
  fixes f :: "'a \<Rightarrow> nat"
  assumes "sorted (map f xs)"
  shows "filter (\<lambda>x. f x \<le> k) xs @ filter (\<lambda>x. k < f x) xs = xs"
  using assms
proof (induction xs)
  case (Cons x xs)
  show ?case
  proof (cases "f x \<le> k")
    case False
    then have "filter (\<lambda>x. f x \<le> k) xs = []" "filter (\<lambda>x. k < f x) xs = xs"
      using Cons.prems by (auto simp: filter_empty_conv intro!: filter_True)
    with False show ?thesis by simp
  qed (use Cons in simp)
qed simp

lemma kind_mono:
  "location_key (lq_of a) \<le> location_key (lq_of b) \<Longrightarrow> kind a \<le> kind b"
  by (auto simp: less_eq_prod_def simp flip: kind_key)

lemma sorted_kinds: "sorted (map kind (sort_locations cs))"
proof -
  have "sorted (map (\<lambda>c. location_key (lq_of c)) (sort_locations cs))" by simp
  then show ?thesis
    unfolding sorted_map by (rule sorted_wrt_mono_rel [rotated]) (rule kind_mono)
qed

lemma sort_locations_kinds:
  "sort_locations cs = filter (\<lambda>c. kind c = 1) (sort_locations cs) @ filter (\<lambda>c. kind c = 2) (sort_locations cs) @
    filter (\<lambda>c. kind c = 3) (sort_locations cs) @ filter (\<lambda>c. kind c = 4) (sort_locations cs)"
proof -
  let ?xs = "sort_locations cs"
  have s: "sorted (map kind (filter P ?xs))" for P
    unfolding filter_sort by (rule sorted_kinds)
  have s2: "sorted (map kind (filter P (filter Q ?xs)))" for P Q
    unfolding filter_sort by (rule sorted_kinds)
  have "?xs = filter (\<lambda>c. kind c \<le> 1) ?xs @ filter (\<lambda>c. 1 < kind c) ?xs"
    by (simp only: sorted_split [OF sorted_kinds])
  also have "filter (\<lambda>c. 1 < kind c) ?xs = filter (\<lambda>c. kind c \<le> 2) (filter (\<lambda>c. 1 < kind c) ?xs) @
      filter (\<lambda>c. 2 < kind c) (filter (\<lambda>c. 1 < kind c) ?xs)"
    by (simp only: sorted_split [OF s])
  also have "filter (\<lambda>c. 2 < kind c) (filter (\<lambda>c. 1 < kind c) ?xs) =
      filter (\<lambda>c. kind c \<le> 3) (filter (\<lambda>c. 2 < kind c) (filter (\<lambda>c. 1 < kind c) ?xs)) @
      filter (\<lambda>c. 3 < kind c) (filter (\<lambda>c. 2 < kind c) (filter (\<lambda>c. 1 < kind c) ?xs))"
    by (simp only: sorted_split [OF s2])
  also have "filter (\<lambda>c. kind c \<le> 1) ?xs = filter (\<lambda>c. kind c = 1) ?xs"
    by (rule filter_cong) (auto simp: kind_def)
  also have "filter (\<lambda>c. kind c \<le> 2) (filter (\<lambda>c. 1 < kind c) ?xs) = filter (\<lambda>c. kind c = 2) ?xs"
    unfolding filter_filter by (rule filter_cong) (auto simp: kind_def)
  also have "filter (\<lambda>c. kind c \<le> 3) (filter (\<lambda>c. 2 < kind c) (filter (\<lambda>c. 1 < kind c) ?xs)) = filter (\<lambda>c. kind c = 3) ?xs"
    unfolding filter_filter by (rule filter_cong) (auto simp: kind_def)
  also have "filter (\<lambda>c. 3 < kind c) (filter (\<lambda>c. 2 < kind c) (filter (\<lambda>c. 1 < kind c) ?xs)) = filter (\<lambda>c. kind c = 4) ?xs"
    unfolding filter_filter by (rule filter_cong) (auto simp: kind_def)
  finally show ?thesis .
qed

lemma sort_locations_constant:
  assumes "\<forall>c \<in> set cs. kind c = 2"
  shows "sort_locations cs = cs"
proof -
  have key: "location_key (lq_of c) = (2, [], 0)" if "kind c = 2" for c :: "('a, 'b) clcf"
    using that by (auto simp: location_key_def kind_def split: if_splits)
  have "filter (\<lambda>c. location_key (lq_of c) = (2, [], 0)) (sort_locations cs) =
      filter (\<lambda>c. location_key (lq_of c) = (2, [], 0)) cs" by (rule sort_key_stable)
  moreover have "filter (\<lambda>c. location_key (lq_of c) = (2, [], 0)) xs = xs" if "set xs = set cs" for xs
    using assms that key by (intro filter_True) auto
  ultimately show ?thesis by simp
qed


text \<open>
  The locations of a configuration file: those nested in \<open>c\<close>, in their order; the initialisation
  has not begun, a location has one kind, and the names of static locations are at most 255 bytes
  long and have no zero in them.
\<close>

definition nested :: "('re, 'c) clcf \<Rightarrow> ('re, 'c) clcf list" where
  "nested c = (case lc_locations c of None \<Rightarrow> [] | Some ls \<Rightarrow> map (\<lambda>q. the (lq_clcf q)) ls)"

definition location_ok :: "('re, 'c) clcf \<Rightarrow> bool" where
  "location_ok c \<longleftrightarrow> (lc_regex c \<noteq> None \<longrightarrow> \<not> lc_named c \<and> \<not> lc_noname c) \<and> \<not> (lc_named c \<and> lc_noname c) \<and>
     (is_static c \<longrightarrow> 0 \<notin> set (lc_name c) \<and> length (lc_name c) < 256)"

lemma kind_ok:
  assumes "location_ok c"
  shows "kind c = 2 \<longleftrightarrow> lc_regex c \<noteq> None" "kind c = 3 \<Longrightarrow> lc_regex c = None \<and> lc_named c"
    "kind c = 4 \<Longrightarrow> lc_regex c = None \<and> \<not> lc_named c \<and> lc_noname c"
  using assms by (auto simp: location_ok_def kind_def split: if_splits)

inductive config_ok :: "('re, 'c) clcf \<Rightarrow> bool" where
  "\<lbrakk>lc_locations c = None \<or> lc_locations c = Some (map lq_of (nested c));
    lc_static_locations c = No_node; lc_regex_locations c = None;
    \<forall>x \<in> set (nested c). location_ok x \<and> config_ok x\<rbrakk> \<Longrightarrow> config_ok c"

text \<open>The static locations of a level, sorted, and its regular expressions in their order.\<close>

definition static_nested :: "('re, 'c) clcf \<Rightarrow> ('re, 'c) clcf list" where
  "static_nested c = sort_locations (filter is_static (nested c))"

definition regex_nested :: "('re, 'c) clcf \<Rightarrow> ('re, 'c) clcf list" where
  "regex_nested c = filter (\<lambda>c. lc_regex c \<noteq> None) (nested c)"

definition regex_array :: "('re, 'c) clcf list \<Rightarrow> ('re, 'c) clcf option list option" where
  "regex_array rs = (if rs = [] then None else Some (map Some rs @ [None]))"

text \<open>What \<open>ngx_http_init_locations\<close> makes of a configuration.\<close>

inductive splitted :: "('re, 'c) clcf \<Rightarrow> ('re, 'c) clcf \<Rightarrow> bool" where
  "\<lbrakk>core c' = core c; lc_static_locations c' = No_node;
    lc_locations c = None \<and> lc_locations c' = None \<or> lc_locations c' = Some (map lq_of ss);
    list_all2 splitted (static_nested c) ss; lc_regex_locations c' = regex_array rs;
    list_all2 splitted (regex_nested c) rs\<rbrakk> \<Longrightarrow> splitted c c'"

lemma list_all2_set2: "list_all2 P xs ys \<Longrightarrow> y \<in> set ys \<Longrightarrow> \<exists>x \<in> set xs. P x y"
  by (induction rule: list_all2_induct) auto


lemma init_locations_splitted:
  "config_ok c \<Longrightarrow> ngx_http_init_locations palloc cscf c = Done (c', nl) \<Longrightarrow> splitted c c'"
proof (induction arbitrary: cscf c' nl rule: config_ok.induct)
  case (1 c)
  show ?case
  proof (cases "lc_locations c")
    case None
    then show ?thesis
      using 1 by (intro splitted.intros [of _ _ "[]" "[]"])
        (auto simp: ngx_http_init_locations.simps nested_def static_nested_def regex_nested_def regex_array_def)
  next
    case (Some ls)
    let ?cs = "sort_locations (nested c)"
    define S R N Z where "S = filter (\<lambda>c. kind c = 1) ?cs" and "R = filter (\<lambda>c. kind c = 2) ?cs"
      and "N = filter (\<lambda>c. kind c = 3) ?cs" and "Z = filter (\<lambda>c. kind c = 4) ?cs"
    have cs: "?cs = S @ R @ N @ Z" unfolding S_def R_def N_def Z_def by (rule sort_locations_kinds)
    have ls: "ls = map lq_of (nested c)" using 1(1) Some by auto
    have ok: "location_ok x" if "x \<in> set ?cs" for x using 1(4) that by simp
    have kS: "\<forall>x \<in> set S. is_static x" by (simp add: S_def kind_static)
    have kR: "\<forall>x \<in> set R. lc_regex x \<noteq> None" using ok kind_ok(1) by (auto simp: R_def)
    have kN: "\<forall>x \<in> set N. lc_regex x = None \<and> lc_named x"
      using ok kind_ok(2) unfolding N_def by (metis (mono_tags, lifting) mem_Collect_eq set_filter)
    have kZ: "\<forall>x \<in> set Z. lc_regex x = None \<and> \<not> lc_named x \<and> lc_noname x"
      using ok kind_ok(3) unfolding Z_def by (metis (mono_tags, lifting) mem_Collect_eq set_filter)
    note kinds = init_loop_kinds [OF kS kR kN kZ]
    have S: "S = static_nested c"
    proof -
      have "filter (\<lambda>c. kind c = 1) (nested c) = filter is_static (nested c)"
        by (rule filter_cong) (simp_all add: kind_static)
      then show ?thesis unfolding S_def static_nested_def filter_sort by (simp only:)
    qed
    have R: "R = regex_nested c"
    proof -
      have "filter (\<lambda>c. kind c = 2) (nested c) = regex_nested c"
        unfolding regex_nested_def using 1(4) by (intro filter_cong) (auto simp: kind_ok)
      moreover have "sort_locations (filter (\<lambda>c. kind c = 2) (nested c)) = filter (\<lambda>c. kind c = 2) (nested c)"
        by (rule sort_locations_constant) simp
      ultimately show ?thesis unfolding R_def filter_sort by (simp only:)
    qed
    have "queue_sort ngx_http_cmp_locations ls = map lq_of (S @ R @ N @ Z)"
      by (simp only: ls queue_sort_locations cs)
    with 1(5) Some obtain qs q named n regex r where
      loop: "init_loop palloc (map lq_of (S @ R @ N @ Z)) 0 None 0 None 0 = Done (qs, q, named, n, regex, r)"
      and res: "(let locations = take q qs in
               if named \<noteq> None \<and> \<not> palloc ((n + 1) * 8) then Failed
               else if named \<noteq> None \<and> \<not> cscf then Undefined
               else
                 (let (named_locations, locations) =
                    (case named of
                       None \<Rightarrow> (None, locations)
                     | Some i \<Rightarrow> (Some (map lq_exact (drop i locations) @ [None]), take i locations))
                  in
                  (case regex of
                     None \<Rightarrow> Done (set_locations locations c, named_locations)
                   | Some i \<Rightarrow>
                       if \<not> palloc ((r + 1) * 8) then Failed
                       else
                         Done (set_locations (take i locations)
                                (set_regex_locations (map lq_exact (drop i locations) @ [None]) c),
                              named_locations)))) = Done (c', nl)"
      by (auto simp: ngx_http_init_locations.simps)
    obtain S' R' N' rest where r: "qs = map lq_of (S' @ R' @ N') @ rest"
      "list_all2 (initialised palloc) S S'" "list_all2 (initialised palloc) R R'" "list_all2 (initialised palloc) N N'"
      "q = length S + length R + length N" "named = (if N = [] then None else Some (length S + length R))"
      "regex = (if R = [] then None else Some (length S))"
      by (rule kinds [OF loop])
    have len: "length S' = length S" "length R' = length R" "length N' = length N"
      using r(2-4) by (auto dest: list_all2_lengthD)
    have "lq_exact (lq_of x) = Some x" if "x \<in> set R'" for x
    proof -
      from that r(3) obtain y nl where "y \<in> set R" "ngx_http_init_locations palloc False y = Done (x, nl)"
        by (blast dest: list_all2_set2)
      then have "lc_regex x \<noteq> None"
        using kR core_fields(7) [OF init_locations_core] by fastforce
      then show ?thesis by (simp add: lq_of_def)
    qed
    then have ex: "map (lq_exact \<circ> lq_of) R' = map Some R'" by simp
    have "c' = set_locations (map lq_of S') (if R = [] then c else set_regex_locations (map Some R' @ [None]) c)"
      using res len ex unfolding r(1,5-7) by (cases "R = []"; cases "N = []") (auto simp: Let_def split: if_splits)
    moreover have "list_all2 splitted S S'" "list_all2 splitted R R'"
      by (rule list.rel_mono_strong [OF r(2)], use 1(4) S in \<open>auto simp: static_nested_def\<close>)
        (rule list.rel_mono_strong [OF r(3)], use 1(4) R in \<open>auto simp: regex_nested_def\<close>)
    ultimately show ?thesis
      using 1(2,3) len by (intro splitted.intros [of _ _ S' R']) (auto simp: S R regex_array_def)
  qed
qed









section \<open>The specification of the search\<close>










section \<open>Properties\<close>


text \<open>A location without anything nested, and a server with five of them.\<close>

definition sample_location :: "nat \<Rightarrow> string \<Rightarrow> bool \<Rightarrow> bool \<Rightarrow> nat option \<Rightarrow> (nat, nat) clcf" where
  "sample_location n name exact auto re =
     Clcf n (str name) False False exact False auto re None No_node None"

definition sample_server :: "(nat, nat) clcf list \<Rightarrow> (nat, nat) clcf" where
  "sample_server cs = Clcf 0 [] False False False False False None (Some (map lq_of cs)) No_node None"


definition find_in :: "(nat, nat) clcf list \<Rightarrow> string \<Rightarrow> (loc_rc \<times> nat) option" where
  "find_in cs u =
     (case init_server (\<lambda>_. True) (sample_server cs) of
        Done (c, _) \<Rightarrow> map_option (\<lambda>(rc, l). (rc, lc_conf l))
          (ngx_http_core_find_location (\<lambda>re u. if u = str ''/img/a.php'' then Regex_OK else Regex_DECLINED) (str u) c)
      | _ \<Rightarrow> None)"















lemma ngx_strncmp_prefix:
  "ngx_strncmp (a @ [0]) s (b @ [0]) s n = Some 0 \<Longrightarrow> s + n \<le> length b \<Longrightarrow> 0 \<notin> set b \<Longrightarrow>
   take n (drop s b) = take n (drop s a)"
proof (induction n arbitrary: s)
  case (Suc n)
  then have b: "s < length b" "b ! s \<noteq> 0" by (auto simp: in_set_conv_nth)
  obtain x where x: "rd (a @ [0]) s = Some x" using Suc.prems(1) by (cases "rd (a @ [0]) s") auto
  have eq: "x = b ! s" "ngx_strncmp (a @ [0]) (Suc s) (b @ [0]) (Suc s) n = Some 0"
    using Suc.prems(1) x b by (auto simp: nth_append split: if_splits)
  then have "s < length a" using x b by (auto simp: rd_eq_Some_iff nth_append less_Suc_eq split: if_splits)
  moreover have "a ! s = b ! s" using eq(1) x \<open>s < length a\<close> by (simp add: rd_eq_Some_iff nth_append)
  ultimately have "drop s a = b ! s # drop (Suc s) a" "drop s b = b ! s # drop (Suc s) b"
    using b(1) by (metis Cons_nth_drop_Suc)+
  with Suc.IH [OF eq(2)] Suc.prems show ?case by simp
qed simp

text \<open>
  The location directive makes a location of a single kind, and inside another location it
  accepts neither named locations nor, unless it is a regular expression, names that the name of
  the enclosing one is not a prefix of; nothing is accepted inside exact and named locations. The
  new location is appended to the queue.
\<close>

theorem ngx_http_core_location_accepts:
  assumes "ngx_http_core_location compile palloc (Some conf) pclcf value = Some (c, ls)"
    and "0 \<notin> set (lc_name pclcf)" and "lc_name pclcf \<noteq> []"
  shows "\<not> lc_exact_match pclcf \<and> \<not> lc_named pclcf \<and> \<not> lc_named c \<and> \<not> lc_noname c \<and> lc_conf c = conf \<and>
    (if lc_regex c \<noteq> None then \<not> lc_exact_match c else prefix (lc_name pclcf) (lc_name c)) \<and>
    ls = (case lc_locations pclcf of None \<Rightarrow> [] | Some qs \<Rightarrow> qs) @ [lq_of c]"
proof -
  let ?p = "lc_name pclcf"
  obtain c' where c': "location_args compile conf value = Some c'"
    using assms(1) by (auto simp: ngx_http_core_location_def split: Option.bind_splits)
  have args: "\<not> lc_noname c' \<and> lc_conf c' = conf \<and> (lc_regex c' \<noteq> None \<longrightarrow> \<not> lc_exact_match c')"
    using c' by (cases "(compile, conf, value)" rule: location_args.cases)
      (auto simp: Let_def ngx_http_core_regex_location_def split: if_splits option.splits)
  have c: "c = c'" "ngx_http_add_location palloc (lc_locations pclcf) c' = Some ls" "\<not> lc_exact_match pclcf" "\<not> lc_named pclcf" "\<not> lc_named c'"
    "lc_regex c' = None \<longrightarrow> ngx_strncmp (lc_name c' @ [0]) 0 (?p @ [0]) 0 (length ?p) = Some 0"
    using assms(1,3) by (auto simp: ngx_http_core_location_def c' split: if_splits)
  have "prefix ?p (lc_name c')" if "lc_regex c' = None"
    using ngx_strncmp_prefix [of "lc_name c'" 0 ?p "length ?p"] c(6) that assms(2) by (metis add_0 drop_0 order_refl take_all take_is_prefix)
  with args c show ?thesis
    by (auto simp: ngx_http_add_location_eq split: option.splits if_splits)
qed

theorem ngx_http_core_location_accepts_witness:
  "\<exists>c. ngx_http_core_location (\<lambda>_ _. None) (\<lambda>_. True) (Some 9) (sample_location 1 ''/img/'' False False None) [str ''^~'', str ''/img/big/''] =
       Some (c, [lq_of c]) \<and> prefix (str ''/img/'') (lc_name c) \<and> lc_conf c = (9 :: nat)"
proof -
  let ?p = "sample_location 1 ''/img/'' False False None" and ?v = "[str ''^~'', str ''/img/big/'']"
  have "ngx_http_core_location (\<lambda>_ _. None) (\<lambda>_. True) (Some 9) ?p ?v \<noteq> None" by code_simp
  then obtain c ls where c: "ngx_http_core_location (\<lambda>_ _. None) (\<lambda>_. True) (Some 9) ?p ?v = Some (c, ls)" by auto
  moreover from this have "lc_regex c = None"
    by (auto simp: ngx_http_core_location_def Let_def c_byte_def ngx_http_core_regex_location_def split: if_splits)
  ultimately show ?thesis
    using ngx_http_core_location_accepts [OF c] by (simp add: sample_location_def)
qed

section \<open>Findings\<close>

text \<open>
  The redirect can be missed: \<open>/foo-bar\<close> comes between \<open>/foo\<close> and \<open>/foo/\<close>, and when it becomes the
  root of the tree, the search for \<open>/foo\<close> goes to the left and never sees \<open>/foo/\<close>.
\<close>

theorem redirect_missed:
  "find_in [sample_location 1 ''/foo/'' False True None] ''/foo'' = Some (Loc_DONE, 1) \<and>
   find_in [sample_location 1 ''/foo/'' False True None, sample_location 2 ''/foo-bar'' False False None,
     sample_location 3 ''/a'' False False None] ''/foo'' = Some (Loc_DECLINED, 0)"
  by code_simp

text \<open>
  \<open>node->len\<close> has eight bits: a location with a name of 256 bytes matches every URI.
\<close>

theorem long_name_matches_all:
  assumes "length name = 256" and "lq_exact q = None" "lq_inclusive q = Some c" "lq_name q = name" and "uri \<noteq> []"
  shows "ngx_http_core_find_static_location uri (make_tree_node q 0 No_node No_node No_node) loc = Some (Loc_AGAIN, c)"
proof -
  have "(word_of_nat (length name) :: u_char) = 0" by (simp add: assms(1))
  then have node: "make_tree_node q 0 No_node No_node No_node =
      Tree_node No_node No_node No_node None (Some c) (lc_auto_redirect c) 0 name"
    by (simp add: make_tree_node_def assms(2-4))
  from assms(5) show ?thesis
    unfolding ngx_http_core_find_static_location_def node by (cases uri) simp_all
qed

text \<open>
  Static locations inside a regular expression location are accepted by the directive, but no tree
  is built for them.
\<close>

theorem static_in_regex_ignored:
  assumes "config_ok c" and "ngx_http_init_locations palloc cscf c = Done (c', nl)"
    and "ngx_http_init_static_location_trees palloc c' = Done c''"
    and "lc_regex_locations c'' = Some cs" and "Some x \<in> set cs"
  shows "lc_static_locations x = No_node"
proof -
  have "lc_regex_locations c'' = lc_regex_locations c'"
    using assms(3) by (auto simp: ngx_http_init_static_location_trees.simps [of palloc c'] split: option.splits list.splits)
  moreover obtain rs where "lc_regex_locations c' = regex_array rs" "list_all2 splitted (regex_nested c) rs"
    using init_locations_splitted [OF assms(1,2)] by (auto elim: splitted.cases)
  ultimately have "x \<in> set rs" "list_all2 splitted (regex_nested c) rs"
    using assms(4,5) by (auto simp: regex_array_def split: if_splits)
  then obtain y where "splitted y x" by (blast dest: list_all2_set2)
  then show ?thesis by (auto elim: splitted.cases)
qed

end
