(* ===== verification/Spec2Isabelle.thy ===== *)
theory Spec2Isabelle
  imports Ngx_String_Num Ngx_String_Search Ngx_String_Escape Ngx_String_Base64 Ngx_String_Utf8
    Ngx_Http_Request_Line Ngx_Http_Header_Line Ngx_Http_Complex_Uri
    Ngx_Http_Parse_Rest Ngx_Mail_Pop3_Smtp Ngx_Mail_Imap
    Ngx_String_Printf Ngx_Http_Time Ngx_Radix_Tree Ngx_Http_Upstream_RR Ngx_Queue Ngx_Http_Location_Routes
begin

text \<open>
  A verification library for nginx 1.0.14.

  \<^bold>\<open>The program.\<close> A worker of nginx reads bytes from sockets into buffers and runs parsers over
  them that stop at the end of the data and go on when more has come: \<open>ngx_http_parse_request_line\<close>,
  \<open>ngx_http_parse_header_line\<close> and \<open>ngx_http_parse_status_line\<close> for http, one parser per protocol for
  mail. If the request line parser raises \<open>complex_uri\<close> or \<open>quoted_uri\<close>, the path goes through
  \<open>ngx_http_parse_complex_uri\<close>, which decodes escapes and resolves dot segments; the location and the
  access rules are looked up with its output. The handlers use the string library (numbers,
  formatted output, escaping, base64, UTF-8, searching), dates, addresses and lookup structures such
  as the radix tree of the geo and access rules. The URI selects the configuration of the request
  from the trees of locations, and a proxied request asks a load balancer for a peer.
  The library models these parts, from the bytes that come from the network to the answer of
  the component; the event loop, the operating system and the module framework around them are
  not modelled.

  \<^bold>\<open>How code is modelled.\<close> A C function is a HOL function of its inputs and of the memory it
  reads, a list of bytes indexed from the start of the buffer. A read goes through \<open>rd\<close> (or \<open>at\<close> for
  arrays) and gives \<open>None\<close> outside the memory, so that \<open>None\<close> means undefined behaviour in every
  model: a read or write outside the memory, a null pointer, a division by zero, an overflow of
  signed numbers, a wrong variable argument. A theorem that a result is \<open>Some\<close> is therefore one of
  memory safety, and, since every function is total, of termination. Numbers have their width:
  \<open>ngx_uint_t\<close>, \<open>size_t\<close> and \<open>time_t\<close> are words of 64 bits, \<open>u_char\<close> is a word of 8 bits, and signed
  comparison and conversion are written out; where signed overflow matters they are
  integers with a range test. The return codes of C are data types or sums. The platform is
  64-bit little-endian unix, with the default build options and \<open>NGX_MAIL_SSL\<close>.

  A parser with states is a step function on the character and the session, and \<open>scan\<close> of
  \<open>Ngx_Scan\<close> is the loop around it: it goes over the characters from a position on and stops with the
  first step that leaves the loop. Its lemmas give resumption (\<open>scan_append\<close>) and
  invariants (\<open>scan_invariant\<close>) for all parsers.

  \<^bold>\<open>The theories.\<close>
  \<^item> \<open>Ngx_Prelude\<close>: names of C types, characters, reads, bitmaps, lemmas on bytes and words.
  \<^item> \<open>Ngx_Scan\<close>: the loop of the incremental parsers and its laws.
  \<^item> \<open>Ngx_String_Num\<close>: \<open>ngx_atoi\<close> and its relatives, \<open>ngx_hextoi\<close>, \<open>ngx_hex_dump\<close>, \<open>ngx_sprintf_num\<close>
    (\<open>src/core/ngx_string.c\<close>): decimal and hexadecimal values, what overflow does, round trips.
  \<^item> \<open>Ngx_String_Printf\<close>: \<open>ngx_vslprintf\<close> and the functions around it (the same file), without \<open>%f\<close>:
    output is cut off at the end of the buffer, and otherwise the same.
  \<^item> \<open>Ngx_String_Search\<close>: comparison and search of strings; \<open>ngx_strlcasestrn\<close> finds the first place.
  \<^item> \<open>Ngx_String_Escape\<close>, \<open>Ngx_String_Base64\<close>, \<open>Ngx_String_Utf8\<close>: encoders and decoders of the same file
    with round trips, lengths, and safety in place.
  \<^item> \<open>Ngx_Sort\<close>: \<open>ngx_sort\<close>; the locale \<open>comparison\<close> states what a comparison function promises, and in it
    the sort is shown to be the stable sort of the library.
  \<^item> \<open>Ngx_Http_Chars\<close>, \<open>Ngx_Http_Request_Line\<close>, \<open>Ngx_Http_Header_Line\<close>, \<open>Ngx_Http_Complex_Uri\<close>,
    \<open>Ngx_Http_Parse_Rest\<close>: the parsers of \<open>src/http/ngx_http_parse.c\<close>. For the incremental ones: the result
    does not depend on how the data is cut into pieces, the pointers they set are inside the data
    and in order, and well-formed lines are split into their parts. The normaliser ends, stays in
    its memory and leaves no inner dot segments.
  \<^item> \<open>Ngx_Http_Time\<close>: dates (\<open>src/core/ngx_times.c\<close>, \<open>src/http/ngx_http_parse_time.c\<close>): \<open>ngx_gmtime\<close>
    agrees with counting days, and the parser reads back what the printer writes.
  \<^item> \<open>Ngx_Mail_Session\<close>, \<open>Ngx_Mail_Pop3_Smtp\<close>, \<open>Ngx_Mail_Imap\<close>: the command parsers of
    \<open>src/mail/ngx_mail_parse.c\<close>: resumption, and arguments inside the data.
  \<^item> \<open>Ngx_Radix_Tree\<close>: the 32-bit radix tree (\<open>src/core/ngx_radix_tree.c\<close>) in a store of nodes with
    pointers and its free list. The locale \<open>prefix_map\<close> states the interface; the tree refines a
    finite map from networks to values with longest-prefix lookup.
  \<^item> \<open>Ngx_Http_Upstream_RR\<close>: the load balancer (\<open>src/http/ngx_http_upstream_round_robin.c\<close> and
    \<open>src/http/modules/ngx_http_upstream_ip_hash_module.c\<close>): requests as an inductive relation of
    interleaved steps, safety and well-formedness in every history, fairness, stickiness.
  \<^item> \<open>Ngx_Queue\<close>: the intrusive queues of the core (\<open>src/core/ngx_queue.h\<close>, \<open>ngx_queue.c\<close>) in a memory
    of links. \<open>is_queue\<close> relates a ring of nodes to the list of its elements, every macro is shown to
    perform its operation on that list, and \<open>ngx_queue_sort\<close> to be the stable sort, inside the locale
    \<open>comparison\<close>.
  \<^item> \<open>Ngx_Http_Locations\<close>, \<open>Ngx_Http_Location_Tree\<close>, \<open>Ngx_Http_Location_Routes\<close>: the router, from the
    location directive to the phase that finds the configuration of a request
    (\<open>src/http/ngx_http.c\<close>, \<open>src/http/ngx_http_core_module.c\<close>). The first theory is the model and the
    interpretation of \<open>comparison\<close> on \<open>ngx_http_cmp_locations\<close>; the second treats one level: the flat
    meaning of trees, lists and joins, and the search in a tree; the third all levels: \<open>config_ok\<close> says
    which configurations are considered, \<open>routes\<close> what a request for a URI is to be given, and the code
    refines it.

  \<^bold>\<open>Properties.\<close> Every property of the development stands behind a text that gives its number
  \<open>C\<close>n and states it in words, with a witness behind it that applies it to a concrete input. Theorems
  behind a text without a number show how the code differs from its comments or from what it means to
  do; they are concrete evaluations of the models.

  \<^bold>\<open>Bounds and fuel.\<close> Loops are recursive functions with a measure, for most of them the distance
  to the end of the data; a count-down loop has the counter as measure. Where an argument cannot
  be given beforehand the function is a \<open>partial_function\<close> into options (the walks of the
  radix tree, the loops over queues, the path normaliser and \<open>ngx_utf8_length\<close>) and a theorem says that
  it returns on well-formed data. The only fuel is that of \<open>items_loop\<close> in \<open>Ngx_Http_Parse_Rest\<close>: one
  more than the length of the value, and every turn of the loop consumes a byte. Numeric
  hypotheses are those of the code's types: dates below \<open>2 ^ 55\<close> seconds (the year has to fit into
  an \<open>int\<close>), weights below \<open>2 ^ 53\<close> (the code multiplies them by 1000), fewer than \<open>2 ^ 62\<close>
  requests and peers below \<open>2 ^ 32\<close>, and names of locations below 256 bytes and without zero bytes
  (\<open>config_ok\<close>; longer names are a finding).

  \<^bold>\<open>Not modelled.\<close> Code that is not in the repository is a parameter: memory allocation as a
  predicate that says which allocation succeeds (with what the allocator hands out for the
  radix tree), name resolution as its result, the clock as an argument, and the compilation and execution of
  regular expressions as functions. Left out are the process, event and socket code, the
  configuration framework, the other http phases and the filters, the upstream connection handling, the
  modules with their directives, OpenSSL, PCRE, zlib and the other libraries, the mail sessions, and the
  other containers of the core; the manifest lists them with the reason. These parts call the operating system or
  move buffers between modules, and their correctness is that of the whole event-driven state.
  Of the modelled files the floating point conversion \<open>%f\<close>, the peers of names resolved at run time
  and the SSL session hooks of the balancer are left out, and so are code for Windows and
  debug logging.
\<close>

end
